theory Spec2Isabelle
  imports Main "HOL-Library.AList"
begin

section \<open>Path codec (sync.js, buildTagsForPath and extractFolderPath)\<close>

text \<open>
  Paths and tags are JavaScript strings; they are modelled as \<open>string\<close>. A folder
  path is the empty string for the root or the folder titles joined by a slash. The
  truthiness test \<^verbatim>\<open>!folderPath\<close> on a string is the test for the empty string.
\<close>

definition startsWith :: "string \<Rightarrow> string \<Rightarrow> bool" where
  "startsWith t p = (take (length p) t = p)"

definition buildTagsForPath :: "string \<Rightarrow> string \<Rightarrow> string list" where
  "buildTagsForPath syncTag folderPath =
     (if folderPath = [] then [syncTag] else [syncTag, syncTag @ ''/'' @ folderPath])"

text \<open>The loop body of extractFolderPath: keep the longest tag with the prefix seen so far.\<close>

definition betterTag :: "string \<Rightarrow> string \<Rightarrow> string \<Rightarrow> string" where
  "betterTag pfx best t = (if startsWith t pfx \<and> length t > length best then t else best)"

definition extractFolderPath :: "string \<Rightarrow> string list \<Rightarrow> string" where
  "extractFolderPath syncTag tagNames =
     (let pfx = syncTag @ ''/'';
          best = foldl (betterTag pfx) [] tagNames
      in if best = [] then [] else drop (length pfx) best)"

text \<open>\<^verbatim>\<open>parts.join("/")\<close> and \<^verbatim>\<open>folderPath.split("/")\<close>.\<close>

fun joinPath :: "string list \<Rightarrow> string" where
  "joinPath [] = []"
| "joinPath [s] = s"
| "joinPath (s # t # ss) = s @ ''/'' @ joinPath (t # ss)"

fun splitPath :: "string \<Rightarrow> string list" where
  "splitPath [] = [[]]"
| "splitPath (c # cs) =
     (if c = CHR ''/'' then [] # splitPath cs
      else (case splitPath cs of [] \<Rightarrow> [[c]] | p # ps \<Rightarrow> (c # p) # ps))"

section \<open>Sync scheduler (background service worker, SyncManager)\<close>

text \<open>
  The service worker is single threaded: the synchronous part of \<^verbatim>\<open>run\<close> up to the
  call of \<^verbatim>\<open>func\<close>, and the \<^verbatim>\<open>finally\<close> block with \<^verbatim>\<open>checkQueue\<close>, each execute
  without interleaving. The manager is the pair of flags; a request and the completion
  of the running sync are the two transitions.
\<close>

record manager =
  isSyncing :: bool
  queuedTwoWay :: bool

datatype syncType = oneWay | twoWay

datatype func = RunSync | RunInitialTwoWaySync string | RunTwoWaySync

datatype outcome = Began func | QueuedSilently | BusyError

definition run :: "syncType \<Rightarrow> func \<Rightarrow> manager \<Rightarrow> outcome \<times> manager" where
  "run ty f m =
     (if isSyncing m then
        (if ty = twoWay then (QueuedSilently, m\<lparr>queuedTwoWay := True\<rparr>)
         else (BusyError, m))
      else (Began f, m\<lparr>isSyncing := True\<rparr>))"

definition checkQueue :: "manager \<Rightarrow> outcome option \<times> manager" where
  "checkQueue m =
     (if queuedTwoWay m then
        (case run twoWay RunTwoWaySync (m\<lparr>queuedTwoWay := False\<rparr>) of
           (out, m') \<Rightarrow> (Some out, m'))
      else (None, m))"

text \<open>The \<^verbatim>\<open>finally\<close> block of \<^verbatim>\<open>run\<close>, executed when the running sync settles.\<close>

definition complete :: "manager \<Rightarrow> outcome option \<times> manager" where
  "complete m = checkQueue (m\<lparr>isSyncing := False\<rparr>)"

text \<open>
  The requests that reach the manager: the three messages of the popup and options page
  (manual requests), the two calls of the alarm listener, and the debounce timer firing
  after a bookmark change (with two-way sync enabled and its initial sync done).
\<close>

datatype request =
    MsgSync
  | MsgTwoWayInitialSync string
  | MsgTwoWaySync
  | AlarmOneWay
  | AlarmTwoWay
  | DebouncedChange

fun isManual :: "request \<Rightarrow> bool" where
  "isManual MsgSync = True"
| "isManual (MsgTwoWayInitialSync mode) = True"
| "isManual MsgTwoWaySync = True"
| "isManual AlarmOneWay = False"
| "isManual AlarmTwoWay = False"
| "isManual DebouncedChange = False"

fun requestType :: "request \<Rightarrow> syncType" where
  "requestType MsgSync = oneWay"
| "requestType (MsgTwoWayInitialSync mode) = twoWay"
| "requestType MsgTwoWaySync = twoWay"
| "requestType AlarmOneWay = oneWay"
| "requestType AlarmTwoWay = twoWay"
| "requestType DebouncedChange = twoWay"

fun onRequest :: "request \<Rightarrow> manager \<Rightarrow> outcome \<times> manager" where
  "onRequest MsgSync m = run oneWay RunSync m"
| "onRequest (MsgTwoWayInitialSync mode) m = run twoWay (RunInitialTwoWaySync mode) m"
| "onRequest MsgTwoWaySync m = run twoWay RunTwoWaySync m"
| "onRequest AlarmOneWay m = run oneWay RunSync m"
| "onRequest AlarmTwoWay m = run twoWay RunTwoWaySync m"
| "onRequest DebouncedChange m =
     (if isSyncing m then (QueuedSilently, m\<lparr>queuedTwoWay := True\<rparr>)
      else run twoWay RunTwoWaySync m)"

text \<open>A burst of requests, handled one after the other; the outcomes in order.\<close>

fun onRequests :: "request list \<Rightarrow> manager \<Rightarrow> outcome list \<times> manager" where
  "onRequests [] m = ([], m)"
| "onRequests (r # rs) m =
     (case onRequest r m of (out, m') \<Rightarrow>
        (case onRequests rs m' of (outs, m'') \<Rightarrow> (out # outs, m'')))"

section \<open>Data model of the two-way sync\<close>

text \<open>
  A Linkding bookmark as the API returns it, a node of the browser's bookmark tree, a
  browser bookmark annotated with its folder path relative to the sync folder, and an
  entry of the persisted mapping \<^verbatim>\<open>twoWayMapping\<close>. Linkding ids are numbers, browser ids
  are strings, timestamps are milliseconds. A missing \<^verbatim>\<open>date_modified\<close> or
  \<^verbatim>\<open>dateAdded\<close> is \<open>None\<close>.
\<close>

record ldBookmark =
  ld_id :: nat
  ld_url :: string
  ld_title :: string
  ld_tag_names :: "string list"
  ld_date_modified :: "int option"

text \<open>\<open>Bookmark id url title dateAdded\<close> and \<open>Folder id title children\<close>.\<close>

datatype node =
    Bookmark string string string "int option"
  | Folder string string "node list"

record chromeBookmark =
  c_id :: string
  c_url :: string
  c_title :: string
  c_dateAdded :: "int option"
  c_folderPath :: string

record mappingEntry =
  linkdingId :: nat
  chromeId :: string
  title :: string
  url :: string
  folderPath :: string
  lastSynced :: int

text \<open>
  A JavaScript \<^verbatim>\<open>Map\<close> and the mapping object keep their keys in insertion order, and
  setting an existing key replaces its value in place: an association list with
  \<^const>\<open>AList.update\<close>. (Object keys that look like array indices would be ordered first;
  the keys here are URLs.)
\<close>

type_synonym 'v jsmap = "(string \<times> 'v) list"

definition indexLd :: "ldBookmark list \<Rightarrow> ldBookmark jsmap" where
  "indexLd bms = foldl (\<lambda>m bm. AList.update (ld_url bm) bm m) [] bms"

definition indexChrome :: "chromeBookmark list \<Rightarrow> chromeBookmark jsmap" where
  "indexChrome bms = foldl (\<lambda>m bm. AList.update (c_url bm) bm m) [] bms"

text \<open>\<^verbatim>\<open>[...new Set(xs)]\<close>: the elements of \<open>xs\<close> in order of first occurrence.\<close>

definition uniqueInOrder :: "'a list \<Rightarrow> 'a list" where
  "uniqueInOrder xs = foldl (\<lambda>acc x. if x \<in> set acc then acc else acc @ [x]) [] xs"

text \<open>\<^verbatim>\<open>a || b\<close> on strings.\<close>

definition orElse :: "string \<Rightarrow> string \<Rightarrow> string" where
  "orElse a b = (if a = [] then b else a)"

text \<open>
  The tree walk of getChromeBookmarksRecursive over a snapshot of the children of the
  sync folder. A child with a \<^verbatim>\<open>url\<close> is a bookmark, any other child is a folder.
\<close>

fun getChromeBookmarksRecursive :: "node list \<Rightarrow> string \<Rightarrow> chromeBookmark list" where
  "getChromeBookmarksRecursive [] pfx = []"
| "getChromeBookmarksRecursive (Bookmark i u t d # rest) pfx =
     \<lparr>c_id = i, c_url = u, c_title = t, c_dateAdded = d, c_folderPath = pfx\<rparr>
       # getChromeBookmarksRecursive rest pfx"
| "getChromeBookmarksRecursive (Folder i t kids # rest) pfx =
     getChromeBookmarksRecursive kids (if pfx = [] then t else pfx @ ''/'' @ t)
       @ getChromeBookmarksRecursive rest pfx"

section \<open>Calls to the two stores\<close>

text \<open>
  Every request the sync code sends to Linkding or to the browser's bookmark API is a
  \<open>call\<close>; the stores are a parameter \<open>api\<close> that answers a call in a world \<open>'w\<close> and
  returns the next world. \<open>Thrown\<close> is a rejected promise (network error, missing node),
  \<open>HttpError\<close> a response that is not ok. The run records its calls in order.
  The only description the sync code sends is the JSON text of \<^verbatim>\<open>{order: urls}\<close>; the
  model carries the list of URLs.
\<close>

record putBody =
  b_url :: "string option"
  b_title :: "string option"
  b_description :: "string list option"
  b_tag_names :: "string list option"

datatype call =
    LdPost string string "string list option" "string list"
  | LdPut nat putBody
  | LdDelete nat
  | LdSearchConfig
  | GetChildren string
  | CreateFolder string string
  | CreateBookmark string string string
  | UpdateTitle string string
  | Move string string
  | Remove string
  | RemoveTree string

datatype reply =
    Thrown
  | HttpError
  | Done
  | LdItem nat
  | NodeCreated string
  | Children "node list"
  | SearchHit nat "string list option"
  | SearchMiss

datatype error =
    NotEnabled
  | MissingUrlOrToken
  | NoFolderSelected
  | InitialSyncNotDone
  | FolderGone
  | FetchFailed
  | CallFailed call

type_synonym 'w api = "call \<Rightarrow> 'w \<Rightarrow> reply \<times> 'w"

text \<open>
  The state of a run: the world, the calls made so far, what \<^verbatim>\<open>console.error\<close>
  printed, the mapping under construction, the counters, and the mapping written by
  \<^verbatim>\<open>setMapping\<close> (\<open>None\<close> while nothing has been written). An exception leaves the state
  as it is at the throw, so a function returns its result or error together with the
  state.
\<close>

record 'w run =
  world :: 'w
  calls :: "call list"
  console :: "error list"
  newMapping :: "mappingEntry jsmap"
  added :: nat
  removed :: nat
  updated :: nat
  downloaded :: nat
  saved :: "mappingEntry jsmap option"

definition startRun :: "'w \<Rightarrow> 'w run" where
  "startRun w = \<lparr>world = w, calls = [], console = [], newMapping = [],
     added = 0, removed = 0, updated = 0, downloaded = 0, saved = None\<rparr>"

definition ret :: "'a \<Rightarrow> 'w run \<Rightarrow> (error + 'a) \<times> 'w run" where
  "ret x s = (Inr x, s)"

definition andThen ::
  "('w run \<Rightarrow> (error + 'a) \<times> 'w run) \<Rightarrow> ('a \<Rightarrow> 'w run \<Rightarrow> (error + 'b) \<times> 'w run)
     \<Rightarrow> 'w run \<Rightarrow> (error + 'b) \<times> 'w run" where
  "andThen f g s = (case f s of (Inl e, s') \<Rightarrow> (Inl e, s') | (Inr x, s') \<Rightarrow> g x s')"

fun forEach ::
  "('a \<Rightarrow> 'w run \<Rightarrow> (error + unit) \<times> 'w run) \<Rightarrow> 'a list \<Rightarrow> 'w run
     \<Rightarrow> (error + unit) \<times> 'w run" where
  "forEach f [] s = (Inr (), s)"
| "forEach f (x # xs) s =
     (case f x s of (Inl e, s') \<Rightarrow> (Inl e, s') | (Inr u, s') \<Rightarrow> forEach f xs s')"

definition invoke :: "'w api \<Rightarrow> call \<Rightarrow> 'w run \<Rightarrow> reply \<times> 'w run" where
  "invoke api c s =
     (case api c (world s) of (r, w') \<Rightarrow> (r, s\<lparr>world := w', calls := calls s @ [c]\<rparr>))"

text \<open>A call whose result is not used: it throws unless the response is ok.\<close>

definition perform :: "'w api \<Rightarrow> call \<Rightarrow> 'w run \<Rightarrow> (error + unit) \<times> 'w run" where
  "perform api c s =
     (case invoke api c s of
        (Thrown, s') \<Rightarrow> (Inl (CallFailed c), s')
      | (HttpError, s') \<Rightarrow> (Inl (CallFailed c), s')
      | (r, s') \<Rightarrow> (Inr (), s'))"

text \<open>\<^verbatim>\<open>if (x) body.x = x\<close> on a string argument that may be missing.\<close>

definition truthy :: "string option \<Rightarrow> string option" where
  "truthy x = (case x of None \<Rightarrow> None | Some v \<Rightarrow> if v = [] then None else Some v)"

definition createLinkdingBookmark ::
  "'w api \<Rightarrow> string \<Rightarrow> string \<Rightarrow> string list option \<Rightarrow> string list \<Rightarrow> 'w run
     \<Rightarrow> (error + nat) \<times> 'w run" where
  "createLinkdingBookmark api u t description tagNames s =
     (let c = LdPost u (orElse t u) description tagNames in
      case invoke api c s of
        (LdItem i, s') \<Rightarrow> (Inr i, s')
      | (r, s') \<Rightarrow> (Inl (CallFailed c), s'))"

definition updateLinkdingBookmark ::
  "'w api \<Rightarrow> nat \<Rightarrow> string option \<Rightarrow> string option \<Rightarrow> string list option
     \<Rightarrow> string list option \<Rightarrow> 'w run \<Rightarrow> (error + unit) \<times> 'w run" where
  "updateLinkdingBookmark api i u t description tag_names =
     perform api (LdPut i \<lparr>b_url = truthy u, b_title = truthy t,
       b_description = description, b_tag_names = tag_names\<rparr>)"

text \<open>
  Of the arguments of updateLinkdingBookmark, \<open>None\<close> is a field the caller leaves out.
  The URL and the title are sent when they are truthy, the description when it is not
  undefined, the tags when they are given (an array is always truthy).

  In deleteLinkdingBookmark a 404 counts as deleted: \<open>HttpError\<close> here is any other
  response that is not ok.
\<close>

definition deleteLinkdingBookmark :: "'w api \<Rightarrow> nat \<Rightarrow> 'w run \<Rightarrow> (error + unit) \<times> 'w run" where
  "deleteLinkdingBookmark api i = perform api (LdDelete i)"

definition getChildren :: "'w api \<Rightarrow> string \<Rightarrow> 'w run \<Rightarrow> (error + node list) \<times> 'w run" where
  "getChildren api parentId s =
     (case invoke api (GetChildren parentId) s of
        (Children ns, s') \<Rightarrow> (Inr ns, s')
      | (r, s') \<Rightarrow> (Inl (CallFailed (GetChildren parentId)), s'))"

definition createNode :: "'w api \<Rightarrow> call \<Rightarrow> 'w run \<Rightarrow> (error + string) \<times> 'w run" where
  "createNode api c s =
     (case invoke api c s of
        (NodeCreated i, s') \<Rightarrow> (Inr i, s')
      | (r, s') \<Rightarrow> (Inl (CallFailed c), s'))"

fun nodeId :: "node \<Rightarrow> string" where
  "nodeId (Bookmark i u t d) = i"
| "nodeId (Folder i t kids) = i"

fun isFolderNamed :: "string \<Rightarrow> node \<Rightarrow> bool" where
  "isFolderNamed name (Bookmark i u t d) = False"
| "isFolderNamed name (Folder i t kids) = (t = name)"

definition getOrCreateFolder ::
  "'w api \<Rightarrow> string \<Rightarrow> string \<Rightarrow> 'w run \<Rightarrow> (error + string) \<times> 'w run" where
  "getOrCreateFolder api name parentId =
     andThen (getChildren api parentId) (\<lambda>children.
       case find (isFolderNamed name) children of
         Some existing \<Rightarrow> ret (nodeId existing)
       | None \<Rightarrow> createNode api (CreateFolder parentId name))"

fun ensureParts ::
  "'w api \<Rightarrow> string list \<Rightarrow> string \<Rightarrow> 'w run \<Rightarrow> (error + string) \<times> 'w run" where
  "ensureParts api [] currentId s = (Inr currentId, s)"
| "ensureParts api (part # parts) currentId s =
     (case getOrCreateFolder api part currentId s of
        (Inl e, s') \<Rightarrow> (Inl e, s')
      | (Inr i, s') \<Rightarrow> ensureParts api parts i s')"

definition ensureFolderPath ::
  "'w api \<Rightarrow> string \<Rightarrow> string \<Rightarrow> 'w run \<Rightarrow> (error + string) \<times> 'w run" where
  "ensureFolderPath api rootFolderId fp =
     (if fp = [] then ret rootFolderId else ensureParts api (splitPath fp) rootFolderId)"

definition removeChild :: "'w api \<Rightarrow> node \<Rightarrow> 'w run \<Rightarrow> (error + unit) \<times> 'w run" where
  "removeChild api child =
     (case child of
        Bookmark i u t d \<Rightarrow> perform api (Remove i)
      | Folder i t kids \<Rightarrow> perform api (RemoveTree i))"

definition removeChildrenOf :: "'w api \<Rightarrow> string \<Rightarrow> 'w run \<Rightarrow> (error + unit) \<times> 'w run" where
  "removeChildrenOf api folderId =
     andThen (getChildren api folderId) (forEach (removeChild api))"

text \<open>
  fetchConfig searches the config bookmark and parses its description; every failure
  gives \<^verbatim>\<open>null\<close>. Its callers only use \<^verbatim>\<open>config.order\<close> when it is an array, which is
  what the model returns. \<open>SearchHit i order\<close> is a config bookmark with id \<open>i\<close>.
\<close>

definition fetchConfig :: "'w api \<Rightarrow> 'w run \<Rightarrow> string list option \<times> 'w run" where
  "fetchConfig api s =
     (case invoke api LdSearchConfig s of
        (SearchHit i order, s') \<Rightarrow> (order, s')
      | (r, s') \<Rightarrow> (None, s'))"

text \<open>
  The index of a URL in the configured order (\<^verbatim>\<open>orderMap\<close>, the last position of a URL
  wins) or \<^verbatim>\<open>Number.MAX_SAFE_INTEGER\<close>; \<^verbatim>\<open>Array.prototype.sort\<close> is stable.
\<close>

definition orderIndex :: "string list \<Rightarrow> string \<Rightarrow> nat" where
  "orderIndex order u =
     (case map_of (foldl (\<lambda>m (i, v). AList.update v i m) [] (enumerate 0 order)) u of
        Some i \<Rightarrow> i
      | None \<Rightarrow> 9007199254740991)"

definition sortByOrder :: "string list \<Rightarrow> ('a \<Rightarrow> string) \<Rightarrow> 'a list \<Rightarrow> 'a list" where
  "sortByOrder order key xs = sort_key (\<lambda>x. orderIndex order (key x)) xs"

text \<open>
  processBatch with the limit 1 of its two callers: the items run one after the other,
  and an item that throws is reported with \<^verbatim>\<open>console.error\<close> and the loop goes on.
\<close>

fun processBatch ::
  "('a \<Rightarrow> 'w run \<Rightarrow> (error + unit) \<times> 'w run) \<Rightarrow> 'a list \<Rightarrow> 'w run
     \<Rightarrow> (error + unit) \<times> 'w run" where
  "processBatch fn [] s = (Inr (), s)"
| "processBatch fn (x # xs) s =
     (case fn x s of
        (Inl e, s') \<Rightarrow> processBatch fn xs (s'\<lparr>console := console s' @ [e]\<rparr>)
      | (Inr u, s') \<Rightarrow> processBatch fn xs s')"

section \<open>Incremental reconciler (sync.js, runTwoWaySync)\<close>

record settings =
  s_url :: string
  s_token :: string
  twoWayEnabled :: bool
  twoWaySyncTag :: string
  twoWaySyncFolderId :: "string option"
  twoWayInitialSyncDone :: bool

text \<open>
  \<^verbatim>\<open>Date.now()\<close> is read at every entry a run writes; the model has one timestamp
  \<open>now\<close> for the run.

  What a run reads before it writes anything: whether the sync folder still exists, the
  bookmarks the tag search returned (\<open>None\<close> when the request failed), the children of the
  sync folder, and the persisted mapping (insertion order, one entry per key).
\<close>

record snapshot =
  folderExists :: bool
  fetched :: "ldBookmark list option"
  tree :: "node list"
  storedMapping :: "mappingEntry jsmap"

record syncResult =
  res_added :: nat
  res_removed :: nat
  res_updated :: nat
  res_total :: nat

text \<open>fetchBookmarksWithTag keeps the bookmarks that carry the exact tag.\<close>

definition withExactTag :: "string \<Rightarrow> ldBookmark list \<Rightarrow> ldBookmark list" where
  "withExactTag tag all = filter (\<lambda>bm. tag \<in> set (ld_tag_names bm)) all"

text \<open>The tags sent when a browser bookmark is linked to an existing Linkding bookmark.\<close>

definition mergedTags :: "ldBookmark \<Rightarrow> string list \<Rightarrow> string list" where
  "mergedTags ld tags = uniqueInOrder (ld_tag_names ld @ tags)"

definition tagsDiffer :: "ldBookmark \<Rightarrow> string list \<Rightarrow> bool" where
  "tagsDiffer ld merged =
     (length merged \<noteq> length (ld_tag_names ld)
      \<or> \<not> list_all (\<lambda>t. t \<in> set (ld_tag_names ld)) merged)"

text \<open>Step 1, the body of the loop over the browser bookmarks.\<close>

definition newInChrome ::
  "'w api \<Rightarrow> string \<Rightarrow> int \<Rightarrow> mappingEntry jsmap \<Rightarrow> ldBookmark jsmap \<Rightarrow> chromeBookmark
     \<Rightarrow> 'w run \<Rightarrow> (error + unit) \<times> 'w run" where
  "newInChrome api syncTag now mapping ldByUrl cbm =
     (if map_of mapping (c_url cbm) = None then
        (let tags = buildTagsForPath syncTag (c_folderPath cbm) in
         case map_of ldByUrl (c_url cbm) of
           None \<Rightarrow>
             andThen (createLinkdingBookmark api (c_url cbm) (c_title cbm) None tags)
               (\<lambda>created s. (Inr (), s\<lparr>
                  newMapping := AList.update (c_url cbm)
                    \<lparr>linkdingId = created, chromeId = c_id cbm, title = c_title cbm,
                     url = c_url cbm, folderPath = c_folderPath cbm, lastSynced = now\<rparr>
                    (newMapping s),
                  added := added s + 1\<rparr>))
         | Some ld \<Rightarrow>
             andThen
               (if tagsDiffer ld (mergedTags ld tags) then
                  updateLinkdingBookmark api (ld_id ld) (Some (ld_url ld)) (Some (ld_title ld))
                    None (Some (mergedTags ld tags))
                else ret ())
               (\<lambda>u s. (Inr (), s\<lparr>
                  newMapping := AList.update (c_url cbm)
                    \<lparr>linkdingId = ld_id ld, chromeId = c_id cbm, title = c_title cbm,
                     url = c_url cbm, folderPath = c_folderPath cbm, lastSynced = now\<rparr>
                    (newMapping s)\<rparr>)))
      else ret ())"

text \<open>Step 2, the body of the loop over the Linkding bookmarks.\<close>

definition newInLinkding ::
  "'w api \<Rightarrow> string \<Rightarrow> string \<Rightarrow> int \<Rightarrow> mappingEntry jsmap \<Rightarrow> chromeBookmark jsmap
     \<Rightarrow> ldBookmark \<Rightarrow> 'w run \<Rightarrow> (error + unit) \<times> 'w run" where
  "newInLinkding api syncTag rootId now mapping chromeByUrl ld =
     (if map_of mapping (ld_url ld) = None \<and> map_of chromeByUrl (ld_url ld) = None then
        (let fp = extractFolderPath syncTag (ld_tag_names ld) in
         andThen (ensureFolderPath api rootId fp) (\<lambda>parentId.
         andThen (createNode api
                    (CreateBookmark parentId (orElse (ld_title ld) (ld_url ld)) (ld_url ld)))
           (\<lambda>created s. (Inr (), s\<lparr>
              newMapping := AList.update (ld_url ld)
                \<lparr>linkdingId = ld_id ld, chromeId = created,
                 title = orElse (ld_title ld) (ld_url ld), url = ld_url ld,
                 folderPath = fp, lastSynced = now\<rparr>
                (newMapping s),
              added := added s + 1\<rparr>))))
      else ret ())"

text \<open>
  Step 3 for an entry present on both sides: the local variables \<^verbatim>\<open>needsLdUpdate\<close>,
  \<^verbatim>\<open>needsChromeUpdate\<close>, \<^verbatim>\<open>finalTitle\<close> and \<^verbatim>\<open>finalFolderPath\<close> after the chain of
  tests on the titles and after the chain of tests on the folder paths. The fallbacks
  \<^verbatim>\<open>entry.folderPath || ""\<close> and \<^verbatim>\<open>entry.lastSynced || 0\<close> change nothing on an entry
  that has both fields.
\<close>

record resolution =
  needsLdUpdate :: bool
  needsChromeUpdate :: bool
  finalTitle :: string
  finalFolderPath :: string

definition resolveTitle ::
  "mappingEntry \<Rightarrow> chromeBookmark \<Rightarrow> ldBookmark \<Rightarrow> resolution \<Rightarrow> resolution" where
  "resolveTitle entry cbm ld r =
     (let chromeTitle = c_title cbm;
          ldTitle = orElse (ld_title ld) (ld_url ld)
      in if chromeTitle \<noteq> title entry \<and> ldTitle = title entry then
           r\<lparr>finalTitle := chromeTitle, needsLdUpdate := True\<rparr>
         else if ldTitle \<noteq> title entry \<and> chromeTitle = title entry then
           r\<lparr>finalTitle := ldTitle, needsChromeUpdate := True\<rparr>
         else if ldTitle \<noteq> title entry \<and> chromeTitle \<noteq> title entry then
           (let ldDate = (case ld_date_modified ld of Some d \<Rightarrow> d | None \<Rightarrow> 0);
                mappedTime = lastSynced entry
            in if ldDate > mappedTime then
                 r\<lparr>finalTitle := ldTitle, needsChromeUpdate := True\<rparr>
               else r\<lparr>finalTitle := chromeTitle, needsLdUpdate := True\<rparr>)
         else r)"

definition resolvePath ::
  "string \<Rightarrow> mappingEntry \<Rightarrow> chromeBookmark \<Rightarrow> ldBookmark \<Rightarrow> resolution \<Rightarrow> resolution" where
  "resolvePath syncTag entry cbm ld r =
     (let chromeFolderPath = c_folderPath cbm;
          ldFolderPath = extractFolderPath syncTag (ld_tag_names ld);
          mappedFolderPath = folderPath entry
      in if chromeFolderPath \<noteq> mappedFolderPath \<and> ldFolderPath = mappedFolderPath then
           r\<lparr>finalFolderPath := chromeFolderPath, needsLdUpdate := True\<rparr>
         else if ldFolderPath \<noteq> mappedFolderPath \<and> chromeFolderPath = mappedFolderPath then
           r\<lparr>finalFolderPath := ldFolderPath, needsChromeUpdate := True\<rparr>
         else if ldFolderPath \<noteq> mappedFolderPath \<and> chromeFolderPath \<noteq> mappedFolderPath then
           r\<lparr>finalFolderPath := chromeFolderPath, needsLdUpdate := True\<rparr>
         else r)"

definition resolve ::
  "string \<Rightarrow> mappingEntry \<Rightarrow> chromeBookmark \<Rightarrow> ldBookmark \<Rightarrow> resolution" where
  "resolve syncTag entry cbm ld =
     resolvePath syncTag entry cbm ld (resolveTitle entry cbm ld
       \<lparr>needsLdUpdate = False, needsChromeUpdate = False,
        finalTitle = title entry, finalFolderPath = folderPath entry\<rparr>)"

text \<open>The tags of the corrective update: the new path tags, then the tags outside the namespace.\<close>

definition otherTags :: "string \<Rightarrow> ldBookmark \<Rightarrow> string list" where
  "otherTags syncTag ld =
     filter (\<lambda>t. t \<noteq> syncTag \<and> \<not> startsWith t (syncTag @ ''/'')) (ld_tag_names ld)"

definition newTags :: "string \<Rightarrow> string \<Rightarrow> ldBookmark \<Rightarrow> string list" where
  "newTags syncTag fp ld = buildTagsForPath syncTag fp @ otherTags syncTag ld"

text \<open>The writes of step 3 for an entry present on both sides, and the entry it stores.\<close>

definition updateLd ::
  "'w api \<Rightarrow> string \<Rightarrow> ldBookmark \<Rightarrow> resolution \<Rightarrow> 'w run \<Rightarrow> (error + unit) \<times> 'w run" where
  "updateLd api syncTag ld r =
     (if needsLdUpdate r then
        andThen
          (updateLinkdingBookmark api (ld_id ld) (Some (ld_url ld)) (Some (finalTitle r)) None
             (Some (newTags syncTag (finalFolderPath r) ld)))
          (\<lambda>u s. (Inr (), s\<lparr>updated := updated s + 1\<rparr>))
      else ret ())"

definition updateChrome ::
  "'w api \<Rightarrow> string \<Rightarrow> chromeBookmark \<Rightarrow> resolution \<Rightarrow> 'w run \<Rightarrow> (error + unit) \<times> 'w run" where
  "updateChrome api rootId cbm r =
     (if needsChromeUpdate r then
        andThen
          (if finalTitle r \<noteq> c_title cbm then perform api (UpdateTitle (c_id cbm) (finalTitle r))
           else ret ())
          (\<lambda>u. andThen
             (if finalFolderPath r \<noteq> c_folderPath cbm then
                andThen (ensureFolderPath api rootId (finalFolderPath r))
                  (\<lambda>newParentId. perform api (Move (c_id cbm) newParentId))
              else ret ())
             (\<lambda>u s. (Inr (), s\<lparr>updated := updated s + 1\<rparr>)))
      else ret ())"

definition mergedEntry ::
  "int \<Rightarrow> string \<Rightarrow> mappingEntry \<Rightarrow> chromeBookmark \<Rightarrow> ldBookmark \<Rightarrow> resolution
     \<Rightarrow> mappingEntry" where
  "mergedEntry now key entry cbm ld r =
     \<lparr>linkdingId = ld_id ld, chromeId = c_id cbm, title = finalTitle r, url = key,
      folderPath = finalFolderPath r, lastSynced = now\<rparr>"

definition keptEntry :: "mappingEntry \<Rightarrow> chromeBookmark \<Rightarrow> ldBookmark \<Rightarrow> mappingEntry" where
  "keptEntry entry cbm ld =
     entry\<lparr>chromeId := c_id cbm, linkdingId := ld_id ld, folderPath := c_folderPath cbm\<rparr>"

definition storeEntry ::
  "int \<Rightarrow> string \<Rightarrow> mappingEntry \<Rightarrow> chromeBookmark \<Rightarrow> ldBookmark \<Rightarrow> resolution
     \<Rightarrow> 'w run \<Rightarrow> (error + unit) \<times> 'w run" where
  "storeEntry now key entry cbm ld r s =
     (let s1 = s\<lparr>newMapping := AList.update key (mergedEntry now key entry cbm ld r)
                   (newMapping s)\<rparr>
      in if \<not> needsLdUpdate r \<and> \<not> needsChromeUpdate r then
           (Inr (), s1\<lparr>newMapping := AList.update key (keptEntry entry cbm ld) (newMapping s1)\<rparr>)
         else (Inr (), s1))"

text \<open>
  Step 3, the body of the loop over the entries of the persisted mapping. The removal
  of a browser bookmark is inside \<^verbatim>\<open>try\<close> with an empty \<^verbatim>\<open>catch\<close>: its outcome is dropped.
\<close>

definition processMapped ::
  "'w api \<Rightarrow> string \<Rightarrow> string \<Rightarrow> int \<Rightarrow> ldBookmark jsmap \<Rightarrow> chromeBookmark jsmap
     \<Rightarrow> string \<times> mappingEntry \<Rightarrow> 'w run \<Rightarrow> (error + unit) \<times> 'w run" where
  "processMapped api syncTag rootId now ldByUrl chromeByUrl ke =
     (case ke of (key, entry) \<Rightarrow>
       (case (map_of chromeByUrl key, map_of ldByUrl key) of
          (None, None) \<Rightarrow> (\<lambda>s. (Inr (), s\<lparr>removed := removed s + 1\<rparr>))
        | (None, Some ld) \<Rightarrow>
            andThen (deleteLinkdingBookmark api (ld_id ld))
              (\<lambda>u s. (Inr (), s\<lparr>removed := removed s + 1\<rparr>))
        | (Some cbm, None) \<Rightarrow>
            (\<lambda>s. case perform api (Remove (chromeId entry)) s of
                   (outcome, s') \<Rightarrow> (Inr (), s'\<lparr>removed := removed s' + 1\<rparr>))
        | (Some cbm, Some ld) \<Rightarrow>
            (let r = resolve syncTag entry cbm ld in
             andThen (updateLd api syncTag ld r) (\<lambda>u.
             andThen (updateChrome api rootId cbm r) (\<lambda>u.
             storeEntry now key entry cbm ld r)))))"

text \<open>The three loops, \<^verbatim>\<open>setMapping(newMapping)\<close> and the returned counts.\<close>

definition reconcile ::
  "'w api \<Rightarrow> string \<Rightarrow> string \<Rightarrow> int \<Rightarrow> mappingEntry jsmap \<Rightarrow> ldBookmark list
     \<Rightarrow> chromeBookmark list \<Rightarrow> 'w run \<Rightarrow> (error + syncResult) \<times> 'w run" where
  "reconcile api syncTag rootId now mapping ldBookmarks chromeBookmarks =
     (let ldByUrl = indexLd ldBookmarks;
          chromeByUrl = indexChrome chromeBookmarks
      in andThen (forEach (newInChrome api syncTag now mapping ldByUrl) chromeBookmarks) (\<lambda>u.
         andThen (forEach (newInLinkding api syncTag rootId now mapping chromeByUrl) ldBookmarks)
           (\<lambda>u.
         andThen (forEach (processMapped api syncTag rootId now ldByUrl chromeByUrl) mapping)
           (\<lambda>u s.
              (Inr \<lparr>res_added = added s, res_removed = removed s, res_updated = updated s,
                    res_total = length (newMapping s)\<rparr>,
               s\<lparr>saved := Some (newMapping s)\<rparr>)))))"

definition runTwoWaySync ::
  "'w api \<Rightarrow> settings \<Rightarrow> snapshot \<Rightarrow> int \<Rightarrow> 'w \<Rightarrow> (error + syncResult) \<times> 'w run" where
  "runTwoWaySync api cfg snap now w =
     (if \<not> twoWayEnabled cfg then (Inl NotEnabled, startRun w)
      else if s_url cfg = [] \<or> s_token cfg = [] then (Inl MissingUrlOrToken, startRun w)
      else case truthy (twoWaySyncFolderId cfg) of
        None \<Rightarrow> (Inl NoFolderSelected, startRun w)
      | Some rootId \<Rightarrow>
          if \<not> twoWayInitialSyncDone cfg then (Inl InitialSyncNotDone, startRun w)
          else if \<not> folderExists snap then (Inl FolderGone, startRun w)
          else case fetched snap of
            None \<Rightarrow> (Inl FetchFailed, startRun w)
          | Some all \<Rightarrow>
              reconcile api (twoWaySyncTag cfg) rootId now (storedMapping snap)
                (withExactTag (twoWaySyncTag cfg) all)
                (getChromeBookmarksRecursive (tree snap) []) (startRun w))"

section \<open>Initial sync (sync.js, runInitialTwoWaySync)\<close>

record initialResult =
  i_added :: nat
  i_updated :: nat
  i_downloaded :: nat
  i_total :: nat
  i_configError :: "error option"

definition linked :: "nat \<Rightarrow> chromeBookmark \<Rightarrow> string \<Rightarrow> int \<Rightarrow> mappingEntry" where
  "linked i cbm t now =
     \<lparr>linkdingId = i, chromeId = c_id cbm, title = t, url = c_url cbm,
      folderPath = c_folderPath cbm, lastSynced = now\<rparr>"

text \<open>The function given to processBatch in the mode \<^verbatim>\<open>push\<close>.\<close>

definition pushItem ::
  "'w api \<Rightarrow> string \<Rightarrow> int \<Rightarrow> ldBookmark jsmap \<Rightarrow> chromeBookmark \<Rightarrow> 'w run
     \<Rightarrow> (error + unit) \<times> 'w run" where
  "pushItem api syncTag now ldByUrl cbm =
     (let tags = buildTagsForPath syncTag (c_folderPath cbm) in
      case map_of ldByUrl (c_url cbm) of
        Some ld \<Rightarrow>
          andThen
            (if tagsDiffer ld (mergedTags ld tags) then
               updateLinkdingBookmark api (ld_id ld) (Some (ld_url ld)) (Some (ld_title ld))
                 None (Some (mergedTags ld tags))
             else ret ())
            (\<lambda>u s. (Inr (), s\<lparr>
               newMapping := AList.update (c_url cbm) (linked (ld_id ld) cbm (c_title cbm) now)
                 (newMapping s),
               updated := updated s + 1\<rparr>))
      | None \<Rightarrow>
          andThen (createLinkdingBookmark api (c_url cbm) (c_title cbm) None tags)
            (\<lambda>created s. (Inr (), s\<lparr>
               newMapping := AList.update (c_url cbm) (linked created cbm (c_title cbm) now)
                 (newMapping s),
               added := added s + 1\<rparr>)))"

text \<open>The function given to processBatch in the mode \<^verbatim>\<open>pull\<close>, and the download of merge.\<close>

definition pullItem ::
  "'w api \<Rightarrow> string \<Rightarrow> string \<Rightarrow> int \<Rightarrow> ldBookmark \<Rightarrow> 'w run
     \<Rightarrow> (error + unit) \<times> 'w run" where
  "pullItem api syncTag rootId now ld =
     (let fp = extractFolderPath syncTag (ld_tag_names ld);
          t = orElse (ld_title ld) (ld_url ld)
      in andThen (ensureFolderPath api rootId fp) (\<lambda>parentId.
         andThen (createNode api (CreateBookmark parentId t (ld_url ld)))
           (\<lambda>created s. (Inr (), s\<lparr>
              newMapping := AList.update (ld_url ld)
                \<lparr>linkdingId = ld_id ld, chromeId = created, title = t, url = ld_url ld,
                 folderPath = fp, lastSynced = now\<rparr>
                (newMapping s),
              downloaded := downloaded s + 1\<rparr>))))"

text \<open>The body of the loop over the URLs in the mode \<^verbatim>\<open>merge\<close>.\<close>

definition mergeBoth ::
  "'w api \<Rightarrow> string \<Rightarrow> int \<Rightarrow> string \<Rightarrow> ldBookmark \<Rightarrow> chromeBookmark \<Rightarrow> 'w run
     \<Rightarrow> (error + unit) \<times> 'w run" where
  "mergeBoth api syncTag now key ld cbm =
     (let ldDate = (case ld_date_modified ld of Some d \<Rightarrow> d | None \<Rightarrow> 0);
          chromeDate = (case c_dateAdded cbm of Some d \<Rightarrow> d | None \<Rightarrow> 0);
          t = (if ldDate > chromeDate then orElse (ld_title ld) (ld_url ld) else c_title cbm);
          tags = buildTagsForPath syncTag (c_folderPath cbm)
      in andThen
           (if t \<noteq> c_title cbm then perform api (UpdateTitle (c_id cbm) t) else ret ())
           (\<lambda>u. andThen
              (if tagsDiffer ld (mergedTags ld tags) then
                 updateLinkdingBookmark api (ld_id ld) (Some (ld_url ld)) (Some t) None
                   (Some (mergedTags ld tags))
               else ret ())
              (\<lambda>u s. (Inr (), s\<lparr>
                 newMapping := AList.update key
                   \<lparr>linkdingId = ld_id ld, chromeId = c_id cbm, title = t, url = key,
                    folderPath = c_folderPath cbm, lastSynced = now\<rparr>
                   (newMapping s),
                 updated := updated s + 1\<rparr>))))"

definition mergeItem ::
  "'w api \<Rightarrow> string \<Rightarrow> string \<Rightarrow> int \<Rightarrow> ldBookmark jsmap \<Rightarrow> chromeBookmark jsmap
     \<Rightarrow> string \<Rightarrow> 'w run \<Rightarrow> (error + unit) \<times> 'w run" where
  "mergeItem api syncTag rootId now ldByUrl chromeByUrl key =
     (case (map_of ldByUrl key, map_of chromeByUrl key) of
        (Some ld, Some cbm) \<Rightarrow> mergeBoth api syncTag now key ld cbm
      | (None, Some cbm) \<Rightarrow>
          andThen
            (createLinkdingBookmark api (c_url cbm) (c_title cbm) None
               (buildTagsForPath syncTag (c_folderPath cbm)))
            (\<lambda>created s. (Inr (), s\<lparr>
               newMapping := AList.update key
                 \<lparr>linkdingId = created, chromeId = c_id cbm, title = c_title cbm, url = key,
                  folderPath = c_folderPath cbm, lastSynced = now\<rparr>
                 (newMapping s),
               added := added s + 1\<rparr>))
      | (Some ld, None) \<Rightarrow>
          (let fp = extractFolderPath syncTag (ld_tag_names ld) in
           andThen (ensureFolderPath api rootId fp) (\<lambda>parentId.
           andThen (createNode api
                      (CreateBookmark parentId (orElse (ld_title ld) (ld_url ld)) (ld_url ld)))
             (\<lambda>created s. (Inr (), s\<lparr>
                newMapping := AList.update key
                  \<lparr>linkdingId = ld_id ld, chromeId = created,
                   title = orElse (ld_title ld) (ld_url ld), url = key,
                   folderPath = fp, lastSynced = now\<rparr>
                  (newMapping s),
                downloaded := downloaded s + 1\<rparr>))))
      | (None, None) \<Rightarrow> ret ())"

text \<open>The three strategies. Only the mode \<^verbatim>\<open>merge\<close> loops without processBatch.\<close>

definition pushStrategy ::
  "'w api \<Rightarrow> string \<Rightarrow> int \<Rightarrow> ldBookmark list \<Rightarrow> chromeBookmark list \<Rightarrow> 'w run
     \<Rightarrow> (error + unit) \<times> 'w run" where
  "pushStrategy api syncTag now ldBookmarks chromeBookmarks =
     processBatch (pushItem api syncTag now (indexLd ldBookmarks)) chromeBookmarks"

definition pullStrategy ::
  "'w api \<Rightarrow> string \<Rightarrow> string \<Rightarrow> int \<Rightarrow> ldBookmark list \<Rightarrow> 'w run
     \<Rightarrow> (error + unit) \<times> 'w run" where
  "pullStrategy api syncTag rootId now ldBookmarks s =
     (case fetchConfig api s of (config, s1) \<Rightarrow>
        (let sorted = (case config of
                         Some order \<Rightarrow> sortByOrder order ld_url ldBookmarks
                       | None \<Rightarrow> ldBookmarks)
         in andThen (removeChildrenOf api rootId)
              (\<lambda>u. processBatch (pullItem api syncTag rootId now) sorted) s1))"

definition mergeStrategy ::
  "'w api \<Rightarrow> string \<Rightarrow> string \<Rightarrow> int \<Rightarrow> ldBookmark list \<Rightarrow> chromeBookmark list \<Rightarrow> 'w run
     \<Rightarrow> (error + unit) \<times> 'w run" where
  "mergeStrategy api syncTag rootId now ldBookmarks chromeBookmarks s =
     (let ldByUrl = indexLd ldBookmarks;
          chromeByUrl = indexChrome chromeBookmarks;
          urls = uniqueInOrder (map fst ldByUrl @ map fst chromeByUrl)
      in case fetchConfig api s of (config, s1) \<Rightarrow>
           (let existingOrder = (case config of Some order \<Rightarrow> order | None \<Rightarrow> []);
                sortedUrls = (if length existingOrder > 0
                              then sortByOrder existingOrder (\<lambda>u. u) urls else urls)
            in forEach (mergeItem api syncTag rootId now ldByUrl chromeByUrl) sortedUrls s1))"

definition strategy ::
  "'w api \<Rightarrow> string \<Rightarrow> string \<Rightarrow> string \<Rightarrow> int \<Rightarrow> ldBookmark list \<Rightarrow> chromeBookmark list
     \<Rightarrow> 'w run \<Rightarrow> (error + unit) \<times> 'w run" where
  "strategy api mode syncTag rootId now ldBookmarks chromeBookmarks =
     (if mode = ''push'' then pushStrategy api syncTag now ldBookmarks chromeBookmarks
      else if mode = ''pull'' then pullStrategy api syncTag rootId now ldBookmarks
      else if mode = ''merge'' then
        mergeStrategy api syncTag rootId now ldBookmarks chromeBookmarks
      else ret ())"

text \<open>
  saveConfig and the block that creates or updates the config bookmark after the mapping
  is written. The block reads the tree again (the nested getChildren calls of the walk
  are one call here, whose reply carries the subtrees). A failed update of the config
  bookmark is only printed; a failed creation is rethrown and becomes \<^verbatim>\<open>configError\<close>.
\<close>

definition CONFIG_TITLE :: string where
  "CONFIG_TITLE = ''Linkding Sync Config''"

definition CONFIG_URL :: string where
  "CONFIG_URL = ''http://example.com/?linkding-sync-config''"

definition saveConfig ::
  "'w api \<Rightarrow> string list \<Rightarrow> nat option \<Rightarrow> 'w run \<Rightarrow> (error + unit) \<times> 'w run" where
  "saveConfig api order existingId s =
     (case existingId of
        Some i \<Rightarrow>
          (case updateLinkdingBookmark api i None None (Some order) None s of
             (Inl e, s') \<Rightarrow> (Inr (), s'\<lparr>console := console s' @ [e]\<rparr>)
           | (Inr u, s') \<Rightarrow> (Inr (), s'))
      | None \<Rightarrow>
          (case createLinkdingBookmark api CONFIG_URL CONFIG_TITLE (Some order)
                  [''bookmark-sync-config''] s of
             (Inl e, s') \<Rightarrow> (Inl e, s'\<lparr>console := console s' @ [e]\<rparr>)
           | (Inr i, s') \<Rightarrow> (Inr (), s')))"

definition initialConfig :: "'w api \<Rightarrow> string \<Rightarrow> 'w run \<Rightarrow> error option \<times> 'w run" where
  "initialConfig api rootId s =
     (case getChildren api rootId s of
        (Inl e, s1) \<Rightarrow> (Some e, s1\<lparr>console := console s1 @ [e]\<rparr>)
      | (Inr nodes, s1) \<Rightarrow>
          (let newOrder = map c_url (getChromeBookmarksRecursive nodes []) in
           case invoke api LdSearchConfig s1 of
             (Thrown, s2) \<Rightarrow>
               (Some (CallFailed LdSearchConfig),
                s2\<lparr>console := console s2 @ [CallFailed LdSearchConfig]\<rparr>)
           | (r, s2) \<Rightarrow>
               (case saveConfig api newOrder
                       (case r of SearchHit i order \<Rightarrow> Some i | other \<Rightarrow> None)
                       (if r = HttpError
                        then s2\<lparr>console := console s2 @ [CallFailed LdSearchConfig]\<rparr>
                        else s2) of
                  (Inl e, s3) \<Rightarrow> (Some e, s3\<lparr>console := console s3 @ [e]\<rparr>)
                | (Inr u, s3) \<Rightarrow> (None, s3))))"

definition runInitialTwoWaySync ::
  "'w api \<Rightarrow> settings \<Rightarrow> snapshot \<Rightarrow> string \<Rightarrow> int \<Rightarrow> 'w
     \<Rightarrow> (error + initialResult) \<times> 'w run" where
  "runInitialTwoWaySync api cfg snap mode now w =
     (if s_url cfg = [] \<or> s_token cfg = [] then (Inl MissingUrlOrToken, startRun w)
      else case truthy (twoWaySyncFolderId cfg) of
        None \<Rightarrow> (Inl NoFolderSelected, startRun w)
      | Some rootId \<Rightarrow>
          if \<not> folderExists snap then (Inl FolderGone, startRun w)
          else case fetched snap of
            None \<Rightarrow> (Inl FetchFailed, startRun w)
          | Some all \<Rightarrow>
              (case strategy api mode (twoWaySyncTag cfg) rootId now
                      (withExactTag (twoWaySyncTag cfg) all)
                      (getChromeBookmarksRecursive (tree snap) []) (startRun w) of
                 (Inl e, s1) \<Rightarrow> (Inl e, s1)
               | (Inr u, s1) \<Rightarrow>
                   (case initialConfig api rootId (s1\<lparr>saved := Some (newMapping s1)\<rparr>) of
                      (configError, s2) \<Rightarrow>
                        (Inr \<lparr>i_added = added s2, i_updated = updated s2,
                              i_downloaded = downloaded s2,
                              i_total = length (newMapping s2),
                              i_configError = configError\<rparr>, s2))))"

section \<open>Stores for the examples\<close>

text \<open>
  A store that accepts every call: its world counts the calls and names what it creates
  after the count; folders start empty and there is no config bookmark. The second store
  rejects the calls of a given list and accepts the others.
\<close>

definition newId :: "nat \<Rightarrow> string" where
  "newId n = CHR ''n'' # replicate n (CHR ''i'')"

fun accepting :: "nat api" where
  "accepting (LdPost u t d tags) n = (LdItem n, Suc n)"
| "accepting (CreateFolder parentId t) n = (NodeCreated (newId n), Suc n)"
| "accepting (CreateBookmark parentId t u) n = (NodeCreated (newId n), Suc n)"
| "accepting (GetChildren parentId) n = (Children [], Suc n)"
| "accepting LdSearchConfig n = (SearchMiss, Suc n)"
| "accepting c n = (Done, Suc n)"

definition rejecting :: "call list \<Rightarrow> nat api" where
  "rejecting bad c n = (if c \<in> set bad then (Thrown, Suc n) else accepting c n)"

definition exampleSettings :: settings where
  "exampleSettings = \<lparr>s_url = ''https://ld.test'', s_token = ''secret'', twoWayEnabled = True,
     twoWaySyncTag = ''sync'', twoWaySyncFolderId = Some ''1'', twoWayInitialSyncDone = True\<rparr>"

section \<open>Example states\<close>

text \<open>
  One URL, mapped at the last sync as title \<open>A\<close> in the folder \<open>Old\<close> or \<open>Work\<close>. In the
  moved snapshot the browser has the bookmark in \<open>Work\<close> and Linkding has the path tag of
  \<open>Read\<close>; in the quiet snapshot both sides agree with the entry; in the renamed snapshot
  the browser's title is the given one; in the stale snapshot Linkding has lost the
  bookmark and the browser holds the URL under a new id. The last snapshots have no
  mapping yet: two bookmarks only in the browser, one URL on both sides with
  different titles, and the moved snapshot without its mapping.
\<close>

definition exampleUrl :: string where
  "exampleUrl = ''https://a.test''"

definition movedSnapshot :: snapshot where
  "movedSnapshot = \<lparr>folderExists = True,
     fetched = Some [\<lparr>ld_id = 7, ld_url = exampleUrl, ld_title = ''A'',
                      ld_tag_names = [''sync'', ''sync/Read'', ''keep''], ld_date_modified = Some 60\<rparr>],
     tree = [Folder ''20'' ''Work'' [Bookmark ''10'' exampleUrl ''A'' (Some 40)]],
     storedMapping = [(exampleUrl, \<lparr>linkdingId = 7, chromeId = ''10'', title = ''A'',
        url = exampleUrl, folderPath = ''Old'', lastSynced = 50\<rparr>)]\<rparr>"

definition movedRemote :: ldBookmark where
  "movedRemote = \<lparr>ld_id = 7, ld_url = exampleUrl, ld_title = ''A'',
     ld_tag_names = [''sync'', ''sync/Read'', ''keep''], ld_date_modified = Some 60\<rparr>"

definition movedLocal :: chromeBookmark where
  "movedLocal = \<lparr>c_id = ''10'', c_url = exampleUrl, c_title = ''A'', c_dateAdded = Some 40,
     c_folderPath = ''Work''\<rparr>"

definition rememberedEntry :: mappingEntry where
  "rememberedEntry = \<lparr>linkdingId = 7, chromeId = ''10'', title = ''A'',
        url = exampleUrl, folderPath = ''Old'', lastSynced = 50\<rparr>"

definition quietRemote :: ldBookmark where
  "quietRemote = \<lparr>ld_id = 7, ld_url = exampleUrl, ld_title = ''A'',
     ld_tag_names = [''sync'', ''sync/Work'', ''keep''], ld_date_modified = Some 60\<rparr>"

definition quietEntry :: mappingEntry where
  "quietEntry = \<lparr>linkdingId = 7, chromeId = ''10'', title = ''A'',
        url = exampleUrl, folderPath = ''Work'', lastSynced = 50\<rparr>"

definition quietSnapshot :: snapshot where
  "quietSnapshot = \<lparr>folderExists = True, fetched = Some [quietRemote],
     tree = [Folder ''20'' ''Work'' [Bookmark ''10'' exampleUrl ''A'' (Some 40)]],
     storedMapping = [(exampleUrl, quietEntry)]\<rparr>"

definition renamedLocal :: "string \<Rightarrow> chromeBookmark" where
  "renamedLocal t = \<lparr>c_id = ''10'', c_url = exampleUrl, c_title = t, c_dateAdded = Some 40,
     c_folderPath = ''Work''\<rparr>"

definition renamedSnapshot :: "string \<Rightarrow> snapshot" where
  "renamedSnapshot t = \<lparr>folderExists = True, fetched = Some [quietRemote],
     tree = [Folder ''20'' ''Work'' [Bookmark ''10'' exampleUrl t (Some 40)]],
     storedMapping = [(exampleUrl, quietEntry)]\<rparr>"

definition staleIdSnapshot :: snapshot where
  "staleIdSnapshot = \<lparr>folderExists = True, fetched = Some [],
     tree = [Folder ''20'' ''Work'' [Bookmark ''11'' exampleUrl ''A'' (Some 70)]],
     storedMapping = [(exampleUrl, quietEntry)]\<rparr>"

definition otherUrl :: string where
  "otherUrl = ''https://b.test''"

definition twoLocalSnapshot :: snapshot where
  "twoLocalSnapshot = \<lparr>folderExists = True, fetched = Some [],
     tree = [Bookmark ''10'' exampleUrl ''A'' (Some 40), Bookmark ''11'' otherUrl ''B'' (Some 41)],
     storedMapping = []\<rparr>"

definition firstPost :: call where
  "firstPost = LdPost exampleUrl ''A'' None [''sync'']"

definition linkSnapshot :: snapshot where
  "linkSnapshot = \<lparr>folderExists = True,
     fetched = Some [\<lparr>ld_id = 7, ld_url = exampleUrl, ld_title = ''B'',
                      ld_tag_names = [''sync''], ld_date_modified = Some 50\<rparr>],
     tree = [Bookmark ''10'' exampleUrl ''A'' (Some 40)],
     storedMapping = []\<rparr>"

definition unlinkedSnapshot :: snapshot where
  "unlinkedSnapshot = movedSnapshot\<lparr>storedMapping := []\<rparr>"

definition linkedMapping :: "mappingEntry jsmap" where
  "linkedMapping = [(exampleUrl,
      \<lparr>linkdingId = 7, chromeId = ''10'', title = ''A'', url = exampleUrl,
       folderPath = [], lastSynced = 100\<rparr>)]"

section \<open>Notions for the statements about a run\<close>

text \<open>
  The items a run works on, and the lookups in the two URL indexes it builds from them
  (\<^verbatim>\<open>chromeByUrl.get\<close> and \<^verbatim>\<open>ldByUrl.get\<close>).
\<close>

definition localItems :: "snapshot \<Rightarrow> chromeBookmark list" where
  "localItems snap = getChromeBookmarksRecursive (tree snap) []"

definition remoteItems :: "settings \<Rightarrow> snapshot \<Rightarrow> ldBookmark list" where
  "remoteItems cfg snap =
     (case fetched snap of None \<Rightarrow> [] | Some all \<Rightarrow> withExactTag (twoWaySyncTag cfg) all)"

definition localAt :: "snapshot \<Rightarrow> string \<Rightarrow> chromeBookmark option" where
  "localAt snap = map_of (indexChrome (localItems snap))"

definition remoteAt :: "settings \<Rightarrow> snapshot \<Rightarrow> string \<Rightarrow> ldBookmark option" where
  "remoteAt cfg snap = map_of (indexLd (remoteItems cfg snap))"

text \<open>
  The entry that step 3 leaves in the new mapping for a key present on both sides: the
  second assignment to \<^verbatim>\<open>newMapping[url]\<close> replaces the first when nothing changed.
\<close>

definition storedEntry ::
  "int \<Rightarrow> string \<Rightarrow> mappingEntry \<Rightarrow> chromeBookmark \<Rightarrow> ldBookmark \<Rightarrow> resolution
     \<Rightarrow> mappingEntry" where
  "storedEntry now key entry cbm ld r =
     (if \<not> needsLdUpdate r \<and> \<not> needsChromeUpdate r then keptEntry entry cbm ld
      else mergedEntry now key entry cbm ld r)"

text \<open>The calls of ensureFolderPath, and the calls that create an item for a URL.\<close>

fun isFolderCall :: "call \<Rightarrow> bool" where
  "isFolderCall (GetChildren p) = True"
| "isFolderCall (CreateFolder p n) = True"
| "isFolderCall c = False"

fun createsUrl :: "string \<Rightarrow> call \<Rightarrow> bool" where
  "createsUrl u (LdPost u' t d tags) = (u' = u)"
| "createsUrl u (CreateBookmark p t u') = (u' = u)"
| "createsUrl u c = False"

text \<open>
  A relation between the state before and after a piece of a run: the log has grown by
  calls that satisfy \<open>P\<close>, and the mapping under construction has changed by assignments
  of entries that satisfy \<open>Q\<close>. A function keeps a relation when the relation holds
  between the state it is given and the state it leaves, whatever it returns or throws.
\<close>

definition writeAll ::
  "mappingEntry jsmap \<Rightarrow> (string \<times> mappingEntry) list \<Rightarrow> mappingEntry jsmap" where
  "writeAll m kvs = foldl (\<lambda>m kv. AList.update (fst kv) (snd kv) m) m kvs"

definition effect ::
  "(call \<Rightarrow> bool) \<Rightarrow> (string \<Rightarrow> mappingEntry \<Rightarrow> bool) \<Rightarrow> 'w run \<Rightarrow> 'w run \<Rightarrow> bool" where
  "effect P Q s s' =
     ((\<exists>cs. calls s' = calls s @ cs \<and> list_all P cs)
      \<and> (\<exists>kvs. newMapping s' = writeAll (newMapping s) kvs
                \<and> list_all (\<lambda>kv. Q (fst kv) (snd kv)) kvs))"

definition keeps :: "('s \<Rightarrow> 's \<Rightarrow> bool) \<Rightarrow> ('s \<Rightarrow> 'r \<times> 's) \<Rightarrow> bool" where
  "keeps R f = (\<forall>s. R s (snd (f s)))"

text \<open>
  Predicates on the calls of a run, for the statements about tags. A PUT of the
  reconciler targets a fetched bookmark, names no description, and carries either the
  tags of the corrective update for some path or the tags of the linking update for a
  browser bookmark with the same URL. A PUT of the initial sync is either the update of
  the config bookmark, which names the description alone, or such a linking update.
\<close>

definition reconcilerPut :: "string \<Rightarrow> ldBookmark list \<Rightarrow> chromeBookmark list \<Rightarrow> call \<Rightarrow> bool" where
  "reconcilerPut T lds cbs c =
     (case c of
        LdPut i body \<Rightarrow>
          (\<exists>ld\<in>set lds. ld_id ld = i \<and> b_description body = None
             \<and> ((\<exists>fp. b_tag_names body = Some (newTags T fp ld))
                \<or> (\<exists>cbm\<in>set cbs. c_url cbm = ld_url ld
                      \<and> b_tag_names body
                          = Some (mergedTags ld (buildTagsForPath T (c_folderPath cbm))))))
      | other \<Rightarrow> True)"

definition initialPut :: "string \<Rightarrow> ldBookmark list \<Rightarrow> chromeBookmark list \<Rightarrow> call \<Rightarrow> bool" where
  "initialPut T lds cbs c =
     (case c of
        LdPut i body \<Rightarrow>
          (\<exists>order. body = \<lparr>b_url = None, b_title = None, b_description = Some order,
                            b_tag_names = None\<rparr>)
          \<or> (\<exists>ld\<in>set lds. ld_id ld = i \<and> b_description body = None
                \<and> (\<exists>cbm\<in>set cbs. c_url cbm = ld_url ld
                      \<and> b_tag_names body
                          = Some (mergedTags ld (buildTagsForPath T (c_folderPath cbm)))))
      | other \<Rightarrow> True)"

text \<open>
  The updates sent for the moved snapshot: by the reconciler, and by the merge strategy
  when it links the two bookmarks.
\<close>

definition correctivePut :: putBody where
  "correctivePut = \<lparr>b_url = Some exampleUrl, b_title = Some ''A'', b_description = None,
     b_tag_names = Some [''sync'', ''sync/Work'', ''keep'']\<rparr>"

definition linkingPut :: putBody where
  "linkingPut = \<lparr>b_url = Some exampleUrl, b_title = Some ''A'', b_description = None,
     b_tag_names = Some [''sync'', ''sync/Read'', ''keep'', ''sync/Work'']\<rparr>"

text \<open>The creation of the extension's own config bookmark by saveConfig.\<close>

fun isConfigPost :: "call \<Rightarrow> bool" where
  "isConfigPost (LdPost u t d tags) =
     (u = CONFIG_URL \<and> t = CONFIG_TITLE \<and> d \<noteq> None \<and> tags = [''bookmark-sync-config''])"
| "isConfigPost c = False"

text \<open>The two bookmarks of the snapshot without a mapping.\<close>

definition linkRemote :: ldBookmark where
  "linkRemote = \<lparr>ld_id = 7, ld_url = exampleUrl, ld_title = ''B'',
                      ld_tag_names = [''sync''], ld_date_modified = Some 50\<rparr>"

definition linkLocal :: chromeBookmark where
  "linkLocal = \<lparr>c_id = ''10'', c_url = exampleUrl, c_title = ''A'', c_dateAdded = Some 40,
     c_folderPath = []\<rparr>"

text \<open>
  A state in which a run has nothing to do: the settings and the reads let the run
  start, every item on either side is mapped, and every mapped key is present on both
  sides with the remembered title and folder path. The mapping such a run writes is the
  old one with the ids and the folder path of each entry refreshed.
\<close>

definition ready :: "settings \<Rightarrow> snapshot \<Rightarrow> bool" where
  "ready cfg snap =
     (twoWayEnabled cfg \<and> s_url cfg \<noteq> [] \<and> s_token cfg \<noteq> []
      \<and> truthy (twoWaySyncFolderId cfg) \<noteq> None \<and> twoWayInitialSyncDone cfg
      \<and> folderExists snap \<and> fetched snap \<noteq> None)"

definition agrees :: "string \<Rightarrow> mappingEntry \<Rightarrow> chromeBookmark \<Rightarrow> ldBookmark \<Rightarrow> bool" where
  "agrees syncTag entry cbm ld =
     (c_title cbm = title entry \<and> orElse (ld_title ld) (ld_url ld) = title entry
      \<and> c_folderPath cbm = folderPath entry
      \<and> extractFolderPath syncTag (ld_tag_names ld) = folderPath entry)"

definition agreesAt :: "settings \<Rightarrow> snapshot \<Rightarrow> string \<times> mappingEntry \<Rightarrow> bool" where
  "agreesAt cfg snap ke =
     (case (localAt snap (fst ke), remoteAt cfg snap (fst ke)) of
        (Some cbm, Some ld) \<Rightarrow> agrees (twoWaySyncTag cfg) (snd ke) cbm ld
      | other \<Rightarrow> False)"

definition settled :: "settings \<Rightarrow> snapshot \<Rightarrow> bool" where
  "settled cfg snap =
     (distinct (map fst (storedMapping snap))
      \<and> list_all (\<lambda>cbm. map_of (storedMapping snap) (c_url cbm) \<noteq> None) (localItems snap)
      \<and> list_all (\<lambda>ld. map_of (storedMapping snap) (ld_url ld) \<noteq> None) (remoteItems cfg snap)
      \<and> list_all (agreesAt cfg snap) (storedMapping snap))"

definition refresh :: "settings \<Rightarrow> snapshot \<Rightarrow> string \<times> mappingEntry \<Rightarrow> string \<times> mappingEntry" where
  "refresh cfg snap ke =
     (case (localAt snap (fst ke), remoteAt cfg snap (fst ke)) of
        (Some cbm, Some ld) \<Rightarrow> (fst ke, keptEntry (snd ke) cbm ld)
      | other \<Rightarrow> ke)"

section \<open>The two stores as a world\<close>

text \<open>
  The statements about what a run leaves behind need stores that answer the calls. The
  world below holds the Linkding bookmarks (each with the description the API keeps
  beside it), the children of the sync folder as a tree, a counter for the ids the two
  stores hand out, and the stores' clock. The sync folder itself is not part of the tree:
  it is the parameter \<open>root\<close> of the server.

  The tree is the one \<^const>\<open>getChromeBookmarksRecursive\<close> walks. The ids of its nodes, the
  ids of its folders, its bookmarks as pairs of id and URL, and each folder with the
  prefix under which the walk lists the bookmarks of that folder:
\<close>

record stores =
  linkding :: "(ldBookmark \<times> string list option) list"
  browser :: "node list"
  issued :: nat
  clock :: int

fun nodeIds :: "node list \<Rightarrow> string list" where
  "nodeIds [] = []"
| "nodeIds (Bookmark i u t d # rest) = i # nodeIds rest"
| "nodeIds (Folder i t kids # rest) = i # nodeIds kids @ nodeIds rest"

fun folderIds :: "node list \<Rightarrow> string list" where
  "folderIds [] = []"
| "folderIds (Bookmark i u t d # rest) = folderIds rest"
| "folderIds (Folder i t kids # rest) = i # folderIds kids @ folderIds rest"

fun marks :: "node list \<Rightarrow> (string \<times> string) list" where
  "marks [] = []"
| "marks (Bookmark i u t d # rest) = (i, u) # marks rest"
| "marks (Folder i t kids # rest) = marks kids @ marks rest"

fun folderPaths :: "node list \<Rightarrow> string \<Rightarrow> (string \<times> string) list" where
  "folderPaths [] pfx = []"
| "folderPaths (Bookmark i u t d # rest) pfx = folderPaths rest pfx"
| "folderPaths (Folder i t kids # rest) pfx =
     (i, if pfx = [] then t else pfx @ ''/'' @ t)
       # folderPaths kids (if pfx = [] then t else pfx @ ''/'' @ t) @ folderPaths rest pfx"

text \<open>
  The prefix of a subfolder (\<^verbatim>\<open>prefix ? `${prefix}/${child.title}` : child.title\<close>), and
  the folder path that the walk gives the bookmarks of a folder: the empty path for the
  sync folder itself.
\<close>

definition ext :: "string \<Rightarrow> string \<Rightarrow> string" where
  "ext pfx t = (if pfx = [] then t else pfx @ ''/'' @ t)"

definition folderPathOf :: "string \<Rightarrow> node list \<Rightarrow> string \<Rightarrow> string option" where
  "folderPathOf root forest p = (if p = root then Some [] else map_of (folderPaths forest []) p)"

text \<open>
  The operations of the browser's bookmark API on the tree. Ids are unique in the
  browser's tree, so each operation addresses one node: the children of a folder, the
  node of an id, a node appended to the children of a folder (\<^verbatim>\<open>create\<close> and \<^verbatim>\<open>move\<close>
  without an index append), a node removed with its subtree, a node renamed.
\<close>

fun kidsOf :: "string \<Rightarrow> node list \<Rightarrow> node list option" where
  "kidsOf p [] = None"
| "kidsOf p (Bookmark i u t d # rest) = kidsOf p rest"
| "kidsOf p (Folder i t kids # rest) =
     (if i = p then Some kids
      else case kidsOf p kids of Some ks \<Rightarrow> Some ks | None \<Rightarrow> kidsOf p rest)"

definition childrenOf :: "string \<Rightarrow> node list \<Rightarrow> string \<Rightarrow> node list option" where
  "childrenOf root forest p = (if p = root then Some forest else kidsOf p forest)"

fun findNode :: "string \<Rightarrow> node list \<Rightarrow> node option" where
  "findNode i [] = None"
| "findNode i (Bookmark j u t d # rest) =
     (if j = i then Some (Bookmark j u t d) else findNode i rest)"
| "findNode i (Folder j t kids # rest) =
     (if j = i then Some (Folder j t kids)
      else case findNode i kids of Some n \<Rightarrow> Some n | None \<Rightarrow> findNode i rest)"

fun addChild :: "string \<Rightarrow> node \<Rightarrow> node list \<Rightarrow> node list" where
  "addChild p n [] = []"
| "addChild p n (Bookmark i u t d # rest) = Bookmark i u t d # addChild p n rest"
| "addChild p n (Folder i t kids # rest) =
     Folder i t (if i = p then addChild p n kids @ [n] else addChild p n kids)
       # addChild p n rest"

definition insertUnder :: "string \<Rightarrow> string \<Rightarrow> node \<Rightarrow> node list \<Rightarrow> node list" where
  "insertUnder root p n forest = (if p = root then forest @ [n] else addChild p n forest)"

fun dropNode :: "string \<Rightarrow> node list \<Rightarrow> node list" where
  "dropNode i [] = []"
| "dropNode i (Bookmark j u t d # rest) =
     (if j = i then dropNode i rest else Bookmark j u t d # dropNode i rest)"
| "dropNode i (Folder j t kids # rest) =
     (if j = i then dropNode i rest else Folder j t (dropNode i kids) # dropNode i rest)"

fun retitle :: "string \<Rightarrow> string \<Rightarrow> node list \<Rightarrow> node list" where
  "retitle i t' [] = []"
| "retitle i t' (Bookmark j u t d # rest) =
     Bookmark j u (if j = i then t' else t) d # retitle i t' rest"
| "retitle i t' (Folder j t kids # rest) =
     Folder j (if j = i then t' else t) (retitle i t' kids) # retitle i t' rest"

text \<open>
  An update of a Linkding bookmark replaces the fields the request names and keeps the
  others (the remote store's \<^verbatim>\<open>update(id, {url?, title?, tags?})\<close>); this is what the sync
  code relies on when saveConfig sends the description alone and later finds the config
  bookmark by its title again. The modification time becomes the clock of the store.
\<close>

definition applyPut ::
  "int \<Rightarrow> putBody \<Rightarrow> ldBookmark \<times> string list option \<Rightarrow> ldBookmark \<times> string list option" where
  "applyPut t body item =
     ((fst item)\<lparr>ld_url := (case b_url body of Some u \<Rightarrow> u | None \<Rightarrow> ld_url (fst item)),
        ld_title := (case b_title body of Some x \<Rightarrow> x | None \<Rightarrow> ld_title (fst item)),
        ld_tag_names := (case b_tag_names body of Some ts \<Rightarrow> ts | None \<Rightarrow> ld_tag_names (fst item)),
        ld_date_modified := Some t\<rparr>,
      case b_description body of Some d \<Rightarrow> Some d | None \<Rightarrow> snd item)"

text \<open>
  The answers of the two stores. A creation takes the next id; an update of a missing
  Linkding bookmark is answered 404, a deletion of a missing one counts as done (the 404
  that deleteLinkdingBookmark accepts); the browser rejects a call on a missing node,
  a move into the moved subtree, and the removal of a folder that is not empty by
  \<^verbatim>\<open>remove\<close>. The search for the config bookmark answers with the first bookmark that
  has the config title.
\<close>

fun server :: "string \<Rightarrow> stores api" where
  "server root (LdPost u t d tags) w =
     (LdItem (issued w),
      w\<lparr>linkding := linkding w @
           [(\<lparr>ld_id = issued w, ld_url = u, ld_title = t, ld_tag_names = tags,
              ld_date_modified = Some (clock w)\<rparr>, d)],
        issued := Suc (issued w)\<rparr>)"
| "server root (LdPut i body) w =
     (if i \<in> set (map (\<lambda>item. ld_id (fst item)) (linkding w)) then
        (Done, w\<lparr>linkding := map (\<lambda>item. if ld_id (fst item) = i
                                          then applyPut (clock w) body item else item)
                               (linkding w)\<rparr>)
      else (HttpError, w))"
| "server root (LdDelete i) w =
     (Done, w\<lparr>linkding := filter (\<lambda>item. ld_id (fst item) \<noteq> i) (linkding w)\<rparr>)"
| "server root LdSearchConfig w =
     (case find (\<lambda>item. ld_title (fst item) = CONFIG_TITLE) (linkding w) of
        Some item \<Rightarrow> (SearchHit (ld_id (fst item)) (snd item), w)
      | None \<Rightarrow> (SearchMiss, w))"
| "server root (GetChildren p) w =
     (case childrenOf root (browser w) p of
        Some ks \<Rightarrow> (Children ks, w)
      | None \<Rightarrow> (Thrown, w))"
| "server root (CreateFolder p t) w =
     (if childrenOf root (browser w) p = None then (Thrown, w)
      else (NodeCreated (newId (issued w)),
            w\<lparr>browser := insertUnder root p (Folder (newId (issued w)) t []) (browser w),
              issued := Suc (issued w)\<rparr>))"
| "server root (CreateBookmark p t u) w =
     (if childrenOf root (browser w) p = None then (Thrown, w)
      else (NodeCreated (newId (issued w)),
            w\<lparr>browser := insertUnder root p (Bookmark (newId (issued w)) u t (Some (clock w)))
                            (browser w),
              issued := Suc (issued w)\<rparr>))"
| "server root (UpdateTitle i t) w =
     (if findNode i (browser w) = None then (Thrown, w)
      else (Done, w\<lparr>browser := retitle i t (browser w)\<rparr>))"
| "server root (Move i p) w =
     (case findNode i (browser w) of
        None \<Rightarrow> (Thrown, w)
      | Some n \<Rightarrow>
          if childrenOf root (dropNode i (browser w)) p = None then (Thrown, w)
          else (Done, w\<lparr>browser := insertUnder root p n (dropNode i (browser w))\<rparr>))"
| "server root (Remove i) w =
     (case findNode i (browser w) of
        Some (Bookmark j u t d) \<Rightarrow> (Done, w\<lparr>browser := dropNode i (browser w)\<rparr>)
      | Some (Folder j t []) \<Rightarrow> (Done, w\<lparr>browser := dropNode i (browser w)\<rparr>)
      | other \<Rightarrow> (Thrown, w))"
| "server root (RemoveTree i) w =
     (case findNode i (browser w) of
        Some (Folder j t kids) \<Rightarrow> (Done, w\<lparr>browser := dropNode i (browser w)\<rparr>)
      | other \<Rightarrow> (Thrown, w))"

text \<open>
  The world after a list of calls, whatever the stores; what a run reads from the
  stores before its first write, with a persisted mapping; and the two lists of items a
  run would work on.
\<close>

definition after :: "'w api \<Rightarrow> call list \<Rightarrow> 'w \<Rightarrow> 'w" where
  "after api cs w = foldl (\<lambda>w c. snd (api c w)) w cs"

definition reading :: "stores \<Rightarrow> mappingEntry jsmap \<Rightarrow> snapshot" where
  "reading w m = \<lparr>folderExists = True, fetched = Some (map fst (linkding w)),
     tree = browser w, storedMapping = m\<rparr>"

definition locals :: "stores \<Rightarrow> chromeBookmark list" where
  "locals w = getChromeBookmarksRecursive (browser w) []"

definition remotes :: "string \<Rightarrow> stores \<Rightarrow> ldBookmark list" where
  "remotes T w = withExactTag T (map fst (linkding w))"

text \<open>
  The stores are well formed when ids are unique: no two nodes of the tree share an id,
  none has the id of the sync folder, no two Linkding bookmarks share an id, and no id
  in use is one the counter has yet to hand out (a browser id is older than the counter
  when it is not the name of a count from the counter on).
\<close>

definition olderThan :: "nat \<Rightarrow> string \<Rightarrow> bool" where
  "olderThan n s =
     (case s of [] \<Rightarrow> True
      | c # cs \<Rightarrow> \<not> (c = CHR ''n'' \<and> list_all (\<lambda>x. x = CHR ''i'') cs \<and> n \<le> length cs))"

definition wellFormed :: "string \<Rightarrow> stores \<Rightarrow> bool" where
  "wellFormed root w =
     (distinct (root # nodeIds (browser w))
      \<and> list_all (olderThan (issued w)) (root # nodeIds (browser w))
      \<and> distinct (map (\<lambda>item. ld_id (fst item)) (linkding w))
      \<and> list_all (\<lambda>item. ld_id (fst item) < issued w) (linkding w))"

text \<open>
  An id that names a bookmark with a given URL, or no node at all, and never a folder:
  what stays true of the id of a browser bookmark through every call. And the relation
  between two states of a run that says the world of the second is the world of the first
  after the calls logged in between.
\<close>

definition staysBookmark :: "string \<Rightarrow> string \<Rightarrow> stores \<Rightarrow> bool" where
  "staysBookmark i u w =
     (olderThan (issued w) i \<and> i \<notin> set (folderIds (browser w))
      \<and> list_all (\<lambda>iu. fst iu = i \<longrightarrow> snd iu = u) (marks (browser w)))"

definition logged :: "'w api \<Rightarrow> 'w run \<Rightarrow> 'w run \<Rightarrow> bool" where
  "logged api s s' = (\<exists>cs. calls s' = calls s @ cs \<and> world s' = after api cs (world s))"

text \<open>
  Stores for the examples: the given Linkding bookmarks without descriptions, the given
  tree, ids from 8 on. In the first example the Linkding bookmark of the quiet
  snapshot has been moved to the path \<open>/Read\<close> (the tag \<open>sync//Read\<close>); in the second it
  has been moved to \<open>Read\<close>; in the third the browser's title has been cleared.
\<close>

definition storesOf :: "ldBookmark list \<Rightarrow> node list \<Rightarrow> stores" where
  "storesOf lds nodes = \<lparr>linkding = map (\<lambda>ld. (ld, None)) lds, browser = nodes,
     issued = 8, clock = 90\<rparr>"

definition slashStores :: stores where
  "slashStores = storesOf [quietRemote\<lparr>ld_tag_names := [''sync'', ''sync//Read'', ''keep'']\<rparr>]
     [Folder ''20'' ''Work'' [Bookmark ''10'' exampleUrl ''A'' (Some 40)]]"

definition readStores :: stores where
  "readStores = storesOf [quietRemote\<lparr>ld_tag_names := [''sync'', ''sync/Read'', ''keep'']\<rparr>]
     [Folder ''20'' ''Work'' [Bookmark ''10'' exampleUrl ''A'' (Some 40)]]"

definition clearedStores :: stores where
  "clearedStores = storesOf [quietRemote]
     [Folder ''20'' ''Work'' [Bookmark ''10'' exampleUrl [] (Some 40)]]"

definition quietMapping :: "mappingEntry jsmap" where
  "quietMapping = [(exampleUrl, quietEntry)]"

text \<open>
  Stores that also hold the extension's config bookmark with its tag, next to the
  Linkding bookmark of the moved snapshot; and the update of the config bookmark that
  the initial sync sends there.
\<close>

definition configRemote :: ldBookmark where
  "configRemote = \<lparr>ld_id = 3, ld_url = CONFIG_URL, ld_title = CONFIG_TITLE,
     ld_tag_names = [''bookmark-sync-config''], ld_date_modified = Some 30\<rparr>"

definition configStores :: stores where
  "configStores = storesOf [movedRemote, configRemote]
     [Folder ''20'' ''Work'' [Bookmark ''10'' exampleUrl ''A'' (Some 40)]]"

definition configPut :: putBody where
  "configPut = \<lparr>b_url = None, b_title = None, b_description = Some [exampleUrl],
     b_tag_names = None\<rparr>"

section \<open>Round trip of the path codec\<close>

lemma startsWith_append: "startsWith (p @ s) p"
  by (simp add: startsWith_def)

lemma not_startsWith_shorter: "length t < length p \<Longrightarrow> \<not> startsWith t p"
  by (auto simp: startsWith_def)

text \<open>
  Claim C1. For every sync tag and every folder path, decoding the tags that encode the
  path returns the path; the paths of the claim, joined from non-empty segments without
  a slash, are among them. The empty path encodes to the single sync tag and decodes
  back to the empty path.
\<close>

theorem codec_round_trip:
  "extractFolderPath T (buildTagsForPath T p) = p
   \<and> extractFolderPath T (buildTagsForPath T (joinPath segs)) = joinPath segs
   \<and> buildTagsForPath T [] = [T]
   \<and> extractFolderPath T [T] = []"
proof -
  have short: "\<not> startsWith T (T @ ''/'')"
    by (rule not_startsWith_shorter) simp
  have long: "startsWith (T @ ''/'' @ q) (T @ ''/'')" for q
    using startsWith_append [of "T @ ''/''" q] by simp
  have rt: "extractFolderPath T (buildTagsForPath T q) = q" for q
    using short long [of q]
    by (simp add: extractFolderPath_def buildTagsForPath_def betterTag_def Let_def)
  have root: "extractFolderPath T [T] = []"
    using short by (simp add: extractFolderPath_def betterTag_def Let_def)
  show ?thesis
    using rt root by (simp add: buildTagsForPath_def)
qed

section \<open>The scheduler while a sync is running\<close>

lemma onRequest_running:
  "isSyncing m \<Longrightarrow> onRequest r m =
     (if requestType r = twoWay then (QueuedSilently, m\<lparr>queuedTwoWay := True\<rparr>)
      else (BusyError, m))"
  by (cases r) (simp_all add: run_def)

lemma onRequests_running:
  "isSyncing m \<Longrightarrow> onRequests rs m = (outs, m') \<Longrightarrow>
     isSyncing m'
     \<and> outs = map (\<lambda>r. if requestType r = twoWay then QueuedSilently else BusyError) rs
     \<and> queuedTwoWay m' = (queuedTwoWay m \<or> twoWay \<in> requestType ` set rs)"
proof (induction rs arbitrary: m outs m')
  case Nil
  then show ?case by simp
next
  case (Cons r rs)
  obtain out m1 where step: "onRequest r m = (out, m1)" by (cases "onRequest r m")
  obtain outs1 m2 where rest: "onRequests rs m1 = (outs1, m2)" by (cases "onRequests rs m1")
  from step Cons.prems(1) have m1: "isSyncing m1"
    and out: "out = (if requestType r = twoWay then QueuedSilently else BusyError)"
    and q1: "queuedTwoWay m1 = (queuedTwoWay m \<or> requestType r = twoWay)"
    by (auto simp: onRequest_running split: if_splits)
  from Cons.prems(2) step rest have eq: "outs = out # outs1" "m' = m2" by simp_all
  from Cons.IH [OF m1 rest] show ?case using eq out q1 by auto
qed

text \<open>
  Claim C5 against the code. The popup's manual two-way request reaches the manager
  with the type \<open>twoWay\<close>, as the change-driven requests do. While a sync is running it
  is therefore not rejected with the busy error: it sets the queued flag and is answered
  without an error and without a result, and a two-way sync starts for it when the
  running one ends. The claim says that any manual request is rejected and never queued;
  the branch that rejects logs \<^verbatim>\<open>Ignoring manual request\<close>, and only the full download
  reaches it.
\<close>

theorem manual_two_way_is_queued:
  "isManual MsgTwoWaySync
   \<and> onRequest MsgTwoWaySync \<lparr>isSyncing = True, queuedTwoWay = False\<rparr>
       = (QueuedSilently, \<lparr>isSyncing = True, queuedTwoWay = True\<rparr>)
   \<and> complete \<lparr>isSyncing = True, queuedTwoWay = True\<rparr>
       = (Some (Began RunTwoWaySync), \<lparr>isSyncing = True, queuedTwoWay = False\<rparr>)"
  by (simp add: run_def complete_def checkQueue_def)

text \<open>
  What holds while a sync is running: every request of type \<open>oneWay\<close> (the full
  download, manual or from the alarm) is rejected with the busy error and leaves the
  flags unchanged, and every request of type \<open>twoWay\<close> (change-driven, alarm, manual
  two-way sync, manual initial sync) is accepted silently and sets the one queued flag;
  no request starts a sync. When the running sync ends with the flag set, the flag is
  cleared and exactly one runTwoWaySync starts; when that one ends with no further
  request, nothing starts and the manager is idle.
\<close>

theorem scheduler_while_running:
  assumes "isSyncing m" and "onRequests rs m = (outs, m')"
  shows "isSyncing m'
     \<and> outs = map (\<lambda>r. if requestType r = twoWay then QueuedSilently else BusyError) rs
     \<and> queuedTwoWay m' = (queuedTwoWay m \<or> twoWay \<in> requestType ` set rs)
     \<and> complete m' =
         (if queuedTwoWay m'
          then (Some (Began RunTwoWaySync), m'\<lparr>isSyncing := True, queuedTwoWay := False\<rparr>)
          else (None, m'\<lparr>isSyncing := False\<rparr>))
     \<and> complete (m'\<lparr>isSyncing := True, queuedTwoWay := False\<rparr>)
         = (None, m'\<lparr>isSyncing := False, queuedTwoWay := False\<rparr>)"
  using onRequests_running [OF assms]
  by (simp add: complete_def checkQueue_def run_def)

theorem scheduler_while_running_witness:
  "onRequests [MsgSync, DebouncedChange, AlarmTwoWay] \<lparr>isSyncing = True, queuedTwoWay = False\<rparr>
     = ([BusyError, QueuedSilently, QueuedSilently], \<lparr>isSyncing = True, queuedTwoWay = True\<rparr>)
   \<and> complete \<lparr>isSyncing = True, queuedTwoWay = True\<rparr>
     = (Some (Began RunTwoWaySync), \<lparr>isSyncing = True, queuedTwoWay = False\<rparr>)
   \<and> complete \<lparr>isSyncing = True, queuedTwoWay = False\<rparr>
     = (None, \<lparr>isSyncing = False, queuedTwoWay = False\<rparr>)"
proof -
  have burst: "onRequests [MsgSync, DebouncedChange, AlarmTwoWay]
       \<lparr>isSyncing = True, queuedTwoWay = False\<rparr>
     = ([BusyError, QueuedSilently, QueuedSilently], \<lparr>isSyncing = True, queuedTwoWay = True\<rparr>)"
    by (simp add: run_def)
  have "isSyncing \<lparr>isSyncing = True, queuedTwoWay = False\<rparr>" by simp
  from scheduler_while_running [OF this burst] burst show ?thesis by simp
qed

section \<open>Sequencing\<close>

lemma andThen_Inr:
  "andThen f g s = (Inr y, s') \<longleftrightarrow> (\<exists>x s1. f s = (Inr x, s1) \<and> g x s1 = (Inr y, s'))"
  by (auto simp: andThen_def split: prod.splits sum.splits)

lemma forEach_append_Inr:
  "forEach f (xs @ ys) s = (Inr u, s') \<longleftrightarrow>
     (\<exists>s1. forEach f xs s = (Inr (), s1) \<and> forEach f ys s1 = (Inr u, s'))"
  by (induction xs arbitrary: s) (auto split: prod.splits sum.splits)

lemma forEach_Cons_Inr:
  "forEach f (x # xs) s = (Inr u, s') \<longleftrightarrow>
     (\<exists>s1. f x s = (Inr (), s1) \<and> forEach f xs s1 = (Inr u, s'))"
  by (auto split: prod.splits sum.splits)

section \<open>Relations kept by every step\<close>

lemma keepsD: "keeps R f \<Longrightarrow> f s = (r, s') \<Longrightarrow> R s s'"
  by (auto simp: keeps_def dest: spec [of _ s])

lemma keeps_ret: "reflp R \<Longrightarrow> keeps R (ret x)"
  by (simp add: keeps_def ret_def reflpD)

lemma keeps_andThen:
  "transp R \<Longrightarrow> keeps R f \<Longrightarrow> (\<And>x. keeps R (g x)) \<Longrightarrow> keeps R (andThen f g)"
  unfolding keeps_def andThen_def
  by (auto split: prod.splits sum.splits dest: transpD) (metis snd_conv transpD)+

lemma keeps_forEach:
  assumes "reflp R" "transp R" "\<And>x. x \<in> set xs \<Longrightarrow> keeps R (f x)"
  shows "keeps R (forEach f xs)"
  unfolding keeps_def
proof
  fix s
  from assms(3) show "R s (snd (forEach f xs s))"
  proof (induction xs arbitrary: s)
    case Nil
    then show ?case using assms(1) by (simp add: reflpD)
  next
    case (Cons x xs)
    obtain r s1 where st: "f x s = (r, s1)" by (cases "f x s")
    have 1: "R s s1" using Cons.prems [of x] st by (auto dest: keepsD)
    have 2: "R s1 (snd (forEach f xs s1))" using Cons.IH Cons.prems by simp
    show ?case
    proof (cases r)
      case (Inl e)
      then show ?thesis using st 1 by simp
    next
      case (Inr u)
      then show ?thesis using st 1 2 assms(2) by (auto dest: transpD)
    qed
  qed
qed

lemma writeAll_simps [simp]:
  "writeAll m [] = m"
  "writeAll m (kv # kvs) = writeAll (AList.update (fst kv) (snd kv) m) kvs"
  "writeAll m (kvs @ kvs') = writeAll (writeAll m kvs) kvs'"
  by (simp_all add: writeAll_def)

lemma effect_refl: "effect P Q s s"
  unfolding effect_def
  by (intro conjI exI [of _ "[]"]) simp_all

lemma effect_trans: "effect P Q s s1 \<Longrightarrow> effect P Q s1 s2 \<Longrightarrow> effect P Q s s2"
  unfolding effect_def
proof (elim conjE exE, intro conjI)
  fix cs kvs cs' kvs'
  assume a: "calls s1 = calls s @ cs" "list_all P cs" "calls s2 = calls s1 @ cs'" "list_all P cs'"
    and b: "newMapping s1 = writeAll (newMapping s) kvs" "list_all (\<lambda>kv. Q (fst kv) (snd kv)) kvs"
      "newMapping s2 = writeAll (newMapping s1) kvs'" "list_all (\<lambda>kv. Q (fst kv) (snd kv)) kvs'"
  from a show "\<exists>cs. calls s2 = calls s @ cs \<and> list_all P cs"
    by (intro exI [of _ "cs @ cs'"]) simp
  from b show "\<exists>kvs. newMapping s2 = writeAll (newMapping s) kvs \<and> list_all (\<lambda>kv. Q (fst kv) (snd kv)) kvs"
    by (intro exI [of _ "kvs @ kvs'"]) simp
qed

lemma reflp_effect: "reflp (effect P Q)"
  by (simp add: reflp_def effect_refl)

lemma transp_effect: "transp (effect P Q)"
  by (auto simp: transp_def intro: effect_trans)

lemma effect_mono:
  "effect P Q s s' \<Longrightarrow> (\<And>c. P c \<Longrightarrow> P' c) \<Longrightarrow> (\<And>k v. Q k v \<Longrightarrow> Q' k v) \<Longrightarrow> effect P' Q' s s'"
  unfolding effect_def list_all_iff by blast

lemma effect_call: "P c \<Longrightarrow> effect P Q s (s\<lparr>world := w, calls := calls s @ [c]\<rparr>)"
  unfolding effect_def
  by (intro conjI exI [of _ "[c]"] exI [of _ "[]"]) simp_all

lemma effect_write:
  "Q k v \<Longrightarrow> calls s' = calls s \<Longrightarrow> newMapping s' = AList.update k v (newMapping s) \<Longrightarrow> effect P Q s s'"
  unfolding effect_def
  by (intro conjI exI [of _ "[]"] exI [of _ "[(k, v)]"]) simp_all

lemma effect_same:
  "calls s' = calls s \<Longrightarrow> newMapping s' = newMapping s \<Longrightarrow> effect P Q s s'"
  unfolding effect_def
  by (intro conjI exI [of _ "[]"]) simp_all

lemma effect_then_same:
  "effect P Q s s1 \<Longrightarrow> calls s' = calls s1 \<Longrightarrow> newMapping s' = newMapping s1 \<Longrightarrow> effect P Q s s'"
  by (erule effect_trans) (rule effect_same)

text \<open>What an effect says about the final log and the final mapping.\<close>

lemma effect_calls:
  "effect P Q s s' \<Longrightarrow> c \<in> set (calls s') \<Longrightarrow> c \<in> set (calls s) \<or> P c"
  unfolding effect_def list_all_iff by auto

lemma effect_calls_subset: "effect P Q s s' \<Longrightarrow> set (calls s) \<subseteq> set (calls s')"
  unfolding effect_def by auto

lemma map_of_writeAll:
  "map_of (writeAll m kvs) k = Some v \<Longrightarrow> list_all (\<lambda>kv. Q (fst kv) (snd kv)) kvs
     \<Longrightarrow> map_of m k = Some v \<or> Q k v"
proof (induction kvs arbitrary: m)
  case Nil
  then show ?case by simp
next
  case (Cons kv kvs)
  from Cons.prems have "map_of (writeAll (AList.update (fst kv) (snd kv) m) kvs) k = Some v"
    and q: "Q (fst kv) (snd kv)" and rest: "list_all (\<lambda>kv. Q (fst kv) (snd kv)) kvs"
    by simp_all
  from Cons.IH [OF this(1) rest]
  have "map_of (AList.update (fst kv) (snd kv) m) k = Some v \<or> Q k v" .
  then show ?case using q by (auto simp: update_conv' split: if_splits)
qed

lemma effect_entry:
  "effect P Q s s' \<Longrightarrow> map_of (newMapping s') k = Some v
     \<Longrightarrow> map_of (newMapping s) k = Some v \<or> Q k v"
  unfolding effect_def by (auto dest: map_of_writeAll)

lemma map_of_writeAll_other:
  "list_all (\<lambda>kv. Q (fst kv) (snd kv)) kvs \<Longrightarrow> (\<And>v. \<not> Q k v)
     \<Longrightarrow> map_of (writeAll m kvs) k = map_of m k"
proof (induction kvs arbitrary: m)
  case Nil
  then show ?case by simp
next
  case (Cons kv kvs)
  from Cons.prems have ne: "fst kv \<noteq> k" and rest: "list_all (\<lambda>kv. Q (fst kv) (snd kv)) kvs"
    by auto
  have "map_of (writeAll (AList.update (fst kv) (snd kv) m) kvs) k
      = map_of (AList.update (fst kv) (snd kv) m) k"
    using Cons.IH [OF rest] Cons.prems(2) by blast
  then show ?case using ne by (simp add: update_conv')
qed

lemma effect_untouched:
  "effect P Q s s' \<Longrightarrow> (\<And>v. \<not> Q k v) \<Longrightarrow> map_of (newMapping s') k = map_of (newMapping s) k"
  unfolding effect_def using map_of_writeAll_other [of Q _ k] by metis

lemma distinct_writeAll: "distinct (map fst m) \<Longrightarrow> distinct (map fst (writeAll m kvs))"
  by (induction kvs arbitrary: m) (simp_all add: distinct_update)

lemma effect_distinct:
  "effect P Q s s' \<Longrightarrow> distinct (map fst (newMapping s)) \<Longrightarrow> distinct (map fst (newMapping s'))"
  unfolding effect_def by (auto simp: distinct_writeAll)

lemma keys_writeAll: "fst ` set (writeAll m kvs) = fst ` set m \<union> fst ` set kvs"
  by (induction kvs arbitrary: m) (auto simp: dom_update [unfolded dom_map_of_conv_image_fst])

named_theorems keeps_intros

lemma keeps_effect_ret [keeps_intros]: "keeps (effect P Q) (ret x)"
  by (rule keeps_ret) (rule reflp_effect)

lemma keeps_effect_andThen [keeps_intros]:
  "keeps (effect P Q) f \<Longrightarrow> (\<And>x. keeps (effect P Q) (g x)) \<Longrightarrow> keeps (effect P Q) (andThen f g)"
  by (rule keeps_andThen) (rule transp_effect)

lemma keeps_effect_forEach [keeps_intros]:
  "(\<And>x. x \<in> set xs \<Longrightarrow> keeps (effect P Q) (f x)) \<Longrightarrow> keeps (effect P Q) (forEach f xs)"
  by (rule keeps_forEach) (simp_all add: reflp_effect transp_effect)

lemma snd_invoke: "snd (invoke api c s) = s\<lparr>world := snd (api c (world s)), calls := calls s @ [c]\<rparr>"
  by (simp add: invoke_def split: prod.splits)

lemma keeps_invoke [keeps_intros]: "P c \<Longrightarrow> keeps (effect P Q) (invoke api c)"
  by (simp add: keeps_def snd_invoke effect_call)

lemma snd_perform: "snd (perform api c s) = snd (invoke api c s)"
  by (simp add: perform_def split: prod.splits reply.splits)

lemma keeps_perform [keeps_intros]: "P c \<Longrightarrow> keeps (effect P Q) (perform api c)"
  using keeps_invoke [of P c Q api] by (simp add: keeps_def snd_perform)

lemma snd_createLinkdingBookmark:
  "snd (createLinkdingBookmark api u t d tags s) = snd (invoke api (LdPost u (orElse t u) d tags) s)"
  by (simp add: createLinkdingBookmark_def Let_def split: prod.splits reply.splits)

lemma keeps_createLinkdingBookmark [keeps_intros]:
  "P (LdPost u (orElse t u) d tags) \<Longrightarrow> keeps (effect P Q) (createLinkdingBookmark api u t d tags)"
  using keeps_invoke [of P "LdPost u (orElse t u) d tags" Q api]
  by (simp add: keeps_def snd_createLinkdingBookmark)

lemma keeps_updateLinkdingBookmark [keeps_intros]:
  "P (LdPut i \<lparr>b_url = truthy u, b_title = truthy t, b_description = d, b_tag_names = tags\<rparr>)
     \<Longrightarrow> keeps (effect P Q) (updateLinkdingBookmark api i u t d tags)"
  by (simp add: updateLinkdingBookmark_def keeps_perform)

lemma keeps_deleteLinkdingBookmark [keeps_intros]:
  "P (LdDelete i) \<Longrightarrow> keeps (effect P Q) (deleteLinkdingBookmark api i)"
  by (simp add: deleteLinkdingBookmark_def keeps_perform)

lemma snd_getChildren: "snd (getChildren api p s) = snd (invoke api (GetChildren p) s)"
  by (simp add: getChildren_def split: prod.splits reply.splits)

lemma keeps_getChildren [keeps_intros]:
  "P (GetChildren p) \<Longrightarrow> keeps (effect P Q) (getChildren api p)"
  using keeps_invoke [of P "GetChildren p" Q api] by (simp add: keeps_def snd_getChildren)

lemma snd_createNode: "snd (createNode api c s) = snd (invoke api c s)"
  by (simp add: createNode_def split: prod.splits reply.splits)

lemma keeps_createNode [keeps_intros]: "P c \<Longrightarrow> keeps (effect P Q) (createNode api c)"
  using keeps_invoke [of P c Q api] by (simp add: keeps_def snd_createNode)

lemma snd_fetchConfig: "snd (fetchConfig api s) = snd (invoke api LdSearchConfig s)"
  by (simp add: fetchConfig_def split: prod.splits reply.splits)

lemma keeps_fetchConfig [keeps_intros]: "P LdSearchConfig \<Longrightarrow> keeps (effect P Q) (fetchConfig api)"
  using keeps_invoke [of P LdSearchConfig Q api] by (simp add: keeps_def snd_fetchConfig)

lemma keeps_getOrCreateFolder:
  "(\<And>c. isFolderCall c \<Longrightarrow> P c) \<Longrightarrow> keeps (effect P Q) (getOrCreateFolder api name p)"
  unfolding getOrCreateFolder_def
  by (auto intro!: keeps_intros split: option.splits)

lemma ensureParts_Cons:
  "ensureParts api (part # parts) cur = andThen (getOrCreateFolder api part cur) (ensureParts api parts)"
  by (rule ext) (simp add: andThen_def split: prod.splits sum.splits)

lemma keeps_ensureParts:
  "(\<And>c. isFolderCall c \<Longrightarrow> P c) \<Longrightarrow> keeps (effect P Q) (ensureParts api parts cur)"
proof (induction parts arbitrary: cur)
  case Nil
  show ?case by (simp add: keeps_def effect_refl)
next
  case (Cons part parts)
  show ?case
    unfolding ensureParts_Cons
    by (rule keeps_effect_andThen) (simp_all add: keeps_getOrCreateFolder Cons)
qed

lemma keeps_ensureFolderPath [keeps_intros]:
  "(\<And>c. isFolderCall c \<Longrightarrow> P c) \<Longrightarrow> keeps (effect P Q) (ensureFolderPath api root fp)"
  by (simp add: ensureFolderPath_def keeps_effect_ret keeps_ensureParts)

lemma keeps_update:
  "(\<And>s. effect P Q s (f s)) \<Longrightarrow> keeps (effect P Q) (\<lambda>s. (r, f s))"
  by (simp add: keeps_def)

lemma keeps_processBatch [keeps_intros]:
  assumes "\<And>x. x \<in> set xs \<Longrightarrow> keeps (effect P Q) (f x)"
  shows "keeps (effect P Q) (processBatch f xs)"
  unfolding keeps_def
proof
  fix s
  from assms show "effect P Q s (snd (processBatch f xs s))"
  proof (induction xs arbitrary: s)
    case Nil
    show ?case by (simp add: effect_refl)
  next
    case (Cons x xs)
    obtain r s1 where st: "f x s = (r, s1)" by (cases "f x s")
    have 1: "effect P Q s s1" using Cons.prems [of x] st by (auto dest: keepsD)
    show ?case
    proof (cases r)
      case (Inl e)
      have "effect P Q s (s1\<lparr>console := console s1 @ [e]\<rparr>)"
        using 1 by (rule effect_then_same) simp_all
      moreover have "effect P Q (s1\<lparr>console := console s1 @ [e]\<rparr>)
          (snd (processBatch f xs (s1\<lparr>console := console s1 @ [e]\<rparr>)))"
        using Cons.IH Cons.prems by simp
      ultimately show ?thesis using st Inl by (auto intro: effect_trans)
    next
      case (Inr u)
      have "effect P Q s1 (snd (processBatch f xs s1))" using Cons.IH Cons.prems by simp
      then show ?thesis using st Inr 1 by (auto intro: effect_trans)
    qed
  qed
qed

lemma keeps_write:
  "Q k v \<Longrightarrow> (\<And>s. calls (f s) = calls s) \<Longrightarrow> (\<And>s. newMapping (f s) = AList.update k v (newMapping s))
     \<Longrightarrow> keeps (effect P Q) (\<lambda>s. (r, f s))"
  by (rule keeps_update) (rule effect_write)

lemma keeps_local:
  "(\<And>s. calls (f s) = calls s) \<Longrightarrow> (\<And>s. newMapping (f s) = newMapping s)
     \<Longrightarrow> keeps (effect P Q) (\<lambda>s. (r, f s))"
  by (rule keeps_update) (rule effect_same)

lemma keeps_newInChrome:
  assumes "\<And>ld. map_of mapping (c_url cbm) = None \<Longrightarrow> map_of ldByUrl (c_url cbm) = Some ld
              \<Longrightarrow> tagsDiffer ld (mergedTags ld (buildTagsForPath T (c_folderPath cbm)))
              \<Longrightarrow> P (LdPut (ld_id ld) \<lparr>b_url = truthy (Some (ld_url ld)),
                     b_title = truthy (Some (ld_title ld)), b_description = None,
                     b_tag_names = Some (mergedTags ld (buildTagsForPath T (c_folderPath cbm)))\<rparr>)"
    and "map_of mapping (c_url cbm) = None \<Longrightarrow> map_of ldByUrl (c_url cbm) = None
           \<Longrightarrow> P (LdPost (c_url cbm) (orElse (c_title cbm) (c_url cbm)) None
                  (buildTagsForPath T (c_folderPath cbm)))"
    and "\<And>i. map_of mapping (c_url cbm) = None
           \<Longrightarrow> (case map_of ldByUrl (c_url cbm) of None \<Rightarrow> True | Some ld \<Rightarrow> i = ld_id ld)
           \<Longrightarrow> Q (c_url cbm) \<lparr>linkdingId = i, chromeId = c_id cbm, title = c_title cbm,
                     url = c_url cbm, folderPath = c_folderPath cbm, lastSynced = now\<rparr>"
  shows "keeps (effect P Q) (newInChrome api T now mapping ldByUrl cbm)"
  unfolding newInChrome_def Let_def
  using assms
  by (auto intro!: keeps_intros keeps_write split: option.splits)

lemma keeps_newInLinkding:
  assumes "\<And>c. map_of mapping (ld_url ld) = None \<Longrightarrow> map_of chromeByUrl (ld_url ld) = None
              \<Longrightarrow> isFolderCall c \<Longrightarrow> P c"
    and "\<And>p. map_of mapping (ld_url ld) = None \<Longrightarrow> map_of chromeByUrl (ld_url ld) = None
           \<Longrightarrow> P (CreateBookmark p (orElse (ld_title ld) (ld_url ld)) (ld_url ld))"
    and "\<And>i. map_of mapping (ld_url ld) = None \<Longrightarrow> map_of chromeByUrl (ld_url ld) = None
           \<Longrightarrow> Q (ld_url ld) \<lparr>linkdingId = ld_id ld, chromeId = i,
                 title = orElse (ld_title ld) (ld_url ld), url = ld_url ld,
                 folderPath = extractFolderPath T (ld_tag_names ld), lastSynced = now\<rparr>"
  shows "keeps (effect P Q) (newInLinkding api T root now mapping chromeByUrl ld)"
  unfolding newInLinkding_def Let_def
  using assms
  by (auto intro!: keeps_intros keeps_write split: option.splits)

lemma storeEntry_eq:
  "storeEntry now key entry cbm ld r s =
     (Inr (), s\<lparr>newMapping := AList.update key (storedEntry now key entry cbm ld r) (newMapping s)\<rparr>)"
  by (simp add: storeEntry_def storedEntry_def Let_def update_last)

lemma keeps_storeEntry:
  "Q key (storedEntry now key entry cbm ld r) \<Longrightarrow> keeps (effect P Q) (storeEntry now key entry cbm ld r)"
  unfolding keeps_def by (simp add: storeEntry_eq effect_write)

lemma keeps_updateLd:
  "(needsLdUpdate r \<Longrightarrow> P (LdPut (ld_id ld) \<lparr>b_url = truthy (Some (ld_url ld)),
        b_title = truthy (Some (finalTitle r)), b_description = None,
        b_tag_names = Some (newTags T (finalFolderPath r) ld)\<rparr>))
     \<Longrightarrow> keeps (effect P Q) (updateLd api T ld r)"
  unfolding updateLd_def
  by (auto intro!: keeps_intros keeps_local)

lemma keeps_updateChrome:
  assumes "needsChromeUpdate r \<Longrightarrow> finalTitle r \<noteq> c_title cbm \<Longrightarrow> P (UpdateTitle (c_id cbm) (finalTitle r))"
    and "\<And>c. needsChromeUpdate r \<Longrightarrow> finalFolderPath r \<noteq> c_folderPath cbm \<Longrightarrow> isFolderCall c \<Longrightarrow> P c"
    and "\<And>p. needsChromeUpdate r \<Longrightarrow> finalFolderPath r \<noteq> c_folderPath cbm \<Longrightarrow> P (Move (c_id cbm) p)"
  shows "keeps (effect P Q) (updateChrome api root cbm r)"
  unfolding updateChrome_def
  using assms
  by (auto intro!: keeps_intros keeps_local)

lemma keeps_processMapped:
  assumes "\<And>ld. map_of chromeByUrl key = None \<Longrightarrow> map_of ldByUrl key = Some ld \<Longrightarrow> P (LdDelete (ld_id ld))"
    and "\<And>cbm. map_of chromeByUrl key = Some cbm \<Longrightarrow> map_of ldByUrl key = None \<Longrightarrow> P (Remove (chromeId entry))"
    and "\<And>cbm ld. map_of chromeByUrl key = Some cbm \<Longrightarrow> map_of ldByUrl key = Some ld
           \<Longrightarrow> needsLdUpdate (resolve T entry cbm ld)
           \<Longrightarrow> P (LdPut (ld_id ld) \<lparr>b_url = truthy (Some (ld_url ld)),
                  b_title = truthy (Some (finalTitle (resolve T entry cbm ld))), b_description = None,
                  b_tag_names = Some (newTags T (finalFolderPath (resolve T entry cbm ld)) ld)\<rparr>)"
    and "\<And>cbm ld. map_of chromeByUrl key = Some cbm \<Longrightarrow> map_of ldByUrl key = Some ld
           \<Longrightarrow> needsChromeUpdate (resolve T entry cbm ld)
           \<Longrightarrow> finalTitle (resolve T entry cbm ld) \<noteq> c_title cbm
           \<Longrightarrow> P (UpdateTitle (c_id cbm) (finalTitle (resolve T entry cbm ld)))"
    and "\<And>cbm ld c. map_of chromeByUrl key = Some cbm \<Longrightarrow> map_of ldByUrl key = Some ld
           \<Longrightarrow> needsChromeUpdate (resolve T entry cbm ld)
           \<Longrightarrow> finalFolderPath (resolve T entry cbm ld) \<noteq> c_folderPath cbm
           \<Longrightarrow> isFolderCall c \<Longrightarrow> P c"
    and "\<And>cbm ld p. map_of chromeByUrl key = Some cbm \<Longrightarrow> map_of ldByUrl key = Some ld
           \<Longrightarrow> needsChromeUpdate (resolve T entry cbm ld)
           \<Longrightarrow> finalFolderPath (resolve T entry cbm ld) \<noteq> c_folderPath cbm
           \<Longrightarrow> P (Move (c_id cbm) p)"
    and "\<And>cbm ld. map_of chromeByUrl key = Some cbm \<Longrightarrow> map_of ldByUrl key = Some ld
           \<Longrightarrow> Q key (storedEntry now key entry cbm ld (resolve T entry cbm ld))"
  shows "keeps (effect P Q) (processMapped api T root now ldByUrl chromeByUrl (key, entry))"
proof -
  have rm: "keeps (effect P Q) (\<lambda>s. case perform api (Remove (chromeId entry)) s of
                   (outcome, s') \<Rightarrow> (Inr (), s'\<lparr>removed := removed s' + 1\<rparr>))"
    if "P (Remove (chromeId entry))"
    unfolding keeps_def
  proof
    fix s
    obtain r s1 where p: "perform api (Remove (chromeId entry)) s = (r, s1)"
      by (cases "perform api (Remove (chromeId entry)) s")
    have "effect P Q s s1" using keeps_perform [of P "Remove (chromeId entry)" Q api] that p by (auto dest: keepsD)
    then have "effect P Q s (s1\<lparr>removed := removed s1 + 1\<rparr>)"
      by (rule effect_then_same) simp_all
    then show "effect P Q s (snd (case perform api (Remove (chromeId entry)) s of
                   (outcome, s') \<Rightarrow> (Inr (), s'\<lparr>removed := removed s' + 1\<rparr>)))"
      using p by simp
  qed
  show ?thesis
    unfolding processMapped_def Let_def
    using assms rm
    by (auto intro!: keeps_intros keeps_local keeps_updateLd keeps_updateChrome keeps_storeEntry
        split: option.splits)
qed

section \<open>The URL indexes\<close>

lemma index_fold_Some:
  "map_of (foldl (\<lambda>m b. AList.update (key b) b m) m0 bs) u = Some x
     \<Longrightarrow> (x \<in> set bs \<and> key x = u) \<or> map_of m0 u = Some x"
proof (induction bs arbitrary: m0)
  case Nil
  then show ?case by simp
next
  case (Cons b bs)
  from Cons.prems
  have "map_of (foldl (\<lambda>m b. AList.update (key b) b m) (AList.update (key b) b m0) bs) u = Some x"
    by simp
  from Cons.IH [OF this] show ?case
    by (auto simp: update_conv' split: if_splits)
qed

lemma index_fold_None:
  "map_of (foldl (\<lambda>m b. AList.update (key b) b m) m0 bs) u = None
     \<longleftrightarrow> map_of m0 u = None \<and> u \<notin> key ` set bs"
  by (induction bs arbitrary: m0) (auto simp: update_conv')

lemma indexLd_Some: "map_of (indexLd lds) u = Some ld \<Longrightarrow> ld \<in> set lds \<and> ld_url ld = u"
  unfolding indexLd_def using index_fold_Some [of ld_url "[]" lds u ld] by simp

lemma indexLd_None: "map_of (indexLd lds) u = None \<longleftrightarrow> u \<notin> ld_url ` set lds"
  unfolding indexLd_def by (simp add: index_fold_None)

lemma indexChrome_Some: "map_of (indexChrome cbs) u = Some cbm \<Longrightarrow> cbm \<in> set cbs \<and> c_url cbm = u"
  unfolding indexChrome_def using index_fold_Some [of c_url "[]" cbs u cbm] by simp

lemma indexChrome_None: "map_of (indexChrome cbs) u = None \<longleftrightarrow> u \<notin> c_url ` set cbs"
  unfolding indexChrome_def by (simp add: index_fold_None)

lemma keys_index_fold:
  "fst ` set (foldl (\<lambda>m b. AList.update (key b) b m) m0 bs) = fst ` set m0 \<union> key ` set bs"
  by (induction bs arbitrary: m0) (auto simp: dom_update [unfolded dom_map_of_conv_image_fst])

lemma distinct_index_fold:
  "distinct (map fst m0) \<Longrightarrow> distinct (map fst (foldl (\<lambda>m b. AList.update (key b) b m) m0 bs))"
  by (induction bs arbitrary: m0) (simp_all add: distinct_update)

section \<open>A successful run, taken apart\<close>

lemma reconcile_Inr:
  assumes "reconcile api T root now mapping lds cbs s = (Inr res, s')"
  shows "\<exists>s1 s2 s3.
      forEach (newInChrome api T now mapping (indexLd lds)) cbs s = (Inr (), s1)
    \<and> forEach (newInLinkding api T root now mapping (indexChrome cbs)) lds s1 = (Inr (), s2)
    \<and> forEach (processMapped api T root now (indexLd lds) (indexChrome cbs)) mapping s2 = (Inr (), s3)
    \<and> s' = s3\<lparr>saved := Some (newMapping s3)\<rparr>
    \<and> res = \<lparr>res_added = added s3, res_removed = removed s3, res_updated = updated s3,
              res_total = length (newMapping s3)\<rparr>"
  using assms unfolding reconcile_def Let_def andThen_Inr by auto

lemma runTwoWaySync_Inr:
  assumes "runTwoWaySync api cfg snap now w = (Inr res, s')"
  shows "\<exists>root all. twoWayEnabled cfg \<and> truthy (twoWaySyncFolderId cfg) = Some root
      \<and> fetched snap = Some all
      \<and> reconcile api (twoWaySyncTag cfg) root now (storedMapping snap)
           (withExactTag (twoWaySyncTag cfg) all)
           (getChromeBookmarksRecursive (tree snap) []) (startRun w) = (Inr res, s')"
  using assms unfolding runTwoWaySync_def
  by (auto split: if_splits option.splits)

lemma invoked: "invoke api c s = (r, s') \<Longrightarrow> calls s' = calls s @ [c]"
  by (auto simp: invoke_def split: prod.splits)

lemma performed: "perform api c s = (r, s') \<Longrightarrow> calls s' = calls s @ [c]"
  using snd_perform [of api c s] snd_invoke [of api c s] by simp

lemma updateLd_Inr:
  assumes "updateLd api T ld r s = (Inr x, s')" and "needsLdUpdate r"
  shows "LdPut (ld_id ld) \<lparr>b_url = truthy (Some (ld_url ld)),
        b_title = truthy (Some (finalTitle r)), b_description = None,
        b_tag_names = Some (newTags T (finalFolderPath r) ld)\<rparr> \<in> set (calls s')"
  using assms
  by (auto simp: updateLd_def updateLinkdingBookmark_def andThen_Inr dest!: performed)

lemma updateChrome_Inr_title:
  assumes "updateChrome api root cbm r s = (Inr x, s')" and "needsChromeUpdate r"
    and "finalTitle r \<noteq> c_title cbm"
  shows "UpdateTitle (c_id cbm) (finalTitle r) \<in> set (calls s')"
proof -
  from assms obtain s1 s2 where 1: "perform api (UpdateTitle (c_id cbm) (finalTitle r)) s = (Inr (), s1)"
    and 2: "(if finalFolderPath r \<noteq> c_folderPath cbm then
                andThen (ensureFolderPath api root (finalFolderPath r))
                  (\<lambda>newParentId. perform api (Move (c_id cbm) newParentId))
              else ret ()) s1 = (Inr (), s2)"
    and 3: "s' = s2\<lparr>updated := updated s2 + 1\<rparr>"
    by (auto simp: updateChrome_def andThen_Inr)
  have "keeps (effect (\<lambda>c. True) (\<lambda>k v. True)) (if finalFolderPath r \<noteq> c_folderPath cbm then
                andThen (ensureFolderPath api root (finalFolderPath r))
                  (\<lambda>newParentId. perform api (Move (c_id cbm) newParentId))
              else ret ())"
    by (auto intro!: keeps_intros)
  from keepsD [OF this 2] have "set (calls s1) \<subseteq> set (calls s2)" by (rule effect_calls_subset)
  with performed [OF 1] 3 show ?thesis by auto
qed

lemma updateChrome_Inr_move:
  assumes "updateChrome api root cbm r s = (Inr x, s')" and "needsChromeUpdate r"
    and "finalFolderPath r \<noteq> c_folderPath cbm"
  shows "\<exists>p s1 s2. ensureFolderPath api root (finalFolderPath r) s1 = (Inr p, s2)
           \<and> Move (c_id cbm) p \<in> set (calls s')"
proof -
  from assms obtain s1 p s2 s3 where
      2: "ensureFolderPath api root (finalFolderPath r) s1 = (Inr p, s2)"
    and 3: "perform api (Move (c_id cbm) p) s2 = (Inr (), s3)"
    and 4: "s' = s3\<lparr>updated := updated s3 + 1\<rparr>"
    by (auto simp: updateChrome_def andThen_Inr ret_def split: if_splits)
  from performed [OF 3] 4 have "Move (c_id cbm) p \<in> set (calls s')" by simp
  with 2 show ?thesis by blast
qed

lemma keeps_any_updateChrome:
  "keeps (effect (\<lambda>c. True) (\<lambda>k v. False)) (updateChrome api root cbm r)"
  by (rule keeps_updateChrome) simp_all

lemma keeps_any_processMapped:
  "keeps (effect (\<lambda>c. True) (\<lambda>k v. k = fst ke)) (processMapped api T root now ldByUrl chromeByUrl ke)"
  by (cases ke) (simp, rule keeps_processMapped, simp_all)

text \<open>What the step of an entry present on both sides has done when it returns.\<close>

lemma processMapped_both:
  assumes ok: "processMapped api T root now ldByUrl chromeByUrl (key, entry) s = (Inr x, s')"
    and c: "map_of chromeByUrl key = Some cbm" and l: "map_of ldByUrl key = Some ld"
  defines "r \<equiv> resolve T entry cbm ld"
  shows "map_of (newMapping s') key = Some (storedEntry now key entry cbm ld r)"
    and "needsLdUpdate r \<Longrightarrow> LdPut (ld_id ld) \<lparr>b_url = truthy (Some (ld_url ld)),
        b_title = truthy (Some (finalTitle r)), b_description = None,
        b_tag_names = Some (newTags T (finalFolderPath r) ld)\<rparr> \<in> set (calls s')"
    and "needsChromeUpdate r \<Longrightarrow> finalTitle r \<noteq> c_title cbm
           \<Longrightarrow> UpdateTitle (c_id cbm) (finalTitle r) \<in> set (calls s')"
    and "needsChromeUpdate r \<Longrightarrow> finalFolderPath r \<noteq> c_folderPath cbm
           \<Longrightarrow> \<exists>p s1 s2. ensureFolderPath api root (finalFolderPath r) s1 = (Inr p, s2)
                 \<and> Move (c_id cbm) p \<in> set (calls s')"
proof -
  from ok c l obtain s1 s2 where 1: "updateLd api T ld r s = (Inr (), s1)"
    and 2: "updateChrome api root cbm r s1 = (Inr (), s2)"
    and 3: "s' = s2\<lparr>newMapping := AList.update key (storedEntry now key entry cbm ld r) (newMapping s2)\<rparr>"
    by (auto simp: processMapped_def r_def andThen_Inr storeEntry_eq Let_def)
  from 3 show "map_of (newMapping s') key = Some (storedEntry now key entry cbm ld r)"
    by (simp add: update_conv')
  have sub: "set (calls s1) \<subseteq> set (calls s2)"
    using keepsD [OF keeps_any_updateChrome 2] by (rule effect_calls_subset)
  have same: "calls s' = calls s2" using 3 by simp
  show "LdPut (ld_id ld) \<lparr>b_url = truthy (Some (ld_url ld)),
        b_title = truthy (Some (finalTitle r)), b_description = None,
        b_tag_names = Some (newTags T (finalFolderPath r) ld)\<rparr> \<in> set (calls s')"
    if "needsLdUpdate r"
    using updateLd_Inr [OF 1 that] sub same by auto
  show "UpdateTitle (c_id cbm) (finalTitle r) \<in> set (calls s')"
    if "needsChromeUpdate r" "finalTitle r \<noteq> c_title cbm"
    using updateChrome_Inr_title [OF 2 that] same by simp
  show "\<exists>p s1 s2. ensureFolderPath api root (finalFolderPath r) s1 = (Inr p, s2)
                 \<and> Move (c_id cbm) p \<in> set (calls s')"
    if "needsChromeUpdate r" "finalFolderPath r \<noteq> c_folderPath cbm"
    using updateChrome_Inr_move [OF 2 that] same by simp
qed

lemma keeps_mono:
  "keeps (effect P Q) f \<Longrightarrow> (\<And>c. P c \<Longrightarrow> P' c) \<Longrightarrow> (\<And>k v. Q k v \<Longrightarrow> Q' k v)
     \<Longrightarrow> keeps (effect P' Q') f"
  unfolding keeps_def by (blast intro: effect_mono)

lemma keeps_rest_processMapped:
  "keeps (effect (\<lambda>c. True) (\<lambda>k v. k \<in> fst ` set post))
     (forEach (processMapped api T root now ldByUrl chromeByUrl) post)"
proof (rule keeps_effect_forEach)
  fix ke assume "ke \<in> set post"
  then have "fst ke \<in> fst ` set post" by simp
  then show "keeps (effect (\<lambda>c. True) (\<lambda>k v. k \<in> fst ` set post))
          (processMapped api T root now ldByUrl chromeByUrl ke)"
    by (intro keeps_mono [OF keeps_any_processMapped]) simp_all
qed

lemma reconcile_mapped_both:
  assumes run: "reconcile api T root now mapping lds cbs s = (Inr res, s')"
    and d: "distinct (map fst mapping)"
    and m: "(key, entry) \<in> set mapping"
    and c: "map_of (indexChrome cbs) key = Some cbm"
    and l: "map_of (indexLd lds) key = Some ld"
  defines "r \<equiv> resolve T entry cbm ld"
  shows "saved s' = Some (newMapping s')
     \<and> map_of (newMapping s') key = Some (storedEntry now key entry cbm ld r)
     \<and> (needsLdUpdate r \<longrightarrow> LdPut (ld_id ld) \<lparr>b_url = truthy (Some (ld_url ld)),
          b_title = truthy (Some (finalTitle r)), b_description = None,
          b_tag_names = Some (newTags T (finalFolderPath r) ld)\<rparr> \<in> set (calls s'))
     \<and> (needsChromeUpdate r \<and> finalTitle r \<noteq> c_title cbm
           \<longrightarrow> UpdateTitle (c_id cbm) (finalTitle r) \<in> set (calls s'))
     \<and> (needsChromeUpdate r \<and> finalFolderPath r \<noteq> c_folderPath cbm
           \<longrightarrow> (\<exists>p s1 s2. ensureFolderPath api root (finalFolderPath r) s1 = (Inr p, s2)
                 \<and> Move (c_id cbm) p \<in> set (calls s')))"
proof -
  from reconcile_Inr [OF run] obtain s2 s3 where
      loop: "forEach (processMapped api T root now (indexLd lds) (indexChrome cbs)) mapping s2 = (Inr (), s3)"
    and fin: "s' = s3\<lparr>saved := Some (newMapping s3)\<rparr>"
    by blast
  from m obtain pre post where sp: "mapping = pre @ (key, entry) # post"
    by (auto dest: split_list)
  with d have notin: "key \<notin> fst ` set post" by auto
  from loop sp obtain sa sb where
      step: "processMapped api T root now (indexLd lds) (indexChrome cbs) (key, entry) sa = (Inr (), sb)"
    and rest: "forEach (processMapped api T root now (indexLd lds) (indexChrome cbs)) post sb = (Inr (), s3)"
    by (auto simp: forEach_append_Inr forEach_Cons_Inr simp del: forEach.simps)
  note facts = processMapped_both [OF step c l, folded r_def]
  from keepsD [OF keeps_rest_processMapped rest]
  have eff: "effect (\<lambda>c. True) (\<lambda>k v. k \<in> fst ` set post) sb s3" .
  have same: "map_of (newMapping s3) key = map_of (newMapping sb) key"
    using eff notin by (rule effect_untouched)
  have sub: "set (calls sb) \<subseteq> set (calls s3)"
    using eff by (rule effect_calls_subset)
  show ?thesis
    using fin same sub facts by auto
qed

section \<open>The resolution of an entry present on both sides\<close>

lemma resolve_title:
  "finalTitle (resolve T entry cbm ld) =
     (if c_title cbm \<noteq> title entry \<and> orElse (ld_title ld) (ld_url ld) = title entry then c_title cbm
      else if orElse (ld_title ld) (ld_url ld) \<noteq> title entry \<and> c_title cbm = title entry
        then orElse (ld_title ld) (ld_url ld)
      else if orElse (ld_title ld) (ld_url ld) \<noteq> title entry \<and> c_title cbm \<noteq> title entry then
        (if (case ld_date_modified ld of Some d \<Rightarrow> d | None \<Rightarrow> 0) > lastSynced entry
         then orElse (ld_title ld) (ld_url ld) else c_title cbm)
      else title entry)"
  by (simp add: resolve_def resolveTitle_def resolvePath_def Let_def)

lemma resolve_path:
  "finalFolderPath (resolve T entry cbm ld) =
     (if c_folderPath cbm \<noteq> folderPath entry then c_folderPath cbm
      else extractFolderPath T (ld_tag_names ld))"
  by (simp add: resolve_def resolveTitle_def resolvePath_def Let_def)

lemma resolve_needsLd:
  "needsLdUpdate (resolve T entry cbm ld) \<longleftrightarrow>
     (c_title cbm \<noteq> title entry
        \<and> (orElse (ld_title ld) (ld_url ld) = title entry
            \<or> \<not> (case ld_date_modified ld of Some d \<Rightarrow> d | None \<Rightarrow> 0) > lastSynced entry))
     \<or> c_folderPath cbm \<noteq> folderPath entry"
  by (auto simp add: resolve_def resolveTitle_def resolvePath_def Let_def)

lemma resolve_needsChrome:
  "needsChromeUpdate (resolve T entry cbm ld) \<longleftrightarrow>
     (orElse (ld_title ld) (ld_url ld) \<noteq> title entry
        \<and> (c_title cbm = title entry
            \<or> (case ld_date_modified ld of Some d \<Rightarrow> d | None \<Rightarrow> 0) > lastSynced entry))
     \<or> (extractFolderPath T (ld_tag_names ld) \<noteq> folderPath entry
          \<and> c_folderPath cbm = folderPath entry)"
  by (auto simp add: resolve_def resolveTitle_def resolvePath_def Let_def)

lemma run_mapped_both:
  assumes run: "runTwoWaySync api cfg snap now w = (Inr res, s')"
    and d: "distinct (map fst (storedMapping snap))"
    and m: "(key, entry) \<in> set (storedMapping snap)"
    and c: "localAt snap key = Some cbm"
    and l: "remoteAt cfg snap key = Some ld"
  defines "r \<equiv> resolve (twoWaySyncTag cfg) entry cbm ld"
  shows "\<exists>root. truthy (twoWaySyncFolderId cfg) = Some root
     \<and> saved s' = Some (newMapping s')
     \<and> map_of (newMapping s') key = Some (storedEntry now key entry cbm ld r)
     \<and> (needsLdUpdate r \<longrightarrow> LdPut (ld_id ld) \<lparr>b_url = truthy (Some (ld_url ld)),
          b_title = truthy (Some (finalTitle r)), b_description = None,
          b_tag_names = Some (newTags (twoWaySyncTag cfg) (finalFolderPath r) ld)\<rparr> \<in> set (calls s'))
     \<and> (needsChromeUpdate r \<and> finalTitle r \<noteq> c_title cbm
           \<longrightarrow> UpdateTitle (c_id cbm) (finalTitle r) \<in> set (calls s'))
     \<and> (needsChromeUpdate r \<and> finalFolderPath r \<noteq> c_folderPath cbm
           \<longrightarrow> (\<exists>p s1 s2. ensureFolderPath api root (finalFolderPath r) s1 = (Inr p, s2)
                 \<and> Move (c_id cbm) p \<in> set (calls s')))"
proof -
  from runTwoWaySync_Inr [OF run] obtain root all where
      root: "truthy (twoWaySyncFolderId cfg) = Some root" and f: "fetched snap = Some all"
    and rec: "reconcile api (twoWaySyncTag cfg) root now (storedMapping snap)
           (withExactTag (twoWaySyncTag cfg) all)
           (getChromeBookmarksRecursive (tree snap) []) (startRun w) = (Inr res, s')"
    by blast
  from c have c': "map_of (indexChrome (getChromeBookmarksRecursive (tree snap) [])) key = Some cbm"
    by (simp add: localAt_def localItems_def)
  from l f have l': "map_of (indexLd (withExactTag (twoWaySyncTag cfg) all)) key = Some ld"
    by (simp add: remoteAt_def remoteItems_def)
  from reconcile_mapped_both [OF rec d m c' l'] root show ?thesis
    unfolding r_def by blast
qed





lemma foldl_betterTag_other:
  "(\<And>t. t \<in> set ts \<Longrightarrow> \<not> startsWith t pfx) \<Longrightarrow> foldl (betterTag pfx) best ts = best"
  by (induction ts arbitrary: best) (simp_all add: betterTag_def)

lemma extract_newTags: "extractFolderPath T (newTags T fp ld) = fp"
proof -
  have other: "foldl (betterTag (T @ ''/'')) best (otherTags T ld) = best" for best
    by (rule foldl_betterTag_other) (simp add: otherTags_def)
  have short: "\<not> startsWith T (T @ ''/'')"
    by (rule not_startsWith_shorter) simp
  have long: "startsWith (T @ ''/'' @ fp) (T @ ''/'')"
    using startsWith_append [of "T @ ''/''" fp] by simp
  show ?thesis
    using short long
    by (simp add: extractFolderPath_def newTags_def buildTagsForPath_def other betterTag_def Let_def)
qed

text \<open>
  The resolution of the folder paths, read off the calls and the stored entry. In a run
  that completes, for a mapped entry present on both sides: when the browser's folder
  path and the path decoded from the Linkding tags both differ from the remembered path
  and from each other, the entry stored for the key records the browser's path, and a
  PUT to the Linkding bookmark carries the tags that encode the browser's path followed
  by the bookmark's other tags; these tags decode to the browser's path. When only the
  browser's path differs from the remembered one the same holds. When only the Linkding
  path differs, the stored entry records the Linkding path and the browser bookmark is
  moved; where the move puts the bookmark is the subject of \<^verbatim>\<open>remote_move_lands\<close> below.
\<close>

theorem path_resolution:
  assumes run: "runTwoWaySync api cfg snap now w = (Inr res, s')"
    and d: "distinct (map fst (storedMapping snap))"
    and m: "(key, entry) \<in> set (storedMapping snap)"
    and c: "localAt snap key = Some cbm"
    and l: "remoteAt cfg snap key = Some ld"
  shows "\<exists>m' e' root. saved s' = Some m' \<and> map_of m' key = Some e'
     \<and> truthy (twoWaySyncFolderId cfg) = Some root
     \<and> (c_folderPath cbm \<noteq> folderPath entry
         \<and> extractFolderPath (twoWaySyncTag cfg) (ld_tag_names ld) \<noteq> folderPath entry
         \<and> c_folderPath cbm \<noteq> extractFolderPath (twoWaySyncTag cfg) (ld_tag_names ld)
        \<longrightarrow> folderPath e' = c_folderPath cbm
          \<and> (\<exists>body. LdPut (ld_id ld) body \<in> set (calls s')
                \<and> b_tag_names body = Some (newTags (twoWaySyncTag cfg) (c_folderPath cbm) ld))
          \<and> extractFolderPath (twoWaySyncTag cfg)
               (newTags (twoWaySyncTag cfg) (c_folderPath cbm) ld) = c_folderPath cbm)
     \<and> (c_folderPath cbm \<noteq> folderPath entry
         \<and> extractFolderPath (twoWaySyncTag cfg) (ld_tag_names ld) = folderPath entry
        \<longrightarrow> folderPath e' = c_folderPath cbm
          \<and> (\<exists>body. LdPut (ld_id ld) body \<in> set (calls s')
                \<and> b_tag_names body = Some (newTags (twoWaySyncTag cfg) (c_folderPath cbm) ld))
          \<and> extractFolderPath (twoWaySyncTag cfg)
               (newTags (twoWaySyncTag cfg) (c_folderPath cbm) ld) = c_folderPath cbm)
     \<and> (c_folderPath cbm = folderPath entry
         \<and> extractFolderPath (twoWaySyncTag cfg) (ld_tag_names ld) \<noteq> folderPath entry
        \<longrightarrow> folderPath e' = extractFolderPath (twoWaySyncTag cfg) (ld_tag_names ld)
          \<and> (\<exists>p s1 s2. ensureFolderPath api root
                  (extractFolderPath (twoWaySyncTag cfg) (ld_tag_names ld)) s1 = (Inr p, s2)
                \<and> Move (c_id cbm) p \<in> set (calls s')))"
proof -
  let ?T = "twoWaySyncTag cfg"
  let ?r = "resolve ?T entry cbm ld"
  from run_mapped_both [OF run d m c l] obtain root where
      root: "truthy (twoWaySyncFolderId cfg) = Some root"
    and sv: "saved s' = Some (newMapping s')"
    and st: "map_of (newMapping s') key = Some (storedEntry now key entry cbm ld ?r)"
    and put: "needsLdUpdate ?r \<Longrightarrow> LdPut (ld_id ld) \<lparr>b_url = truthy (Some (ld_url ld)),
          b_title = truthy (Some (finalTitle ?r)), b_description = None,
          b_tag_names = Some (newTags ?T (finalFolderPath ?r) ld)\<rparr> \<in> set (calls s')"
    and mv: "needsChromeUpdate ?r \<and> finalFolderPath ?r \<noteq> c_folderPath cbm
           \<Longrightarrow> \<exists>p s1 s2. ensureFolderPath api root (finalFolderPath ?r) s1 = (Inr p, s2)
                 \<and> Move (c_id cbm) p \<in> set (calls s')"
    by blast
  have local: "folderPath (storedEntry now key entry cbm ld ?r) = c_folderPath cbm
      \<and> (\<exists>body. LdPut (ld_id ld) body \<in> set (calls s')
            \<and> b_tag_names body = Some (newTags ?T (c_folderPath cbm) ld))"
    if "c_folderPath cbm \<noteq> folderPath entry"
  proof -
    from that have n: "needsLdUpdate ?r" and f: "finalFolderPath ?r = c_folderPath cbm"
      by (simp_all add: resolve_needsLd resolve_path)
    from put [OF n] f have "\<exists>body. LdPut (ld_id ld) body \<in> set (calls s')
            \<and> b_tag_names body = Some (newTags ?T (c_folderPath cbm) ld)"
      by (intro exI [of _ "\<lparr>b_url = truthy (Some (ld_url ld)),
          b_title = truthy (Some (finalTitle ?r)), b_description = None,
          b_tag_names = Some (newTags ?T (c_folderPath cbm) ld)\<rparr>"]) simp
    with n f show ?thesis by (simp add: storedEntry_def mergedEntry_def)
  qed
  have remote: "folderPath (storedEntry now key entry cbm ld ?r) = extractFolderPath ?T (ld_tag_names ld)
      \<and> (\<exists>p s1 s2. ensureFolderPath api root (extractFolderPath ?T (ld_tag_names ld)) s1 = (Inr p, s2)
                \<and> Move (c_id cbm) p \<in> set (calls s'))"
    if "c_folderPath cbm = folderPath entry" "extractFolderPath ?T (ld_tag_names ld) \<noteq> folderPath entry"
  proof -
    from that have n: "needsChromeUpdate ?r"
      and f: "finalFolderPath ?r = extractFolderPath ?T (ld_tag_names ld)"
      by (simp_all add: resolve_needsChrome resolve_path)
    from that f have "finalFolderPath ?r \<noteq> c_folderPath cbm" by simp
    with mv n f show ?thesis by (simp add: storedEntry_def mergedEntry_def)
  qed
  show ?thesis
    using root sv st local remote extract_newTags [of ?T "c_folderPath cbm" ld]
    by (intro exI [of _ "newMapping s'"] exI [of _ "storedEntry now key entry cbm ld ?r"]
        exI [of _ root]) simp
qed







text \<open>The moved snapshot: the browser's folder \<open>Work\<close> wins over the tag of \<open>Read\<close>.\<close>

theorem path_resolution_witness:
  "fst (runTwoWaySync accepting exampleSettings movedSnapshot 100 0)
      = Inr \<lparr>res_added = 0, res_removed = 0, res_updated = 1, res_total = 1\<rparr>
   \<and> distinct (map fst (storedMapping movedSnapshot))
   \<and> (exampleUrl, rememberedEntry) \<in> set (storedMapping movedSnapshot)
   \<and> localAt movedSnapshot exampleUrl = Some movedLocal
   \<and> remoteAt exampleSettings movedSnapshot exampleUrl = Some movedRemote
   \<and> (\<exists>m' e'. saved (snd (runTwoWaySync accepting exampleSettings movedSnapshot 100 0)) = Some m'
         \<and> map_of m' exampleUrl = Some e' \<and> folderPath e' = ''Work''
         \<and> (\<exists>body. LdPut 7 body \<in> set (calls (snd (runTwoWaySync accepting exampleSettings movedSnapshot 100 0)))
               \<and> b_tag_names body = Some [''sync'', ''sync/Work'', ''keep'']))"
proof -
  let ?run = "runTwoWaySync accepting exampleSettings movedSnapshot 100 0"
  have r: "fst ?run = Inr \<lparr>res_added = 0, res_removed = 0, res_updated = 1, res_total = 1\<rparr>"
    by code_simp
  then have run: "?run = (Inr \<lparr>res_added = 0, res_removed = 0, res_updated = 1, res_total = 1\<rparr>, snd ?run)"
    by (cases ?run) simp
  have d: "distinct (map fst (storedMapping movedSnapshot))" by code_simp
  have m: "(exampleUrl, rememberedEntry) \<in> set (storedMapping movedSnapshot)" by code_simp
  have c: "localAt movedSnapshot exampleUrl = Some movedLocal" by code_simp
  have l: "remoteAt exampleSettings movedSnapshot exampleUrl = Some movedRemote" by code_simp
  have paths: "c_folderPath movedLocal = ''Work''" "folderPath rememberedEntry = ''Old''"
    "extractFolderPath (twoWaySyncTag exampleSettings) (ld_tag_names movedRemote) = ''Read''"
    "newTags (twoWaySyncTag exampleSettings) ''Work'' movedRemote = [''sync'', ''sync/Work'', ''keep'']"
    "ld_id movedRemote = 7"
    by code_simp+
  from path_resolution [OF run d m c l] r d m c l show ?thesis
    unfolding paths by (simp del: distinct.simps) blast
qed











lemma resolve_unchanged:
  "\<not> needsLdUpdate (resolve T entry cbm ld) \<and> \<not> needsChromeUpdate (resolve T entry cbm ld)
     \<longleftrightarrow> c_title cbm = title entry \<and> orElse (ld_title ld) (ld_url ld) = title entry
        \<and> c_folderPath cbm = folderPath entry
        \<and> extractFolderPath T (ld_tag_names ld) = folderPath entry"
  unfolding resolve_needsLd resolve_needsChrome by auto




text \<open>
  The resolution of the titles, for a mapped entry present on both sides in a run that
  completes. The title the code reads from Linkding is \<^verbatim>\<open>ld.title || ld.url\<close>: the URL
  stands in for an empty title. When only the browser's title differs from the
  remembered title, the stored entry records the browser's title and a PUT to the
  Linkding bookmark is sent, which carries that title when it is not empty and no title
  when it is empty. When only the title read from Linkding differs, the stored entry
  records it and the browser bookmark is renamed to it. When both differ, the title read
  from Linkding wins if the Linkding modification time is later than the entry's
  \<open>lastSynced\<close> (the browser bookmark is renamed unless it has that title already), and
  otherwise the browser's title wins as in the first case.
\<close>

theorem title_resolution:
  assumes run: "runTwoWaySync api cfg snap now w = (Inr res, s')"
    and d: "distinct (map fst (storedMapping snap))"
    and m: "(key, entry) \<in> set (storedMapping snap)"
    and c: "localAt snap key = Some cbm"
    and l: "remoteAt cfg snap key = Some ld"
  shows "\<exists>m' e'. saved s' = Some m' \<and> map_of m' key = Some e'
     \<and> (c_title cbm \<noteq> title entry \<and> orElse (ld_title ld) (ld_url ld) = title entry
        \<longrightarrow> title e' = c_title cbm
          \<and> (\<exists>body. LdPut (ld_id ld) body \<in> set (calls s')
                \<and> b_title body = (if c_title cbm = [] then None else Some (c_title cbm))))
     \<and> (orElse (ld_title ld) (ld_url ld) \<noteq> title entry \<and> c_title cbm = title entry
        \<longrightarrow> title e' = orElse (ld_title ld) (ld_url ld)
          \<and> UpdateTitle (c_id cbm) (orElse (ld_title ld) (ld_url ld)) \<in> set (calls s'))
     \<and> (orElse (ld_title ld) (ld_url ld) \<noteq> title entry \<and> c_title cbm \<noteq> title entry
         \<and> (case ld_date_modified ld of Some d \<Rightarrow> d | None \<Rightarrow> 0) > lastSynced entry
        \<longrightarrow> title e' = orElse (ld_title ld) (ld_url ld)
          \<and> (orElse (ld_title ld) (ld_url ld) = c_title cbm
              \<or> UpdateTitle (c_id cbm) (orElse (ld_title ld) (ld_url ld)) \<in> set (calls s')))
     \<and> (orElse (ld_title ld) (ld_url ld) \<noteq> title entry \<and> c_title cbm \<noteq> title entry
         \<and> (case ld_date_modified ld of Some d \<Rightarrow> d | None \<Rightarrow> 0) \<le> lastSynced entry
        \<longrightarrow> title e' = c_title cbm
          \<and> (\<exists>body. LdPut (ld_id ld) body \<in> set (calls s')
                \<and> b_title body = (if c_title cbm = [] then None else Some (c_title cbm))))"
proof -
  let ?T = "twoWaySyncTag cfg"
  let ?r = "resolve ?T entry cbm ld"
  let ?ldTitle = "orElse (ld_title ld) (ld_url ld)"
  let ?ldDate = "case ld_date_modified ld of Some d \<Rightarrow> d | None \<Rightarrow> 0"
  let ?e = "storedEntry now key entry cbm ld ?r"
  from run_mapped_both [OF run d m c l] obtain root where
      sv: "saved s' = Some (newMapping s')"
    and st: "map_of (newMapping s') key = Some ?e"
    and put: "needsLdUpdate ?r \<Longrightarrow> LdPut (ld_id ld) \<lparr>b_url = truthy (Some (ld_url ld)),
          b_title = truthy (Some (finalTitle ?r)), b_description = None,
          b_tag_names = Some (newTags ?T (finalFolderPath ?r) ld)\<rparr> \<in> set (calls s')"
    and upd: "needsChromeUpdate ?r \<and> finalTitle ?r \<noteq> c_title cbm
           \<Longrightarrow> UpdateTitle (c_id cbm) (finalTitle ?r) \<in> set (calls s')"
    by blast
  have local: "title ?e = c_title cbm
      \<and> (\<exists>body. LdPut (ld_id ld) body \<in> set (calls s')
            \<and> b_title body = (if c_title cbm = [] then None else Some (c_title cbm)))"
    if "c_title cbm \<noteq> title entry" "?ldTitle = title entry \<or> ?ldDate \<le> lastSynced entry"
  proof -
    from that have n: "needsLdUpdate ?r" and f: "finalTitle ?r = c_title cbm"
      by (auto simp: resolve_needsLd resolve_title)
    from put [OF n] f have "\<exists>body. LdPut (ld_id ld) body \<in> set (calls s')
            \<and> b_title body = (if c_title cbm = [] then None else Some (c_title cbm))"
      by (intro exI [of _ "\<lparr>b_url = truthy (Some (ld_url ld)),
          b_title = truthy (Some (c_title cbm)), b_description = None,
          b_tag_names = Some (newTags ?T (finalFolderPath ?r) ld)\<rparr>"]) (simp add: truthy_def)
    with n f show ?thesis by (simp add: storedEntry_def mergedEntry_def)
  qed
  have remote: "title ?e = ?ldTitle
      \<and> (?ldTitle = c_title cbm \<or> UpdateTitle (c_id cbm) ?ldTitle \<in> set (calls s'))"
    if "?ldTitle \<noteq> title entry" "c_title cbm = title entry \<or> ?ldDate > lastSynced entry"
  proof -
    from that have n: "needsChromeUpdate ?r" and f: "finalTitle ?r = ?ldTitle"
      by (auto simp: resolve_needsChrome resolve_title)
    with upd show ?thesis by (auto simp: storedEntry_def mergedEntry_def)
  qed
  show ?thesis
    using sv st local remote
    by (intro exI [of _ "newMapping s'"] exI [of _ ?e]) auto
qed

text \<open>The browser's title changed to \<open>New\<close>: it is stored and sent to Linkding.\<close>

theorem title_resolution_witness:
  "fst (runTwoWaySync accepting exampleSettings (renamedSnapshot ''New'') 100 0)
      = Inr \<lparr>res_added = 0, res_removed = 0, res_updated = 1, res_total = 1\<rparr>
   \<and> distinct (map fst (storedMapping (renamedSnapshot ''New'')))
   \<and> (exampleUrl, quietEntry) \<in> set (storedMapping (renamedSnapshot ''New''))
   \<and> localAt (renamedSnapshot ''New'') exampleUrl = Some (renamedLocal ''New'')
   \<and> remoteAt exampleSettings (renamedSnapshot ''New'') exampleUrl = Some quietRemote
   \<and> (\<exists>m' e'. saved (snd (runTwoWaySync accepting exampleSettings (renamedSnapshot ''New'') 100 0)) = Some m'
         \<and> map_of m' exampleUrl = Some e' \<and> title e' = ''New''
         \<and> (\<exists>body. LdPut 7 body
                 \<in> set (calls (snd (runTwoWaySync accepting exampleSettings (renamedSnapshot ''New'') 100 0)))
               \<and> b_title body = Some ''New''))"
proof -
  let ?run = "runTwoWaySync accepting exampleSettings (renamedSnapshot ''New'') 100 0"
  have r: "fst ?run = Inr \<lparr>res_added = 0, res_removed = 0, res_updated = 1, res_total = 1\<rparr>"
    by code_simp
  then have run: "?run = (Inr \<lparr>res_added = 0, res_removed = 0, res_updated = 1, res_total = 1\<rparr>, snd ?run)"
    by (cases ?run) simp
  have d: "distinct (map fst (storedMapping (renamedSnapshot ''New'')))" by code_simp
  have m: "(exampleUrl, quietEntry) \<in> set (storedMapping (renamedSnapshot ''New''))" by code_simp
  have c: "localAt (renamedSnapshot ''New'') exampleUrl = Some (renamedLocal ''New'')" by code_simp
  have l: "remoteAt exampleSettings (renamedSnapshot ''New'') exampleUrl = Some quietRemote" by code_simp
  have titles: "c_title (renamedLocal ''New'') = ''New''" "title quietEntry = ''A''"
    "orElse (ld_title quietRemote) (ld_url quietRemote) = ''A''" "ld_id quietRemote = 7"
    by code_simp+
  from title_resolution [OF run d m c l] r d m c l show ?thesis
    unfolding titles by (simp del: distinct.simps)
qed

text \<open>
  Claim C7 against the code. The browser's title was changed from \<open>A\<close> to the empty
  string and the Linkding title is still \<open>A\<close>: only the browser's side differs from
  the remembered title, so it wins. The reconciler passes the winning title to
  updateLinkdingBookmark (\<^verbatim>\<open>title: finalTitle\<close>) and records it in the entry, but
  updateLinkdingBookmark drops a falsy title from the request
  (\<^verbatim>\<open>if (title) bodyData.title = title\<close>): the one call of the run is a PUT without a
  title, the Linkding bookmark keeps the title \<open>A\<close>, and the entry says the agreed title
  is empty. The winning title is not propagated to the other side, where the claim says
  it is.
\<close>

theorem empty_title_not_sent:
  "localAt (renamedSnapshot []) exampleUrl = Some (renamedLocal [])
   \<and> remoteAt exampleSettings (renamedSnapshot []) exampleUrl = Some quietRemote
   \<and> storedMapping (renamedSnapshot []) = [(exampleUrl, quietEntry)]
   \<and> title quietEntry = ''A'' \<and> ld_title quietRemote = ''A'' \<and> c_title (renamedLocal []) = []
   \<and> calls (snd (runTwoWaySync accepting exampleSettings (renamedSnapshot []) 100 0))
      = [LdPut 7 \<lparr>b_url = Some exampleUrl, b_title = None, b_description = None,
                  b_tag_names = Some [''sync'', ''sync/Work'', ''keep'']\<rparr>]
   \<and> saved (snd (runTwoWaySync accepting exampleSettings (renamedSnapshot []) 100 0))
      = Some [(exampleUrl, quietEntry\<lparr>title := [], lastSynced := 100\<rparr>)]"
  by code_simp



text \<open>
  Claim C3 against the code. The key is mapped with the browser id 10, Linkding no
  longer has it, and the browser holds the URL under the id 11. The run asks the browser
  to remove the remembered id 10, which no longer exists; the failure is swallowed, the
  entry is dropped and counted as removed, and no call touches the bookmark 11: the
  local item is not removed, where the claim says it is. (The deletion on the Linkding
  side uses the id of the fetched bookmark, not the remembered one.)
\<close>

theorem stale_local_id_not_removed:
  "localAt staleIdSnapshot exampleUrl = Some \<lparr>c_id = ''11'', c_url = exampleUrl, c_title = ''A'',
       c_dateAdded = Some 70, c_folderPath = ''Work''\<rparr>
   \<and> remoteAt exampleSettings staleIdSnapshot exampleUrl = None
   \<and> storedMapping staleIdSnapshot = [(exampleUrl, quietEntry)]
   \<and> chromeId quietEntry = ''10''
   \<and> fst (runTwoWaySync (rejecting [Remove ''10'']) exampleSettings staleIdSnapshot 100 0)
      = Inr \<lparr>res_added = 0, res_removed = 1, res_updated = 0, res_total = 0\<rparr>
   \<and> calls (snd (runTwoWaySync (rejecting [Remove ''10'']) exampleSettings staleIdSnapshot 100 0))
      = [Remove ''10'']
   \<and> saved (snd (runTwoWaySync (rejecting [Remove ''10'']) exampleSettings staleIdSnapshot 100 0))
      = Some []"
  by code_simp







text \<open>
  Claim C8 against the code. Two bookmarks exist only in the browser and the creation
  of the first one in Linkding fails. In the mode \<^verbatim>\<open>merge\<close> the run aborts with that
  error: the second bookmark is never processed and no mapping is written. In the mode
  \<^verbatim>\<open>push\<close>, on the same input, the error is printed, the second bookmark is uploaded and
  mapped, and the run completes.
\<close>

theorem merge_aborts_on_item_error:
  "runInitialTwoWaySync (rejecting [firstPost]) exampleSettings twoLocalSnapshot ''merge'' 100 0
     = (Inl (CallFailed firstPost),
        \<lparr>world = 2, calls = [LdSearchConfig, firstPost], console = [], newMapping = [],
         added = 0, removed = 0, updated = 0, downloaded = 0, saved = None\<rparr>)
   \<and> fst (runInitialTwoWaySync (rejecting [firstPost]) exampleSettings twoLocalSnapshot ''push'' 100 0)
     = Inr \<lparr>i_added = 1, i_updated = 0, i_downloaded = 0, i_total = 1, i_configError = None\<rparr>
   \<and> console (snd (runInitialTwoWaySync (rejecting [firstPost]) exampleSettings twoLocalSnapshot ''push'' 100 0))
     = [CallFailed firstPost]
   \<and> map fst (newMapping (snd (runInitialTwoWaySync (rejecting [firstPost]) exampleSettings twoLocalSnapshot ''push'' 100 0)))
     = [otherUrl]"
  by code_simp






section \<open>The initial strategies keep an effect\<close>

lemma keeps_pushItem:
  assumes "\<And>ld. map_of ldByUrl (c_url cbm) = Some ld
              \<Longrightarrow> tagsDiffer ld (mergedTags ld (buildTagsForPath T (c_folderPath cbm)))
              \<Longrightarrow> P (LdPut (ld_id ld) \<lparr>b_url = truthy (Some (ld_url ld)),
                     b_title = truthy (Some (ld_title ld)), b_description = None,
                     b_tag_names = Some (mergedTags ld (buildTagsForPath T (c_folderPath cbm)))\<rparr>)"
    and "map_of ldByUrl (c_url cbm) = None
           \<Longrightarrow> P (LdPost (c_url cbm) (orElse (c_title cbm) (c_url cbm)) None
                  (buildTagsForPath T (c_folderPath cbm)))"
    and "\<And>i. (case map_of ldByUrl (c_url cbm) of None \<Rightarrow> True | Some ld \<Rightarrow> i = ld_id ld)
           \<Longrightarrow> Q (c_url cbm) (linked i cbm (c_title cbm) now)"
  shows "keeps (effect P Q) (pushItem api T now ldByUrl cbm)"
  unfolding pushItem_def Let_def
  using assms
  by (auto intro!: keeps_intros keeps_write split: option.splits)

lemma keeps_pullItem:
  assumes "\<And>c. isFolderCall c \<Longrightarrow> P c"
    and "\<And>p. P (CreateBookmark p (orElse (ld_title ld) (ld_url ld)) (ld_url ld))"
    and "\<And>i. Q (ld_url ld) \<lparr>linkdingId = ld_id ld, chromeId = i,
                 title = orElse (ld_title ld) (ld_url ld), url = ld_url ld,
                 folderPath = extractFolderPath T (ld_tag_names ld), lastSynced = now\<rparr>"
  shows "keeps (effect P Q) (pullItem api T root now ld)"
  unfolding pullItem_def Let_def
  using assms
  by (auto intro!: keeps_intros keeps_write)

lemma keeps_mergeBoth:
  assumes "\<And>t. t \<noteq> c_title cbm \<Longrightarrow> P (UpdateTitle (c_id cbm) t)"
    and "\<And>t. tagsDiffer ld (mergedTags ld (buildTagsForPath T (c_folderPath cbm)))
           \<Longrightarrow> P (LdPut (ld_id ld) \<lparr>b_url = truthy (Some (ld_url ld)),
                     b_title = truthy (Some t), b_description = None,
                     b_tag_names = Some (mergedTags ld (buildTagsForPath T (c_folderPath cbm)))\<rparr>)"
    and "\<And>t. Q key \<lparr>linkdingId = ld_id ld, chromeId = c_id cbm, title = t, url = key,
                    folderPath = c_folderPath cbm, lastSynced = now\<rparr>"
  shows "keeps (effect P Q) (mergeBoth api T now key ld cbm)"
  unfolding mergeBoth_def Let_def
  using assms
  by (auto intro!: keeps_intros keeps_write)

lemma keeps_mergeItem:
  assumes "\<And>ld cbm t. map_of ldByUrl key = Some ld \<Longrightarrow> map_of chromeByUrl key = Some cbm
             \<Longrightarrow> t \<noteq> c_title cbm \<Longrightarrow> P (UpdateTitle (c_id cbm) t)"
    and "\<And>ld cbm t. map_of ldByUrl key = Some ld \<Longrightarrow> map_of chromeByUrl key = Some cbm
           \<Longrightarrow> tagsDiffer ld (mergedTags ld (buildTagsForPath T (c_folderPath cbm)))
           \<Longrightarrow> P (LdPut (ld_id ld) \<lparr>b_url = truthy (Some (ld_url ld)),
                     b_title = truthy (Some t), b_description = None,
                     b_tag_names = Some (mergedTags ld (buildTagsForPath T (c_folderPath cbm)))\<rparr>)"
    and "\<And>cbm. map_of ldByUrl key = None \<Longrightarrow> map_of chromeByUrl key = Some cbm
           \<Longrightarrow> P (LdPost (c_url cbm) (orElse (c_title cbm) (c_url cbm)) None
                  (buildTagsForPath T (c_folderPath cbm)))"
    and "\<And>ld c. map_of ldByUrl key = Some ld \<Longrightarrow> map_of chromeByUrl key = None
           \<Longrightarrow> isFolderCall c \<Longrightarrow> P c"
    and "\<And>ld p. map_of ldByUrl key = Some ld \<Longrightarrow> map_of chromeByUrl key = None
           \<Longrightarrow> P (CreateBookmark p (orElse (ld_title ld) (ld_url ld)) (ld_url ld))"
    and "\<And>v. (case map_of ldByUrl key of None \<Rightarrow> True | Some ld \<Rightarrow> linkdingId v = ld_id ld)
           \<Longrightarrow> (case map_of chromeByUrl key of None \<Rightarrow> True | Some cbm \<Rightarrow> chromeId v = c_id cbm)
           \<Longrightarrow> Q key v"
  shows "keeps (effect P Q) (mergeItem api T root now ldByUrl chromeByUrl key)"
  unfolding mergeItem_def Let_def
  using assms
  by (auto intro!: keeps_intros keeps_write keeps_mergeBoth split: option.splits)

lemma keeps_removeChildrenOf:
  assumes "P (GetChildren folderId)" "\<And>i. P (Remove i)" "\<And>i. P (RemoveTree i)"
  shows "keeps (effect P Q) (removeChildrenOf api folderId)"
  unfolding removeChildrenOf_def removeChild_def
  using assms
  by (auto intro!: keeps_intros split: node.splits)

section \<open>Updates of Linkding bookmarks and their tags\<close>

lemma set_uniqueInOrder: "set (uniqueInOrder xs) = set xs"
proof -
  have "set (foldl (\<lambda>acc x. if x \<in> set acc then acc else acc @ [x]) acc xs) = set acc \<union> set xs" for acc
    by (induction xs arbitrary: acc) auto
  then show ?thesis by (simp add: uniqueInOrder_def)
qed

lemma distinct_uniqueInOrder: "distinct (uniqueInOrder xs)"
proof -
  have "distinct acc \<Longrightarrow> distinct (foldl (\<lambda>acc x. if x \<in> set acc then acc else acc @ [x]) acc xs)" for acc
    by (induction xs arbitrary: acc) auto
  then show ?thesis by (simp add: uniqueInOrder_def)
qed

lemma mergedTags_superset: "set (ld_tag_names ld) \<subseteq> set (mergedTags ld tags)"
  by (simp add: mergedTags_def set_uniqueInOrder)

lemma effect_console:
  "effect P Q s s1 \<Longrightarrow> effect P Q s (s1\<lparr>console := x\<rparr>)"
  by (erule effect_then_same) simp_all

lemma keeps_saveConfig:
  assumes "\<And>i. P (LdPut i \<lparr>b_url = None, b_title = None, b_description = Some order,
                      b_tag_names = None\<rparr>)"
    and "P (LdPost CONFIG_URL CONFIG_TITLE (Some order) [''bookmark-sync-config''])"
  shows "keeps (effect P Q) (saveConfig api order existingId)"
  unfolding keeps_def
proof
  fix s
  show "effect P Q s (snd (saveConfig api order existingId s))"
  proof (cases existingId)
    case None
    obtain r s1 where c: "createLinkdingBookmark api CONFIG_URL CONFIG_TITLE (Some order)
        [''bookmark-sync-config''] s = (r, s1)"
      by (cases "createLinkdingBookmark api CONFIG_URL CONFIG_TITLE (Some order)
        [''bookmark-sync-config''] s")
    have "orElse CONFIG_TITLE CONFIG_URL = CONFIG_TITLE"
      by (simp add: orElse_def CONFIG_TITLE_def)
    with assms(2) have "keeps (effect P Q) (createLinkdingBookmark api CONFIG_URL CONFIG_TITLE
        (Some order) [''bookmark-sync-config''])"
      by (intro keeps_createLinkdingBookmark) simp
    from keepsD [OF this c] have "effect P Q s s1" .
    with c None show ?thesis
      by (cases r) (simp_all add: saveConfig_def effect_console)
  next
    case (Some i)
    obtain r s1 where c: "updateLinkdingBookmark api i None None (Some order) None s = (r, s1)"
      by (cases "updateLinkdingBookmark api i None None (Some order) None s")
    from assms(1) [of i] have "keeps (effect P Q) (updateLinkdingBookmark api i None None (Some order) None)"
      by (intro keeps_updateLinkdingBookmark) (simp add: truthy_def)
    from keepsD [OF this c] have "effect P Q s s1" .
    with c Some show ?thesis
      by (cases r) (simp_all add: saveConfig_def effect_console)
  qed
qed

lemma keeps_initialConfig:
  assumes "P (GetChildren root)" "P LdSearchConfig"
    and "\<And>i order. P (LdPut i \<lparr>b_url = None, b_title = None, b_description = Some order,
                      b_tag_names = None\<rparr>)"
    and "\<And>order. P (LdPost CONFIG_URL CONFIG_TITLE (Some order) [''bookmark-sync-config''])"
  shows "keeps (effect P Q) (initialConfig api root)"
  unfolding keeps_def
proof
  fix s
  obtain g s1 where g: "getChildren api root s = (g, s1)" by (cases "getChildren api root s")
  from keepsD [OF keeps_getChildren g, of P Q] assms(1) have e1: "effect P Q s s1" by simp
  show "effect P Q s (snd (initialConfig api root s))"
  proof (cases g)
    case (Inl e)
    with g e1 show ?thesis by (simp add: initialConfig_def effect_console)
  next
    case (Inr nodes)
    obtain r s2 where i: "invoke api LdSearchConfig s1 = (r, s2)"
      by (cases "invoke api LdSearchConfig s1")
    from keepsD [OF keeps_invoke i, of P Q] assms(2) have "effect P Q s1 s2" by simp
    with e1 have e2: "effect P Q s s2" by (rule effect_trans)
    let ?order = "map c_url (getChromeBookmarksRecursive nodes [])"
    let ?s2 = "if r = HttpError then s2\<lparr>console := console s2 @ [CallFailed LdSearchConfig]\<rparr> else s2"
    let ?id = "case r of SearchHit i order \<Rightarrow> Some i | other \<Rightarrow> None"
    have e2': "effect P Q s ?s2" using e2 by (simp add: effect_console)
    obtain v s3 where sc: "saveConfig api ?order ?id ?s2 = (v, s3)"
      by (cases "saveConfig api ?order ?id ?s2")
    have "keeps (effect P Q) (saveConfig api ?order ?id)"
      by (rule keeps_saveConfig) (rule assms)+
    from keepsD [OF this sc] e2' have e3: "effect P Q s s3" by (blast intro: effect_trans)
    show ?thesis
    proof (cases "r = Thrown")
      case True
      with g Inr i e2 show ?thesis by (simp add: initialConfig_def effect_console)
    next
      case False
      with g Inr i sc e3 show ?thesis
        by (cases r; cases v) (simp_all add: initialConfig_def Let_def effect_console)
    qed
  qed
qed

lemma keeps_after_fetchConfig:
  assumes "P LdSearchConfig" and "\<And>config. keeps (effect P Q) (g config)"
  shows "keeps (effect P Q) (\<lambda>s. case fetchConfig api s of (config, s1) \<Rightarrow> g config s1)"
  unfolding keeps_def
proof
  fix s
  obtain config s1 where f: "fetchConfig api s = (config, s1)" by (cases "fetchConfig api s")
  from keepsD [OF keeps_fetchConfig f, of P Q] assms(1) have "effect P Q s s1" by simp
  moreover from assms(2) [of config] have "effect P Q s1 (snd (g config s1))"
    by (simp add: keeps_def)
  ultimately show "effect P Q s (snd (case fetchConfig api s of (config, s1) \<Rightarrow> g config s1))"
    using f by (auto intro: effect_trans)
qed

lemma set_sortByOrder: "set (sortByOrder order key xs) = set xs"
  by (simp add: sortByOrder_def)

lemma distinct_sortByOrder: "distinct (sortByOrder order key xs) = distinct xs"
  by (simp add: sortByOrder_def)

lemma keeps_strategy:
  assumes "P LdSearchConfig" "P (GetChildren root)" "\<And>i. P (Remove i)" "\<And>i. P (RemoveTree i)"
    and "\<And>cbm. cbm \<in> set cbs \<Longrightarrow> keeps (effect P Q) (pushItem api T now (indexLd lds) cbm)"
    and "\<And>ld. ld \<in> set lds \<Longrightarrow> keeps (effect P Q) (pullItem api T root now ld)"
    and "\<And>k. keeps (effect P Q) (mergeItem api T root now (indexLd lds) (indexChrome cbs) k)"
  shows "keeps (effect P Q) (strategy api mode T root now lds cbs)"
proof -
  have push: "keeps (effect P Q) (pushStrategy api T now lds cbs)"
    unfolding pushStrategy_def by (rule keeps_processBatch) (rule assms(5))
  have "keeps (effect P Q) (\<lambda>s. case fetchConfig api s of (config, s1) \<Rightarrow>
          andThen (removeChildrenOf api root)
              (\<lambda>u. processBatch (pullItem api T root now)
                 (case config of Some order \<Rightarrow> sortByOrder order ld_url lds | None \<Rightarrow> lds)) s1)"
    using assms(1-4,6)
    by (intro keeps_after_fetchConfig keeps_effect_andThen keeps_removeChildrenOf keeps_processBatch)
       (auto simp: set_sortByOrder split: option.splits)
  then have pull: "keeps (effect P Q) (pullStrategy api T root now lds)"
    by (simp add: pullStrategy_def [abs_def] Let_def)
  have "keeps (effect P Q) (\<lambda>s. case fetchConfig api s of (config, s1) \<Rightarrow>
          forEach (mergeItem api T root now (indexLd lds) (indexChrome cbs))
            (if length (case config of Some order \<Rightarrow> order | None \<Rightarrow> []) > 0
             then sortByOrder (case config of Some order \<Rightarrow> order | None \<Rightarrow> []) (\<lambda>u. u)
                    (uniqueInOrder (map fst (indexLd lds) @ map fst (indexChrome cbs)))
             else uniqueInOrder (map fst (indexLd lds) @ map fst (indexChrome cbs))) s1)"
    using assms(1,7)
    by (intro keeps_after_fetchConfig keeps_effect_forEach) auto
  then have merge: "keeps (effect P Q) (mergeStrategy api T root now lds cbs)"
    by (simp add: mergeStrategy_def [abs_def] Let_def)
  show ?thesis
    unfolding strategy_def using push pull merge by (simp add: keeps_effect_ret)
qed

lemma runInitialTwoWaySync_effect:
  assumes "\<And>root. keeps (effect P Q) (strategy api mode (twoWaySyncTag cfg) root now
              (remoteItems cfg snap) (localItems snap))"
    and "\<And>root. keeps (effect P Q) (initialConfig api root)"
  shows "effect P Q (startRun w) (snd (runInitialTwoWaySync api cfg snap mode now w))"
proof (cases "s_url cfg = [] \<or> s_token cfg = [] \<or> truthy (twoWaySyncFolderId cfg) = None
    \<or> \<not> folderExists snap \<or> fetched snap = None")
  case True
  then show ?thesis
    by (auto simp: runInitialTwoWaySync_def effect_refl split: option.splits)
next
  case False
  then obtain root all where root: "truthy (twoWaySyncFolderId cfg) = Some root"
    and f: "fetched snap = Some all" by auto
  let ?st = "strategy api mode (twoWaySyncTag cfg) root now (remoteItems cfg snap) (localItems snap)"
  obtain r s1 where st: "?st (startRun w) = (r, s1)" by (cases "?st (startRun w)")
  from keepsD [OF assms(1) st] have e1: "effect P Q (startRun w) s1" .
  show ?thesis
  proof (cases r)
    case (Inl e)
    with False root f st e1 show ?thesis
      by (simp add: runInitialTwoWaySync_def remoteItems_def localItems_def)
  next
    case (Inr u)
    obtain ce s2 where ic: "initialConfig api root (s1\<lparr>saved := Some (newMapping s1)\<rparr>) = (ce, s2)"
      by (cases "initialConfig api root (s1\<lparr>saved := Some (newMapping s1)\<rparr>)")
    have "effect P Q (startRun w) (s1\<lparr>saved := Some (newMapping s1)\<rparr>)"
      using e1 by (rule effect_then_same) simp_all
    with keepsD [OF assms(2) ic] have "effect P Q (startRun w) s2" by (blast intro: effect_trans)
    with False root f st Inr ic show ?thesis
      by (simp add: runInitialTwoWaySync_def remoteItems_def localItems_def)
  qed
qed

section \<open>Linking instead of creating\<close>

lemma writeAll_key_stays: "map_of m k \<noteq> None \<Longrightarrow> map_of (writeAll m kvs) k \<noteq> None"
  by (induction kvs arbitrary: m) (simp_all add: update_conv')

lemma effect_key_stays:
  "effect P Q s s' \<Longrightarrow> map_of (newMapping s) k \<noteq> None \<Longrightarrow> map_of (newMapping s') k \<noteq> None"
  unfolding effect_def using writeAll_key_stays [of "newMapping s" k] by metis

lemma one_entry:
  "distinct (map fst m) \<Longrightarrow> map_of m k = Some v \<Longrightarrow> length (filter (\<lambda>kv. fst kv = k) m) = 1"
proof (induction m)
  case Nil
  then show ?case by simp
next
  case (Cons kv m)
  show ?case
  proof (cases "fst kv = k")
    case True
    with Cons.prems(1) have "k \<notin> fst ` set m" by auto
    then have "filter (\<lambda>kv. fst kv = k) m = []" by (auto simp: filter_empty_conv)
    with True show ?thesis by simp
  next
    case False
    with Cons show ?thesis by (cases kv) auto
  qed
qed

lemma mergeBoth_Inr:
  assumes "mergeBoth api T now key ld cbm s = (Inr x, s')"
  shows "\<exists>e. map_of (newMapping s') key = Some e \<and> linkdingId e = ld_id ld \<and> chromeId e = c_id cbm"
  using assms
  by (auto simp: mergeBoth_def Let_def andThen_Inr update_conv')

lemma newInChrome_link_Inr:
  assumes ok: "newInChrome api T now mapping ldByUrl cbm s = (Inr x, s')"
    and nm: "map_of mapping (c_url cbm) = None"
    and l: "map_of ldByUrl (c_url cbm) = Some ld"
  shows "(\<exists>e. map_of (newMapping s') (c_url cbm) = Some e \<and> linkdingId e = ld_id ld)
     \<and> (tagsDiffer ld (mergedTags ld (buildTagsForPath T (c_folderPath cbm)))
          \<longrightarrow> (\<exists>body. LdPut (ld_id ld) body \<in> set (calls s')
                \<and> b_tag_names body = Some (mergedTags ld (buildTagsForPath T (c_folderPath cbm)))))"
proof (cases "tagsDiffer ld (mergedTags ld (buildTagsForPath T (c_folderPath cbm)))")
  case True
  let ?c = "LdPut (ld_id ld) \<lparr>b_url = truthy (Some (ld_url ld)), b_title = truthy (Some (ld_title ld)),
       b_description = None,
       b_tag_names = Some (mergedTags ld (buildTagsForPath T (c_folderPath cbm)))\<rparr>"
  from ok nm l True obtain s1 where p: "perform api ?c s = (Inr (), s1)"
    and s': "s' = s1\<lparr>newMapping := AList.update (c_url cbm)
                    \<lparr>linkdingId = ld_id ld, chromeId = c_id cbm, title = c_title cbm,
                     url = c_url cbm, folderPath = c_folderPath cbm, lastSynced = now\<rparr>
                    (newMapping s1)\<rparr>"
    by (auto simp: newInChrome_def Let_def andThen_Inr updateLinkdingBookmark_def)
  from performed [OF p] s' have "?c \<in> set (calls s')" by simp
  then have "\<exists>body. LdPut (ld_id ld) body \<in> set (calls s')
       \<and> b_tag_names body = Some (mergedTags ld (buildTagsForPath T (c_folderPath cbm)))"
    by (intro exI [of _ "\<lparr>b_url = truthy (Some (ld_url ld)), b_title = truthy (Some (ld_title ld)),
       b_description = None,
       b_tag_names = Some (mergedTags ld (buildTagsForPath T (c_folderPath cbm)))\<rparr>"]) simp
  with s' show ?thesis by (simp add: update_conv')
next
  case False
  with ok nm l show ?thesis
    by (auto simp: newInChrome_def Let_def andThen_Inr ret_def update_conv')
qed

lemma not_createsUrl_folder: "isFolderCall c \<Longrightarrow> \<not> createsUrl u c"
  by (cases c) simp_all

text \<open>No step of the reconciler creates an item for a URL that both sides hold.\<close>

lemma keeps_reconcile_steps:
  assumes l: "map_of (indexLd lds) u = Some ld" and c: "map_of (indexChrome cbs) u = Some cbm"
    and nm: "map_of mapping u = None"
  defines "P \<equiv> \<lambda>c. \<not> createsUrl u c"
    and "Q \<equiv> \<lambda>k v. k = u \<longrightarrow> linkdingId v = ld_id ld"
  shows "keeps (effect P Q) (newInChrome api T now mapping (indexLd lds) cbm')"
    and "keeps (effect P Q) (newInLinkding api T root now mapping (indexChrome cbs) ld')"
    and "ke \<in> set mapping \<Longrightarrow> keeps (effect P Q)
           (processMapped api T root now (indexLd lds) (indexChrome cbs) ke)"
proof -
  show "keeps (effect P Q) (newInChrome api T now mapping (indexLd lds) cbm')"
    using l by (intro keeps_newInChrome) (auto simp: P_def Q_def)
  show "keeps (effect P Q) (newInLinkding api T root now mapping (indexChrome cbs) ld')"
    using c by (intro keeps_newInLinkding) (auto simp: P_def Q_def not_createsUrl_folder)
  show "keeps (effect P Q) (processMapped api T root now (indexLd lds) (indexChrome cbs) ke)"
    if "ke \<in> set mapping"
  proof -
    obtain key entry where ke: "ke = (key, entry)" by (cases ke)
    with that nm have "key \<noteq> u"
      by (auto simp: map_of_eq_None_iff image_iff)
    then show ?thesis
      unfolding ke by (intro keeps_processMapped) (auto simp: P_def Q_def not_createsUrl_folder)
  qed
qed

lemma reconcile_links:
  assumes run: "reconcile api T root now mapping lds cbs (startRun w) = (Inr res, s')"
    and l: "map_of (indexLd lds) u = Some ld" and c: "map_of (indexChrome cbs) u = Some cbm"
    and nm: "map_of mapping u = None"
  shows "\<exists>m e. saved s' = Some m \<and> length (filter (\<lambda>kv. fst kv = u) m) = 1
      \<and> map_of m u = Some e \<and> linkdingId e = ld_id ld
      \<and> (\<forall>c\<in>set (calls s'). \<not> createsUrl u c)
      \<and> (tagsDiffer ld (mergedTags ld (buildTagsForPath T (c_folderPath cbm)))
          \<longrightarrow> (\<exists>body. LdPut (ld_id ld) body \<in> set (calls s')
                \<and> b_tag_names body = Some (mergedTags ld (buildTagsForPath T (c_folderPath cbm)))))"
proof -
  let ?P = "\<lambda>c. \<not> createsUrl u c"
  let ?Q = "\<lambda>k v. k = u \<longrightarrow> linkdingId v = ld_id ld"
  let ?f1 = "newInChrome api T now mapping (indexLd lds)"
  let ?f2 = "newInLinkding api T root now mapping (indexChrome cbs)"
  let ?f3 = "processMapped api T root now (indexLd lds) (indexChrome cbs)"
  note steps = keeps_reconcile_steps [OF l c nm]
  from reconcile_Inr [OF run] obtain s1 s2 s3 where
      l1: "forEach ?f1 cbs (startRun w) = (Inr (), s1)"
    and l2: "forEach ?f2 lds s1 = (Inr (), s2)"
    and l3: "forEach ?f3 mapping s2 = (Inr (), s3)"
    and fin: "s' = s3\<lparr>saved := Some (newMapping s3)\<rparr>"
    by blast
  from c have cm: "cbm \<in> set cbs" and cu: "c_url cbm = u" by (auto dest: indexChrome_Some)
  from cm obtain pre post where sp: "cbs = pre @ cbm # post" by (auto dest: split_list)
  from l1 sp obtain s0 sa sb where
      l0: "forEach ?f1 pre (startRun w) = (Inr (), s0)"
    and step: "?f1 cbm sa = (Inr (), sb)"
    and rest: "forEach ?f1 post sb = (Inr (), s1)"
    by (auto simp: forEach_append_Inr forEach_Cons_Inr simp del: forEach.simps)
  from newInChrome_link_Inr [OF step] nm l cu
  have at_sb: "\<exists>e. map_of (newMapping sb) u = Some e \<and> linkdingId e = ld_id ld"
    and put_sb: "tagsDiffer ld (mergedTags ld (buildTagsForPath T (c_folderPath cbm)))
          \<Longrightarrow> \<exists>body. LdPut (ld_id ld) body \<in> set (calls sb)
                \<and> b_tag_names body = Some (mergedTags ld (buildTagsForPath T (c_folderPath cbm)))"
    by auto
  have k1: "keeps (effect ?P ?Q) (forEach ?f1 xs)" for xs
    by (intro keeps_effect_forEach steps)
  have k2: "keeps (effect ?P ?Q) (forEach ?f2 lds)"
    by (intro keeps_effect_forEach steps)
  have k3: "keeps (effect ?P ?Q) (forEach ?f3 mapping)"
    by (intro keeps_effect_forEach steps)
  have e_sb_s3: "effect ?P ?Q sb s3"
    using keepsD [OF k1 rest] keepsD [OF k2 l2] keepsD [OF k3 l3] by (blast intro: effect_trans)
  have e_all: "effect ?P ?Q (startRun w) s3"
    using keepsD [OF k1 l1] keepsD [OF k2 l2] keepsD [OF k3 l3] by (blast intro: effect_trans)
  from at_sb effect_key_stays [OF e_sb_s3, of u] obtain e where e: "map_of (newMapping s3) u = Some e"
    by auto
  from effect_entry [OF e_sb_s3 e] at_sb have id: "linkdingId e = ld_id ld" by auto
  from effect_distinct [OF e_all] have d: "distinct (map fst (newMapping s3))"
    by (simp add: startRun_def)
  from effect_calls [OF e_all] have nc: "\<forall>c\<in>set (calls s3). \<not> createsUrl u c"
    by (auto simp: startRun_def)
  from effect_calls_subset [OF e_sb_s3] put_sb
  have put: "tagsDiffer ld (mergedTags ld (buildTagsForPath T (c_folderPath cbm)))
          \<longrightarrow> (\<exists>body. LdPut (ld_id ld) body \<in> set (calls s3)
                \<and> b_tag_names body = Some (mergedTags ld (buildTagsForPath T (c_folderPath cbm))))"
    by blast
  show ?thesis
    using fin e id nc put one_entry [OF d e]
    by (intro exI [of _ "newMapping s3"] exI [of _ e]) simp
qed

lemma saved_invoke: "saved (snd (invoke api c s)) = saved s"
  by (simp add: snd_invoke)

lemma saved_perform: "perform api c s = (r, s1) \<Longrightarrow> saved s1 = saved s"
  using snd_perform [of api c s] snd_invoke [of api c s] by simp

lemma saved_saveConfig: "saved (snd (saveConfig api order existingId s)) = saved s"
proof (cases existingId)
  case None
  obtain r s1 where c: "createLinkdingBookmark api CONFIG_URL CONFIG_TITLE (Some order)
        [''bookmark-sync-config''] s = (r, s1)"
    by (cases "createLinkdingBookmark api CONFIG_URL CONFIG_TITLE (Some order)
        [''bookmark-sync-config''] s")
  with snd_createLinkdingBookmark [of api CONFIG_URL CONFIG_TITLE "Some order"
      "[''bookmark-sync-config'']" s]
  have "saved s1 = saved s" by (simp add: snd_invoke)
  with c None show ?thesis by (cases r) (simp_all add: saveConfig_def)
next
  case (Some i)
  obtain r s1 where c: "updateLinkdingBookmark api i None None (Some order) None s = (r, s1)"
    by (cases "updateLinkdingBookmark api i None None (Some order) None s")
  then have "saved s1 = saved s"
    unfolding updateLinkdingBookmark_def by (rule saved_perform)
  with c Some show ?thesis by (cases r) (simp_all add: saveConfig_def)
qed

lemma saved_initialConfig: "saved (snd (initialConfig api root s)) = saved s"
proof -
  obtain g s1 where g: "getChildren api root s = (g, s1)" by (cases "getChildren api root s")
  with snd_getChildren [of api root s] have 1: "saved s1 = saved s" by (simp add: snd_invoke)
  show ?thesis
  proof (cases g)
    case (Inl e)
    with g 1 show ?thesis by (simp add: initialConfig_def)
  next
    case (Inr nodes)
    obtain r s2 where i: "invoke api LdSearchConfig s1 = (r, s2)"
      by (cases "invoke api LdSearchConfig s1")
    with saved_invoke [of api LdSearchConfig s1] 1 have 2: "saved s2 = saved s" by simp
    let ?order = "map c_url (getChromeBookmarksRecursive nodes [])"
    let ?s2 = "if r = HttpError then s2\<lparr>console := console s2 @ [CallFailed LdSearchConfig]\<rparr> else s2"
    let ?id = "case r of SearchHit i order \<Rightarrow> Some i | other \<Rightarrow> None"
    obtain v s3 where sc: "saveConfig api ?order ?id ?s2 = (v, s3)"
      by (cases "saveConfig api ?order ?id ?s2")
    with saved_saveConfig [of api ?order ?id ?s2] 2 have 3: "saved s3 = saved s" by simp
    show ?thesis
    proof (cases "r = Thrown")
      case True
      with g Inr i 2 show ?thesis by (simp add: initialConfig_def)
    next
      case False
      with g Inr i sc 3 show ?thesis
        by (cases r; cases v) (simp_all add: initialConfig_def Let_def)
    qed
  qed
qed

lemma keeps_mergeStrategy:
  assumes "P LdSearchConfig"
    and "\<And>k. keeps (effect P Q) (mergeItem api T root now (indexLd lds) (indexChrome cbs) k)"
  shows "keeps (effect P Q) (mergeStrategy api T root now lds cbs)"
proof -
  have "keeps (effect P Q) (\<lambda>s. case fetchConfig api s of (config, s1) \<Rightarrow>
          forEach (mergeItem api T root now (indexLd lds) (indexChrome cbs))
            (if length (case config of Some order \<Rightarrow> order | None \<Rightarrow> []) > 0
             then sortByOrder (case config of Some order \<Rightarrow> order | None \<Rightarrow> []) (\<lambda>u. u)
                    (uniqueInOrder (map fst (indexLd lds) @ map fst (indexChrome cbs)))
             else uniqueInOrder (map fst (indexLd lds) @ map fst (indexChrome cbs))) s1)"
    using assms
    by (intro keeps_after_fetchConfig keeps_effect_forEach) auto
  then show ?thesis
    by (simp add: mergeStrategy_def [abs_def] Let_def)
qed

lemma keeps_mergeItem_linked:
  assumes l: "map_of (indexLd lds) u = Some ld" and c: "map_of (indexChrome cbs) u = Some cbm"
  shows "keeps (effect (\<lambda>c. \<not> createsUrl u c) (\<lambda>k' v. k' = k))
           (mergeItem api T root now (indexLd lds) (indexChrome cbs) k)"
  using l c
  by (intro keeps_mergeItem) (auto dest: indexLd_Some indexChrome_Some simp: not_createsUrl_folder)

lemma mergeStrategy_links:
  assumes run: "mergeStrategy api T root now lds cbs (startRun w) = (Inr x, s')"
    and l: "map_of (indexLd lds) u = Some ld" and c: "map_of (indexChrome cbs) u = Some cbm"
  shows "(\<exists>e. length (filter (\<lambda>kv. fst kv = u) (newMapping s')) = 1
      \<and> map_of (newMapping s') u = Some e \<and> linkdingId e = ld_id ld \<and> chromeId e = c_id cbm)
     \<and> (\<forall>c\<in>set (calls s'). \<not> createsUrl u c)"
proof -
  let ?f = "mergeItem api T root now (indexLd lds) (indexChrome cbs)"
  let ?urls = "uniqueInOrder (map fst (indexLd lds) @ map fst (indexChrome cbs))"
  obtain config s0 where fc: "fetchConfig api (startRun w) = (config, s0)"
    by (cases "fetchConfig api (startRun w)")
  define sorted where "sorted =
      (if length (case config of Some order \<Rightarrow> order | None \<Rightarrow> []) > 0
       then sortByOrder (case config of Some order \<Rightarrow> order | None \<Rightarrow> []) (\<lambda>u. u) ?urls
       else ?urls)"
  from run fc have loop: "forEach ?f sorted s0 = (Inr (), s')"
    by (simp add: mergeStrategy_def Let_def sorted_def)
  from l have "(u, ld) \<in> set (indexLd lds)" by (rule map_of_SomeD)
  then have "u \<in> fst ` set (indexLd lds)" by force
  then have mem: "u \<in> set sorted"
    by (auto simp: sorted_def set_sortByOrder set_uniqueInOrder)
  have dist: "distinct sorted"
    by (simp add: sorted_def distinct_sortByOrder distinct_uniqueInOrder)
  from mem obtain pre post where sp: "sorted = pre @ u # post" by (auto dest: split_list)
  with dist have notin: "u \<notin> set post" by simp
  from loop obtain sa sb where step: "?f u sa = (Inr (), sb)"
    and rest: "forEach ?f post sb = (Inr (), s')"
    unfolding sp by (auto simp: forEach_append_Inr forEach_Cons_Inr simp del: forEach.simps)
  from step l c have "mergeBoth api T now u ld cbm sa = (Inr (), sb)"
    by (simp add: mergeItem_def)
  from mergeBoth_Inr [OF this] obtain e where e: "map_of (newMapping sb) u = Some e"
    and ids: "linkdingId e = ld_id ld" "chromeId e = c_id cbm" by blast
  have "keeps (effect (\<lambda>c. True) (\<lambda>k v. k \<in> set post)) (forEach ?f post)"
  proof (rule keeps_effect_forEach)
    fix k assume "k \<in> set post"
    then show "keeps (effect (\<lambda>c. True) (\<lambda>k v. k \<in> set post)) (?f k)"
      by (intro keeps_mono [OF keeps_mergeItem_linked [OF l c]]) simp_all
  qed
  from keepsD [OF this rest] notin have "map_of (newMapping s') u = map_of (newMapping sb) u"
    by (intro effect_untouched) auto
  with e have e': "map_of (newMapping s') u = Some e" by simp
  have "keeps (effect (\<lambda>c. \<not> createsUrl u c) (\<lambda>k v. True))
          (mergeStrategy api T root now lds cbs)"
    by (intro keeps_mergeStrategy keeps_mono [OF keeps_mergeItem_linked [OF l c]]) simp_all
  from keepsD [OF this run] have eff: "effect (\<lambda>c. \<not> createsUrl u c) (\<lambda>k v. True) (startRun w) s'" .
  from effect_distinct [OF eff] have "distinct (map fst (newMapping s'))"
    by (simp add: startRun_def)
  moreover from effect_calls [OF eff] have "\<forall>c\<in>set (calls s'). \<not> createsUrl u c"
    by (auto simp: startRun_def)
  ultimately show ?thesis using one_entry [of "newMapping s'" u e] e' ids by blast
qed

lemma runInitialTwoWaySync_Inr:
  assumes "runInitialTwoWaySync api cfg snap mode now w = (Inr res, s')"
  shows "\<exists>root s1. truthy (twoWaySyncFolderId cfg) = Some root
      \<and> strategy api mode (twoWaySyncTag cfg) root now (remoteItems cfg snap) (localItems snap)
           (startRun w) = (Inr (), s1)
      \<and> saved s' = Some (newMapping s1)"
proof -
  from assms obtain root all where root: "truthy (twoWaySyncFolderId cfg) = Some root"
    and f: "fetched snap = Some all"
    and ok: "s_url cfg \<noteq> []" "s_token cfg \<noteq> []" "folderExists snap"
    by (auto simp: runInitialTwoWaySync_def split: if_splits option.splits)
  let ?st = "strategy api mode (twoWaySyncTag cfg) root now (remoteItems cfg snap) (localItems snap)"
  obtain r s1 where st: "?st (startRun w) = (r, s1)" by (cases "?st (startRun w)")
  obtain ce s2 where ic: "initialConfig api root (s1\<lparr>saved := Some (newMapping s1)\<rparr>) = (ce, s2)"
    by (cases "initialConfig api root (s1\<lparr>saved := Some (newMapping s1)\<rparr>)")
  from assms root f ok st ic have r: "r = Inr ()" and s': "s' = s2"
    by (cases r; simp add: runInitialTwoWaySync_def remoteItems_def localItems_def)+
  from saved_initialConfig [of api root "s1\<lparr>saved := Some (newMapping s1)\<rparr>"] ic s'
  have "saved s' = Some (newMapping s1)" by simp
  with root st r show ?thesis by blast
qed

lemma tagsDiffer_new_tag:
  "\<not> set tags \<subseteq> set (ld_tag_names ld) \<Longrightarrow> tagsDiffer ld (mergedTags ld tags)"
  by (auto simp: tagsDiffer_def mergedTags_def list_all_iff set_uniqueInOrder)

lemma set_mergedTags: "set (mergedTags ld tags) = set (ld_tag_names ld) \<union> set tags"
  by (simp add: mergedTags_def set_uniqueInOrder)

lemma distinct_mergedTags: "distinct (mergedTags ld tags)"
  by (simp add: mergedTags_def distinct_uniqueInOrder)

text \<open>
  Claim C6. When the fetched Linkding bookmarks and the browser bookmarks both hold a
  URL, a run of the initial sync in the mode \<^verbatim>\<open>merge\<close> that completes has run the merge
  strategy to its end; the mapping the strategy built is the one written, it has exactly
  one entry for the URL, which links the two existing items, and no call of the strategy
  creates a Linkding bookmark or a browser bookmark for the URL. (After the strategy the
  run saves its config bookmark; the only creation for the URL that the whole run can
  hold is that of the config bookmark, when the URL is the config URL.) Likewise, when
  the URL is not in the persisted mapping, a run of the reconciler that completes writes
  exactly one entry for the URL, linked to the existing Linkding bookmark, and creates
  nothing for the URL on either side; and whenever the path tags of the browser
  bookmark's folder are not all among the tags of the Linkding bookmark, it sends a PUT
  to the existing bookmark whose tags are, without repetition, exactly the tags the
  bookmark had together with those path tags.
\<close>

theorem links_instead_of_duplicates:
  "(runInitialTwoWaySync api cfg snap ''merge'' now w = (Inr res, s')
      \<and> remoteAt cfg snap u = Some ld \<and> localAt snap u = Some cbm
     \<longrightarrow> (\<exists>root s1 e.
            strategy api ''merge'' (twoWaySyncTag cfg) root now (remoteItems cfg snap)
              (localItems snap) (startRun w) = (Inr (), s1)
            \<and> saved s' = Some (newMapping s1)
            \<and> length (filter (\<lambda>kv. fst kv = u) (newMapping s1)) = 1
            \<and> map_of (newMapping s1) u = Some e
            \<and> linkdingId e = ld_id ld \<and> chromeId e = c_id cbm
            \<and> (\<forall>c\<in>set (calls s1). \<not> createsUrl u c))
         \<and> (\<forall>c\<in>set (calls s'). createsUrl u c \<longrightarrow> isConfigPost c))
   \<and> (runTwoWaySync api cfg snap now w = (Inr res2, s2)
      \<and> map_of (storedMapping snap) u = None
      \<and> remoteAt cfg snap u = Some ld \<and> localAt snap u = Some cbm
     \<longrightarrow> (\<exists>m e. saved s2 = Some m \<and> length (filter (\<lambda>kv. fst kv = u) m) = 1
              \<and> map_of m u = Some e \<and> linkdingId e = ld_id ld)
         \<and> (\<forall>c\<in>set (calls s2). \<not> createsUrl u c)
         \<and> (\<not> set (buildTagsForPath (twoWaySyncTag cfg) (c_folderPath cbm))
                  \<subseteq> set (ld_tag_names ld)
             \<longrightarrow> (\<exists>body tags. LdPut (ld_id ld) body \<in> set (calls s2)
                    \<and> b_tag_names body = Some tags \<and> distinct tags
                    \<and> set tags = set (ld_tag_names ld)
                        \<union> set (buildTagsForPath (twoWaySyncTag cfg) (c_folderPath cbm)))))"
proof (intro conjI impI; elim conjE)
  assume run: "runInitialTwoWaySync api cfg snap ''merge'' now w = (Inr res, s')"
    and l: "remoteAt cfg snap u = Some ld" and c: "localAt snap u = Some cbm"
  from l have l': "map_of (indexLd (remoteItems cfg snap)) u = Some ld" by (simp add: remoteAt_def)
  from c have c': "map_of (indexChrome (localItems snap)) u = Some cbm" by (simp add: localAt_def)
  from runInitialTwoWaySync_Inr [OF run] obtain root s1 where
      st: "strategy api ''merge'' (twoWaySyncTag cfg) root now (remoteItems cfg snap)
             (localItems snap) (startRun w) = (Inr (), s1)"
    and sv: "saved s' = Some (newMapping s1)"
    by blast
  from st have "mergeStrategy api (twoWaySyncTag cfg) root now (remoteItems cfg snap)
      (localItems snap) (startRun w) = (Inr (), s1)"
    by (simp add: strategy_def)
  from mergeStrategy_links [OF this l' c'] st sv
  show "\<exists>root s1 e.
            strategy api ''merge'' (twoWaySyncTag cfg) root now (remoteItems cfg snap)
              (localItems snap) (startRun w) = (Inr (), s1)
            \<and> saved s' = Some (newMapping s1)
            \<and> length (filter (\<lambda>kv. fst kv = u) (newMapping s1)) = 1
            \<and> map_of (newMapping s1) u = Some e
            \<and> linkdingId e = ld_id ld \<and> chromeId e = c_id cbm
            \<and> (\<forall>c\<in>set (calls s1). \<not> createsUrl u c)"
    by blast
  let ?P = "\<lambda>c. createsUrl u c \<longrightarrow> isConfigPost c"
  have "keeps (effect ?P (\<lambda>k v. True)) (strategy api ''merge'' (twoWaySyncTag cfg) root now
              (remoteItems cfg snap) (localItems snap))" for root
    unfolding strategy_def
    by (simp, intro keeps_mergeStrategy keeps_mono [OF keeps_mergeItem_linked [OF l' c']]) simp_all
  moreover have "keeps (effect ?P (\<lambda>k v. True)) (initialConfig api root)" for root
    by (rule keeps_initialConfig) simp_all
  ultimately have "effect ?P (\<lambda>k v. True) (startRun w)
      (snd (runInitialTwoWaySync api cfg snap ''merge'' now w))"
    by (rule runInitialTwoWaySync_effect)
  from effect_calls [OF this] run
  show "\<forall>c\<in>set (calls s'). createsUrl u c \<longrightarrow> isConfigPost c"
    by (auto simp: startRun_def)
next
  assume run: "runTwoWaySync api cfg snap now w = (Inr res2, s2)"
    and nm: "map_of (storedMapping snap) u = None"
    and l: "remoteAt cfg snap u = Some ld" and c: "localAt snap u = Some cbm"
  from runTwoWaySync_Inr [OF run] obtain root all where f: "fetched snap = Some all"
    and rec: "reconcile api (twoWaySyncTag cfg) root now (storedMapping snap)
           (withExactTag (twoWaySyncTag cfg) all)
           (getChromeBookmarksRecursive (tree snap) []) (startRun w) = (Inr res2, s2)"
    by blast
  from l f have l': "map_of (indexLd (withExactTag (twoWaySyncTag cfg) all)) u = Some ld"
    by (simp add: remoteAt_def remoteItems_def)
  from c have c': "map_of (indexChrome (getChromeBookmarksRecursive (tree snap) [])) u = Some cbm"
    by (simp add: localAt_def localItems_def)
  note links = reconcile_links [OF rec l' c' nm]
  from links show "\<exists>m e. saved s2 = Some m \<and> length (filter (\<lambda>kv. fst kv = u) m) = 1
              \<and> map_of m u = Some e \<and> linkdingId e = ld_id ld"
    by blast
  from links show "\<forall>c\<in>set (calls s2). \<not> createsUrl u c"
    by blast
  assume "\<not> set (buildTagsForPath (twoWaySyncTag cfg) (c_folderPath cbm)) \<subseteq> set (ld_tag_names ld)"
  then have "tagsDiffer ld (mergedTags ld (buildTagsForPath (twoWaySyncTag cfg) (c_folderPath cbm)))"
    by (rule tagsDiffer_new_tag)
  with links obtain body where "LdPut (ld_id ld) body \<in> set (calls s2)"
    and "b_tag_names body
           = Some (mergedTags ld (buildTagsForPath (twoWaySyncTag cfg) (c_folderPath cbm)))"
    by blast
  then show "\<exists>body tags. LdPut (ld_id ld) body \<in> set (calls s2)
                    \<and> b_tag_names body = Some tags \<and> distinct tags
                    \<and> set tags = set (ld_tag_names ld)
                        \<union> set (buildTagsForPath (twoWaySyncTag cfg) (c_folderPath cbm))"
    using set_mergedTags distinct_mergedTags by blast
qed

text \<open>
  The snapshot with the URL on both sides and no mapping: the merge strategy writes one
  entry that links bookmark 7 of Linkding and bookmark 10 of the browser, and its log
  holds no creation for the URL. The moved snapshot without its mapping: the browser
  bookmark is in the folder \<open>Work\<close> and the Linkding bookmark carries the tags \<open>sync\<close>,
  \<open>sync/Read\<close> and \<open>keep\<close>; the reconciler writes one entry that links bookmark 7,
  creates nothing, and sends one PUT to bookmark 7 with the four tags \<open>sync\<close>,
  \<open>sync/Read\<close>, \<open>keep\<close> and \<open>sync/Work\<close>.
\<close>

theorem links_instead_of_duplicates_witness:
  "fst (runInitialTwoWaySync accepting exampleSettings linkSnapshot ''merge'' 100 0)
      = Inr \<lparr>i_added = 0, i_updated = 1, i_downloaded = 0, i_total = 1, i_configError = None\<rparr>
   \<and> remoteAt exampleSettings linkSnapshot exampleUrl = Some linkRemote
   \<and> localAt linkSnapshot exampleUrl = Some linkLocal
   \<and> fst (runTwoWaySync accepting exampleSettings unlinkedSnapshot 100 0)
      = Inr \<lparr>res_added = 0, res_removed = 0, res_updated = 0, res_total = 1\<rparr>
   \<and> map_of (storedMapping unlinkedSnapshot) exampleUrl = None
   \<and> remoteAt exampleSettings unlinkedSnapshot exampleUrl = Some movedRemote
   \<and> localAt unlinkedSnapshot exampleUrl = Some movedLocal
   \<and> (\<exists>m e. saved (snd (runInitialTwoWaySync accepting exampleSettings linkSnapshot ''merge'' 100 0))
                = Some m
         \<and> length (filter (\<lambda>kv. fst kv = exampleUrl) m) = 1
         \<and> map_of m exampleUrl = Some e \<and> linkdingId e = 7 \<and> chromeId e = ''10'')
   \<and> filter (createsUrl exampleUrl)
        (calls (snd (runInitialTwoWaySync accepting exampleSettings linkSnapshot ''merge'' 100 0))) = []
   \<and> (\<exists>m e. saved (snd (runTwoWaySync accepting exampleSettings unlinkedSnapshot 100 0)) = Some m
         \<and> length (filter (\<lambda>kv. fst kv = exampleUrl) m) = 1
         \<and> map_of m exampleUrl = Some e \<and> linkdingId e = 7)
   \<and> filter (createsUrl exampleUrl)
        (calls (snd (runTwoWaySync accepting exampleSettings unlinkedSnapshot 100 0))) = []
   \<and> (\<exists>body tags. LdPut 7 body
           \<in> set (calls (snd (runTwoWaySync accepting exampleSettings unlinkedSnapshot 100 0)))
         \<and> b_tag_names body = Some tags \<and> distinct tags
         \<and> set tags = {''sync'', ''sync/Read'', ''keep'', ''sync/Work''})"
proof -
  let ?init = "runInitialTwoWaySync accepting exampleSettings linkSnapshot ''merge'' 100 0"
  let ?run = "runTwoWaySync accepting exampleSettings unlinkedSnapshot 100 0"
  have r1: "fst ?init
      = Inr \<lparr>i_added = 0, i_updated = 1, i_downloaded = 0, i_total = 1, i_configError = None\<rparr>"
    by code_simp
  then have init: "?init = (Inr \<lparr>i_added = 0, i_updated = 1, i_downloaded = 0, i_total = 1,
      i_configError = None\<rparr>, snd ?init)"
    by (cases ?init) simp
  have r2: "fst ?run = Inr \<lparr>res_added = 0, res_removed = 0, res_updated = 0, res_total = 1\<rparr>"
    by code_simp
  then have run: "?run = (Inr \<lparr>res_added = 0, res_removed = 0, res_updated = 0, res_total = 1\<rparr>,
      snd ?run)"
    by (cases ?run) simp
  have l1: "remoteAt exampleSettings linkSnapshot exampleUrl = Some linkRemote" by code_simp
  have c1: "localAt linkSnapshot exampleUrl = Some linkLocal" by code_simp
  have nm: "map_of (storedMapping unlinkedSnapshot) exampleUrl = None" by code_simp
  have l2: "remoteAt exampleSettings unlinkedSnapshot exampleUrl = Some movedRemote" by code_simp
  have c2: "localAt unlinkedSnapshot exampleUrl = Some movedLocal" by code_simp
  have ids: "ld_id linkRemote = 7" "c_id linkLocal = ''10''" "ld_id movedRemote = 7" by code_simp+
  have tags: "ld_tag_names movedRemote = [''sync'', ''sync/Read'', ''keep'']"
    "buildTagsForPath (twoWaySyncTag exampleSettings) (c_folderPath movedLocal)
       = [''sync'', ''sync/Work'']"
    by code_simp+
  have new: "\<not> set (buildTagsForPath (twoWaySyncTag exampleSettings) (c_folderPath movedLocal))
      \<subseteq> set (ld_tag_names movedRemote)"
    unfolding tags by simp
  have other: "CONFIG_URL \<noteq> exampleUrl" by code_simp
  have notConfig: "createsUrl exampleUrl c \<Longrightarrow> \<not> isConfigPost c" for c
    using other by (cases c) auto
  from links_instead_of_duplicates [THEN conjunct1, rule_format, OF conjI [OF init conjI [OF l1 c1]]]
  have a: "\<exists>m e. saved (snd ?init) = Some m
         \<and> length (filter (\<lambda>kv. fst kv = exampleUrl) m) = 1
         \<and> map_of m exampleUrl = Some e \<and> linkdingId e = 7 \<and> chromeId e = ''10''"
    and a': "filter (createsUrl exampleUrl) (calls (snd ?init)) = []"
    using notConfig by (auto simp: ids filter_empty_conv)
  note second = links_instead_of_duplicates [THEN conjunct2, rule_format,
      OF conjI [OF run conjI [OF nm conjI [OF l2 c2]]]]
  from second
  have b: "\<exists>m e. saved (snd ?run) = Some m
         \<and> length (filter (\<lambda>kv. fst kv = exampleUrl) m) = 1
         \<and> map_of m exampleUrl = Some e \<and> linkdingId e = 7"
    and b': "filter (createsUrl exampleUrl) (calls (snd ?run)) = []"
    by (auto simp: ids filter_empty_conv)
  from second [THEN conjunct2, THEN conjunct2, rule_format, OF new]
  have p: "\<exists>body tags. LdPut 7 body \<in> set (calls (snd ?run))
         \<and> b_tag_names body = Some tags \<and> distinct tags
         \<and> set tags = {''sync'', ''sync/Read'', ''keep'', ''sync/Work''}"
    unfolding ids tags by (simp add: insert_commute)
  from r1 r2 nm l1 c1 l2 c2 a a' b b' p show ?thesis by blast
qed

section \<open>A run in a settled state\<close>

lemma forEach_skip:
  "(\<And>x. x \<in> set xs \<Longrightarrow> f x = ret ()) \<Longrightarrow> forEach f xs s = (Inr (), s)"
  by (induction xs arbitrary: s) (simp_all add: ret_def)

lemma update_new_key: "k \<notin> fst ` set al \<Longrightarrow> AList.update k v al = al @ [(k, v)]"
  by (induction al) auto

lemma processMapped_agrees:
  assumes c: "map_of chromeByUrl key = Some cbm" and l: "map_of ldByUrl key = Some ld"
    and a: "agrees T entry cbm ld" and new: "key \<notin> fst ` set (newMapping s)"
  shows "processMapped api T root now ldByUrl chromeByUrl (key, entry) s
     = (Inr (), s\<lparr>newMapping := newMapping s @ [(key, keptEntry entry cbm ld)]\<rparr>)"
proof -
  from a have "\<not> needsLdUpdate (resolve T entry cbm ld) \<and> \<not> needsChromeUpdate (resolve T entry cbm ld)"
    unfolding resolve_unchanged agrees_def by simp
  then show ?thesis
    using c l new
    by (simp add: processMapped_def updateLd_def updateChrome_def andThen_def ret_def
        storeEntry_eq storedEntry_def update_new_key)
qed

lemma refresh_fst [simp]: "fst (refresh cfg snap ke) = fst ke"
  by (simp add: refresh_def split: option.splits)

lemma forEach_processMapped_settled:
  assumes "list_all (agreesAt cfg snap) es" and "distinct (map fst es)"
    and "fst ` set es \<inter> fst ` set (newMapping s) = {}"
  shows "forEach (processMapped api (twoWaySyncTag cfg) root now
            (indexLd (remoteItems cfg snap)) (indexChrome (localItems snap))) es s
     = (Inr (), s\<lparr>newMapping := newMapping s @ map (refresh cfg snap) es\<rparr>)"
  using assms
proof (induction es arbitrary: s)
  case Nil
  then show ?case by simp
next
  case (Cons ke es)
  obtain key entry where ke: "ke = (key, entry)" by (cases ke)
  from Cons.prems(1) ke obtain cbm ld where
      c: "map_of (indexChrome (localItems snap)) key = Some cbm"
    and l: "map_of (indexLd (remoteItems cfg snap)) key = Some ld"
    and a: "agrees (twoWaySyncTag cfg) entry cbm ld"
    by (auto simp: agreesAt_def localAt_def remoteAt_def split: option.splits)
  from Cons.prems(3) ke have new: "key \<notin> fst ` set (newMapping s)" by auto
  let ?s1 = "s\<lparr>newMapping := newMapping s @ [(key, keptEntry entry cbm ld)]\<rparr>"
  have step: "processMapped api (twoWaySyncTag cfg) root now
            (indexLd (remoteItems cfg snap)) (indexChrome (localItems snap)) ke s = (Inr (), ?s1)"
    unfolding ke by (rule processMapped_agrees [OF c l a new])
  have r: "refresh cfg snap ke = (key, keptEntry entry cbm ld)"
    using c l by (simp add: refresh_def ke localAt_def remoteAt_def)
  from Cons.prems ke have "fst ` set es \<inter> fst ` set (newMapping ?s1) = {}" by auto
  with Cons.IH [of ?s1] Cons.prems
  have "forEach (processMapped api (twoWaySyncTag cfg) root now
            (indexLd (remoteItems cfg snap)) (indexChrome (localItems snap))) es ?s1
     = (Inr (), ?s1\<lparr>newMapping := newMapping ?s1 @ map (refresh cfg snap) es\<rparr>)"
    by simp
  with step r show ?case by simp
qed

lemma refreshed_keys: "map fst (map (refresh cfg snap) es) = map fst es"
  by (induction es) simp_all

lemma map_of_refreshed_None:
  "map_of (map (refresh cfg snap) es) k = None \<longleftrightarrow> map_of es k = None"
proof -
  have "fst ` set (map (refresh cfg snap) es) = fst ` set es"
    using refreshed_keys [of cfg snap es] by (metis set_map)
  then show ?thesis by (simp add: map_of_eq_None_iff)
qed

lemma agreesAt_refresh:
  "agreesAt cfg snap ke \<Longrightarrow> agreesAt cfg (snap\<lparr>storedMapping := m\<rparr>) (refresh cfg snap ke)"
  by (auto simp: agreesAt_def refresh_def agrees_def keptEntry_def localAt_def remoteAt_def
      localItems_def remoteItems_def split: option.splits)

lemma settled_refreshed:
  assumes "settled cfg snap"
  shows "settled cfg (snap\<lparr>storedMapping := map (refresh cfg snap) (storedMapping snap)\<rparr>)"
proof -
  let ?m = "map (refresh cfg snap) (storedMapping snap)"
  let ?snap = "snap\<lparr>storedMapping := ?m\<rparr>"
  have items: "localItems ?snap = localItems snap" "remoteItems cfg ?snap = remoteItems cfg snap"
    by (simp_all add: localItems_def remoteItems_def)
  from assms have 1: "distinct (map fst ?m)"
    unfolding refreshed_keys by (simp add: settled_def)
  from assms have a2: "list_all (\<lambda>cbm. map_of (storedMapping snap) (c_url cbm) \<noteq> None)
      (localItems snap)"
    and a3: "list_all (\<lambda>ld. map_of (storedMapping snap) (ld_url ld) \<noteq> None)
      (remoteItems cfg snap)"
    unfolding settled_def by blast+
  have 2: "list_all (\<lambda>cbm. map_of ?m (c_url cbm) \<noteq> None) (localItems snap)"
    unfolding map_of_refreshed_None by (rule a2)
  have 3: "list_all (\<lambda>ld. map_of ?m (ld_url ld) \<noteq> None) (remoteItems cfg snap)"
    unfolding map_of_refreshed_None by (rule a3)
  from assms have 4: "list_all (agreesAt cfg ?snap) ?m"
    by (auto simp: settled_def list_all_iff intro: agreesAt_refresh)
  have m: "storedMapping ?snap = ?m" by simp
  show ?thesis
    unfolding settled_def items m using 1 2 3 4 by blast
qed



section \<open>Further facts on the codec, the deletions and the batches\<close>

text \<open>
  On the segments: a path joined from segments without a slash splits into the same
  segments, so ensureFolderPath walks the folders the path was built from.
\<close>

lemma splitPath_segment: "CHR ''/'' \<notin> set s \<Longrightarrow> splitPath s = [s]"
  by (induction s) auto

lemma splitPath_first:
  "CHR ''/'' \<notin> set s \<Longrightarrow> splitPath (s @ CHR ''/'' # rest) = s # splitPath rest"
  by (induction s) auto

lemma splitPath_joinPath:
  "segs \<noteq> [] \<Longrightarrow> (\<And>s. s \<in> set segs \<Longrightarrow> CHR ''/'' \<notin> set s) \<Longrightarrow> splitPath (joinPath segs) = segs"
proof (induction segs rule: joinPath.induct)
  case 1
  then show ?case by simp
next
  case (2 s)
  then show ?case by (simp add: splitPath_segment)
next
  case (3 s t ss)
  then show ?case by (simp add: splitPath_first)
qed

text \<open>
  processBatch never throws, whatever its items do: the strategies push and pull cannot
  be aborted by an item.
\<close>

lemma processBatch_returns: "fst (processBatch fn xs s) = Inr ()"
  by (induction xs arbitrary: s) (auto split: prod.splits sum.splits)

lemma pushStrategy_returns: "fst (pushStrategy api T now lds cbs s) = Inr ()"
  by (simp add: pushStrategy_def processBatch_returns)

text \<open>
  The part of the deletion rule that holds in every run that completes: a mapped key
  absent on one side or on both has no entry in the mapping that is written; when only
  Linkding holds it, the fetched bookmark is deleted there by its own id; when only the
  browser holds it, the removal is asked for the remembered browser id.
\<close>

lemma keeps_other_keys:
  assumes m: "map_of mapping key \<noteq> None"
    and absent: "map_of (indexChrome cbs) key = None \<or> map_of (indexLd lds) key = None"
  defines "Q \<equiv> \<lambda>k (v :: mappingEntry). k \<noteq> key"
  shows "keeps (effect (\<lambda>c. True) Q) (newInChrome api T now mapping (indexLd lds) cbm)"
    and "keeps (effect (\<lambda>c. True) Q) (newInLinkding api T root now mapping (indexChrome cbs) ld)"
    and "keeps (effect (\<lambda>c. True) Q) (processMapped api T root now (indexLd lds) (indexChrome cbs) ke)"
proof -
  show "keeps (effect (\<lambda>c. True) Q) (newInChrome api T now mapping (indexLd lds) cbm)"
    using m by (intro keeps_newInChrome) (auto simp: Q_def)
  show "keeps (effect (\<lambda>c. True) Q) (newInLinkding api T root now mapping (indexChrome cbs) ld)"
    using m by (intro keeps_newInLinkding) (auto simp: Q_def)
  obtain k e where ke: "ke = (k, e)" by (cases ke)
  show "keeps (effect (\<lambda>c. True) Q) (processMapped api T root now (indexLd lds) (indexChrome cbs) ke)"
    unfolding ke using absent by (intro keeps_processMapped) (auto simp: Q_def)
qed

lemma mapped_absent_dropped:
  assumes run: "runTwoWaySync api cfg snap now w = (Inr res, s')"
    and m: "(key, entry) \<in> set (storedMapping snap)"
    and absent: "localAt snap key = None \<or> remoteAt cfg snap key = None"
  shows "\<exists>m'. saved s' = Some m' \<and> map_of m' key = None
     \<and> (case (localAt snap key, remoteAt cfg snap key) of
           (None, Some ld) \<Rightarrow> LdDelete (ld_id ld) \<in> set (calls s')
         | (Some cbm, None) \<Rightarrow> Remove (chromeId entry) \<in> set (calls s')
         | other \<Rightarrow> True)"
proof -
  from runTwoWaySync_Inr [OF run] obtain root all where f: "fetched snap = Some all"
    and rec: "reconcile api (twoWaySyncTag cfg) root now (storedMapping snap)
           (withExactTag (twoWaySyncTag cfg) all)
           (getChromeBookmarksRecursive (tree snap) []) (startRun w) = (Inr res, s')"
    by blast
  let ?T = "twoWaySyncTag cfg"
  let ?lds = "withExactTag ?T all"
  let ?cbs = "getChromeBookmarksRecursive (tree snap) []"
  let ?map = "storedMapping snap"
  let ?f1 = "newInChrome api ?T now ?map (indexLd ?lds)"
  let ?f2 = "newInLinkding api ?T root now ?map (indexChrome ?cbs)"
  let ?f3 = "processMapped api ?T root now (indexLd ?lds) (indexChrome ?cbs)"
  let ?Q = "\<lambda>k (v :: mappingEntry). k \<noteq> key"
  have loc: "localAt snap key = map_of (indexChrome ?cbs) key"
    by (simp add: localAt_def localItems_def)
  have rem: "remoteAt cfg snap key = map_of (indexLd ?lds) key"
    using f by (simp add: remoteAt_def remoteItems_def)
  from m have m': "map_of ?map key \<noteq> None"
    by (metis image_eqI fst_conv map_of_eq_None_iff)
  from absent have absent': "map_of (indexChrome ?cbs) key = None \<or> map_of (indexLd ?lds) key = None"
    by (simp add: loc rem)
  note steps = keeps_other_keys [OF m' absent']
  from reconcile_Inr [OF rec] obtain s1 s2 s3 where
      l1: "forEach ?f1 ?cbs (startRun w) = (Inr (), s1)"
    and l2: "forEach ?f2 ?lds s1 = (Inr (), s2)"
    and l3: "forEach ?f3 ?map s2 = (Inr (), s3)"
    and fin: "s' = s3\<lparr>saved := Some (newMapping s3)\<rparr>"
    by blast
  have k1: "keeps (effect (\<lambda>c. True) ?Q) (forEach ?f1 ?cbs)"
    by (intro keeps_effect_forEach steps)
  have k2: "keeps (effect (\<lambda>c. True) ?Q) (forEach ?f2 ?lds)"
    by (intro keeps_effect_forEach steps)
  have k3: "keeps (effect (\<lambda>c. True) ?Q) (forEach ?f3 ?map)"
    by (intro keeps_effect_forEach steps)
  have "effect (\<lambda>c. True) ?Q (startRun w) s3"
    using keepsD [OF k1 l1] keepsD [OF k2 l2] keepsD [OF k3 l3]
    by (blast intro: effect_trans)
  then have "map_of (newMapping s3) key = map_of (newMapping (startRun w)) key"
    by (rule effect_untouched) simp
  then have none: "map_of (newMapping s3) key = None" by (simp add: startRun_def)
  from m obtain pre post where sp: "?map = pre @ (key, entry) # post" by (auto dest: split_list)
  from l3 obtain sa sb where step: "?f3 (key, entry) sa = (Inr (), sb)"
    and rest: "forEach ?f3 post sb = (Inr (), s3)"
    unfolding sp by (auto simp: forEach_append_Inr forEach_Cons_Inr simp del: forEach.simps)
  from keepsD [OF keeps_rest_processMapped rest] have sub: "set (calls sb) \<subseteq> set (calls s3)"
    by (rule effect_calls_subset)
  have del: "LdDelete (ld_id ld) \<in> set (calls sb)"
    if "map_of (indexChrome ?cbs) key = None" "map_of (indexLd ?lds) key = Some ld" for ld
    using step that
    by (auto simp: processMapped_def andThen_Inr deleteLinkdingBookmark_def dest!: performed)
  have rmv: "Remove (chromeId entry) \<in> set (calls sb)"
    if "map_of (indexChrome ?cbs) key = Some cbm" "map_of (indexLd ?lds) key = None" for cbm
    using step that
    by (auto simp: processMapped_def split: prod.splits dest!: performed)
  show ?thesis
    using fin none del rmv sub
    by (intro exI [of _ "newMapping s3"]) (auto simp: loc rem split: option.splits)
qed

section \<open>The stores: ids and the tree\<close>

lemma olderThan_iff: "olderThan n s \<longleftrightarrow> (\<forall>k\<ge>n. s \<noteq> newId k)"
proof (cases s)
  case Nil
  then show ?thesis by (simp add: olderThan_def newId_def)
next
  case (Cons c cs)
  have "cs = replicate (length cs) (CHR ''i'')" if "list_all (\<lambda>x. x = CHR ''i'') cs"
    using that by (induction cs) simp_all
  then show ?thesis
    unfolding Cons olderThan_def newId_def
    by (auto simp: list_all_iff)
qed


subsection \<open>Ids\<close>

lemma newId_inj [simp]: "newId a = newId b \<longleftrightarrow> a = b"
  by (auto simp: newId_def dest: arg_cong [where f = length])

lemma olderThan_Suc: "olderThan n s \<Longrightarrow> olderThan (Suc n) s"
  by (auto simp: olderThan_iff)

lemma olderThan_newId: "olderThan (Suc n) (newId n)"
  by (simp add: olderThan_iff)

lemma olderThan_not_new: "olderThan n s \<Longrightarrow> s \<noteq> newId n"
  by (auto simp: olderThan_iff)

subsection \<open>The forest\<close>

lemma nodeIds_append [simp]: "nodeIds (xs @ ys) = nodeIds xs @ nodeIds ys"
  by (induction xs rule: nodeIds.induct) simp_all

lemma folderPaths_append [simp]: "folderPaths (xs @ ys) pfx = folderPaths xs pfx @ folderPaths ys pfx"
  by (induction xs pfx rule: folderPaths.induct) simp_all

lemma walk_append [simp]:
  "getChromeBookmarksRecursive (xs @ ys) pfx
     = getChromeBookmarksRecursive xs pfx @ getChromeBookmarksRecursive ys pfx"
  by (induction xs pfx rule: getChromeBookmarksRecursive.induct) simp_all

lemma folderIds_append [simp]: "folderIds (xs @ ys) = folderIds xs @ folderIds ys"
  by (induction xs rule: folderIds.induct) simp_all

lemma fst_folderPaths: "map fst (folderPaths f pfx) = folderIds f"
  by (induction f pfx rule: folderPaths.induct) simp_all

lemma folderIds_subset: "set (folderIds f) \<subseteq> set (nodeIds f)"
  by (induction f rule: folderIds.induct) auto

lemma distinct_folderIds: "distinct (nodeIds f) \<Longrightarrow> distinct (folderIds f)"
proof (induction f rule: folderIds.induct)
  case (3 i t kids rest)
  from folderIds_subset [of kids] folderIds_subset [of rest] 3 show ?case by auto
qed simp_all

lemma walk_ids: "b \<in> set (getChromeBookmarksRecursive f pfx) \<Longrightarrow> c_id b \<in> set (nodeIds f)"
  by (induction f pfx rule: getChromeBookmarksRecursive.induct) auto

lemma walk_not_folder:
  "distinct (nodeIds f) \<Longrightarrow> b \<in> set (getChromeBookmarksRecursive f pfx) \<Longrightarrow> c_id b \<notin> set (folderIds f)"
proof (induction f pfx rule: getChromeBookmarksRecursive.induct)
  case (2 i u t d rest pfx)
  from 2 folderIds_subset [of rest] show ?case by auto
next
  case (3 i t kids rest pfx)
  let ?sub = "if pfx = [] then t else pfx @ ''/'' @ t"
  from 3(4) consider "b \<in> set (getChromeBookmarksRecursive kids ?sub)"
    | "b \<in> set (getChromeBookmarksRecursive rest pfx)" by auto
  then show ?case
  proof cases
    case 1
    from walk_ids [OF 1] have in_k: "c_id b \<in> set (nodeIds kids)" .
    with 3(3) have "c_id b \<noteq> i" "c_id b \<notin> set (nodeIds rest)" by auto
    moreover from 3(1) [OF _ 1] 3(3) have "c_id b \<notin> set (folderIds kids)" by simp
    ultimately show ?thesis using folderIds_subset [of rest] by auto
  next
    case 2
    from walk_ids [OF 2] have in_r: "c_id b \<in> set (nodeIds rest)" .
    with 3(3) have "c_id b \<noteq> i" "c_id b \<notin> set (nodeIds kids)" by auto
    moreover from 3(2) [OF _ 2] 3(3) have "c_id b \<notin> set (folderIds rest)" by simp
    ultimately show ?thesis using folderIds_subset [of kids] by auto
  qed
qed simp

lemma walk_unique:
  "distinct (nodeIds f) \<Longrightarrow> b \<in> set (getChromeBookmarksRecursive f pfx)
     \<Longrightarrow> b' \<in> set (getChromeBookmarksRecursive f pfx) \<Longrightarrow> c_id b = c_id b' \<Longrightarrow> b = b'"
proof (induction f pfx rule: getChromeBookmarksRecursive.induct)
  case (2 i u t d rest pfx)
  let ?r = "\<lparr>c_id = i, c_url = u, c_title = t, c_dateAdded = d, c_folderPath = pfx\<rparr>"
  let ?A = "set (getChromeBookmarksRecursive rest pfx)"
  from 2(2) have ni: "i \<notin> set (nodeIds rest)" and dr: "distinct (nodeIds rest)" by simp_all
  have other: "c_id x \<noteq> i" if "x \<in> ?A" for x
    using ni walk_ids [OF that] by auto
  have idr: "c_id ?r = i" by simp
  from 2(3) have b: "b = ?r \<or> b \<in> ?A" by simp
  from 2(4) have b': "b' = ?r \<or> b' \<in> ?A" by simp
  show ?case
  proof (cases "b \<in> ?A")
    case True
    note bA = this
    show ?thesis
    proof (cases "b' \<in> ?A")
      case True
      with 2(1) [OF dr bA] 2(5) show ?thesis by blast
    next
      case False
      with b' have "c_id b' = i" using idr by metis
      with other [OF bA] 2(5) show ?thesis by simp
    qed
  next
    case False
    with b have eb: "b = ?r" by blast
    show ?thesis
    proof (cases "b' \<in> ?A")
      case True
      from other [OF True] eb idr 2(5) show ?thesis by metis
    next
      case False
      with b' eb show ?thesis by blast
    qed
  qed
next
  case (3 i t kids rest pfx)
  let ?sub = "if pfx = [] then t else pfx @ ''/'' @ t"
  let ?K = "set (getChromeBookmarksRecursive kids ?sub)"
  let ?R = "set (getChromeBookmarksRecursive rest pfx)"
  from 3(3) have dk: "distinct (nodeIds kids)" and dr: "distinct (nodeIds rest)"
    and dj: "set (nodeIds kids) \<inter> set (nodeIds rest) = {}" by auto
  have side: "c_id x \<noteq> c_id y" if "x \<in> ?K" "y \<in> ?R" for x y
    using dj walk_ids [OF that(1)] walk_ids [OF that(2)] by auto
  from 3(4) have b: "b \<in> ?K \<or> b \<in> ?R" by simp
  from 3(5) have b': "b' \<in> ?K \<or> b' \<in> ?R" by simp
  from b b' 3(1) [OF dk] 3(2) [OF dr] 3(6) side [of b b'] side [of b' b] show ?case by metis
qed simp

lemma findNode_None: "i \<notin> set (nodeIds f) \<Longrightarrow> findNode i f = None"
  by (induction i f rule: findNode.induct) auto

lemma findNode_Some: "findNode i f = Some n \<Longrightarrow> nodeId n = i \<and> i \<in> set (nodeIds f)"
  by (induction i f rule: findNode.induct) (auto split: if_splits option.splits)

lemma walk_findNode:
  "distinct (nodeIds f) \<Longrightarrow> b \<in> set (getChromeBookmarksRecursive f pfx)
     \<Longrightarrow> findNode (c_id b) f = Some (Bookmark (c_id b) (c_url b) (c_title b) (c_dateAdded b))"
proof (induction f pfx rule: getChromeBookmarksRecursive.induct)
  case (2 i u t d rest pfx)
  show ?case
  proof (cases "b = \<lparr>c_id = i, c_url = u, c_title = t, c_dateAdded = d, c_folderPath = pfx\<rparr>")
    case True
    then show ?thesis by simp
  next
    case False
    with 2(3) have in_r: "b \<in> set (getChromeBookmarksRecursive rest pfx)" by simp
    from walk_ids [OF in_r] 2(2) have "c_id b \<noteq> i" by auto
    with 2(1) [OF _ in_r] 2(2) show ?thesis by simp
  qed
next
  case (3 i t kids rest pfx)
  let ?sub = "if pfx = [] then t else pfx @ ''/'' @ t"
  from 3(4) consider "b \<in> set (getChromeBookmarksRecursive kids ?sub)"
    | "b \<in> set (getChromeBookmarksRecursive rest pfx)" by auto
  then show ?case
  proof cases
    case 1
    from walk_ids [OF 1] 3(3) have "c_id b \<noteq> i" by auto
    with 3(1) [OF _ 1] 3(3) show ?thesis by simp
  next
    case 2
    from walk_ids [OF 2] 3(3) have "c_id b \<noteq> i" "c_id b \<notin> set (nodeIds kids)" by auto
    with 3(2) [OF _ 2] 3(3) findNode_None [of "c_id b" kids] show ?thesis by simp
  qed
qed simp

lemma folderPaths_Folder:
  "folderPaths (Folder i t kids # rest) pfx
     = (i, ext pfx t) # folderPaths kids (ext pfx t) @ folderPaths rest pfx"
  by (simp add: ext_def)

lemma walk_Folder:
  "getChromeBookmarksRecursive (Folder i t kids # rest) pfx
     = getChromeBookmarksRecursive kids (ext pfx t) @ getChromeBookmarksRecursive rest pfx"
  by (simp add: ext_def)

lemma forest_induct [case_names Nil Bookmark Folder]:
  assumes "\<And>pfx. P [] pfx"
    and "\<And>i u t d rest pfx. P rest pfx \<Longrightarrow> P (Bookmark i u t d # rest) pfx"
    and "\<And>i t kids rest pfx. P kids (ext pfx t) \<Longrightarrow> P rest pfx \<Longrightarrow> P (Folder i t kids # rest) pfx"
  shows "P f pfx"
proof (induction f pfx rule: folderPaths.induct)
  case (3 i t kids rest pfx)
  then show ?case using assms(3) [of kids pfx t rest i] by (simp add: ext_def)
qed (simp_all add: assms)

declare folderPaths.simps(3) [simp del] getChromeBookmarksRecursive.simps(3) [simp del]
declare folderPaths_Folder [simp] walk_Folder [simp]

lemma folderIds_paths: "set (folderIds f) = fst ` set (folderPaths f pfx)"
  using fst_folderPaths [of f pfx] by (metis set_map)

subsection \<open>Adding a node\<close>

lemma addChild_absent: "p \<notin> set (folderIds f) \<Longrightarrow> addChild p n f = f"
  by (induction p n f rule: addChild.induct) auto

lemma nodeIds_addChild: "set (nodeIds (addChild p n f)) \<subseteq> set (nodeIds f) \<union> set (nodeIds [n])"
  by (induction p n f rule: addChild.induct) auto

lemma distinct_addChild:
  "distinct (nodeIds f) \<Longrightarrow> distinct (nodeIds [n]) \<Longrightarrow> set (nodeIds [n]) \<inter> set (nodeIds f) = {}
     \<Longrightarrow> distinct (nodeIds (addChild p n f))"
proof (induction p n f rule: addChild.induct)
  case (1 p n)
  then show ?case by simp
next
  case (2 p n i u t d rest)
  from 2 nodeIds_addChild [of p n rest] show ?case by auto
next
  case (3 p n i t kids rest)
  from 3(4) have dk: "distinct (nodeIds kids)" and dr: "distinct (nodeIds rest)"
    and ik: "i \<notin> set (nodeIds kids)" and ir: "i \<notin> set (nodeIds rest)"
    and kr: "set (nodeIds kids) \<inter> set (nodeIds rest) = {}" by auto
  from 3(6) have nk: "set (nodeIds [n]) \<inter> set (nodeIds kids) = {}"
    and nr: "set (nodeIds [n]) \<inter> set (nodeIds rest) = {}" and ni: "i \<notin> set (nodeIds [n])"
    by auto
  have k': "distinct (nodeIds (addChild p n kids))"
    using dk 3(5) nk 3(1) [OF _ dk 3(5) nk] 3(2) [OF _ dk 3(5) nk] by (cases "i = p") simp_all
  have r': "distinct (nodeIds (addChild p n rest))" by (rule 3(3) [OF dr 3(5) nr])
  consider "i = p" | "i \<noteq> p" "p \<in> set (folderIds kids)" | "i \<noteq> p" "p \<notin> set (folderIds kids)"
    by blast
  then show ?case
  proof cases
    case 1
    with ik ir folderIds_subset [of kids] folderIds_subset [of rest]
    have "p \<notin> set (folderIds kids)" "p \<notin> set (folderIds rest)" by auto
    then have k: "addChild p n kids = kids" and r: "addChild p n rest = rest"
      by (simp_all add: addChild_absent)
    from dk dr ik ir kr nk nr ni 3(5) show ?thesis
      unfolding addChild.simps k r using 1 by auto
  next
    case 2
    with kr folderIds_subset [of kids] folderIds_subset [of rest]
    have "p \<notin> set (folderIds rest)" by auto
    then have r: "addChild p n rest = rest" by (rule addChild_absent)
    from k' dr ik ir kr nk nr ni 3(5) nodeIds_addChild [of p n kids] show ?thesis
      unfolding addChild.simps r using 2(1) by auto
  next
    case 3
    then have k: "addChild p n kids = kids" by (simp add: addChild_absent)
    from r' dk ik ir kr nk nr ni nodeIds_addChild [of p n rest] show ?thesis
      unfolding addChild.simps k using 3(1) by auto
  qed
qed

lemma walk_addChild_folder:
  "getChromeBookmarksRecursive (addChild p (Folder n t []) f) pfx = getChromeBookmarksRecursive f pfx"
  by (induction f pfx rule: forest_induct) simp_all

lemma walk_addChild_bookmark:
  "set (getChromeBookmarksRecursive (addChild p (Bookmark i u t d) f) pfx)
     = set (getChromeBookmarksRecursive f pfx)
       \<union> {\<lparr>c_id = i, c_url = u, c_title = t, c_dateAdded = d, c_folderPath = x\<rparr> | x.
            (p, x) \<in> set (folderPaths f pfx)}"
  by (induction f pfx rule: forest_induct) auto

lemma folderPaths_addChild_folder:
  "set (folderPaths (addChild p (Folder n t []) f) pfx)
     = set (folderPaths f pfx) \<union> {(n, ext x t) | x. (p, x) \<in> set (folderPaths f pfx)}"
  by (induction f pfx rule: forest_induct) auto

lemma folderPaths_addChild_bookmark:
  "folderPaths (addChild p (Bookmark i u t d) f) pfx = folderPaths f pfx"
  by (induction f pfx rule: forest_induct) simp_all

subsection \<open>Removing and renaming a node\<close>

lemma nodeIds_dropNode: "set (nodeIds (dropNode i f)) \<subseteq> set (nodeIds f) - {i}"
  by (induction i f rule: dropNode.induct) auto

lemma distinct_dropNode: "distinct (nodeIds f) \<Longrightarrow> distinct (nodeIds (dropNode i f))"
proof (induction i f rule: dropNode.induct)
  case (2 i j u t d rest)
  from 2 nodeIds_dropNode [of i rest] show ?case by auto
next
  case (3 i j t kids rest)
  from 3 nodeIds_dropNode [of i rest] nodeIds_dropNode [of i kids] show ?case
    by (cases "j = i") (simp, auto)
qed simp

lemma dropNode_absent: "i \<notin> set (nodeIds f) \<Longrightarrow> dropNode i f = f"
  by (induction i f rule: dropNode.induct) auto

lemma findNode_subtree: "findNode i f = Some n \<Longrightarrow> set (nodeIds [n]) \<subseteq> set (nodeIds f)"
proof (induction i f rule: findNode.induct)
  case (1 i)
  then show ?case by simp
next
  case (2 i j u t d rest)
  then show ?case by (auto split: if_splits)
next
  case (3 i j t kids rest)
  then show ?case by (auto split: if_splits option.splits)
qed

lemma dropNode_subtree:
  "distinct (nodeIds f) \<Longrightarrow> findNode i f = Some n
     \<Longrightarrow> distinct (nodeIds [n]) \<and> set (nodeIds [n]) \<inter> set (nodeIds (dropNode i f)) = {}"
proof (induction i f rule: dropNode.induct)
  case (1 i)
  then show ?case by simp
next
  case (2 i j u t d rest)
  show ?case
  proof (cases "j = i")
    case True
    with 2 have "n = Bookmark j u t d" "i \<notin> set (nodeIds rest)" by auto
    with True show ?thesis using dropNode_absent [of i rest] by simp
  next
    case False
    with "2.prems"(2) have fr: "findNode i rest = Some n" by simp
    from "2.prems"(1) have dr: "distinct (nodeIds rest)" and jr: "j \<notin> set (nodeIds rest)" by simp_all
    from "2.IH"(2) [OF False dr fr] findNode_subtree [OF fr] jr False show ?thesis by auto
  qed
next
  case (3 i j t kids rest)
  from 3(4) have dk: "distinct (nodeIds kids)" and dr: "distinct (nodeIds rest)"
    and jk: "j \<notin> set (nodeIds kids)" and jr: "j \<notin> set (nodeIds rest)"
    and kr: "set (nodeIds kids) \<inter> set (nodeIds rest) = {}" by auto
  show ?case
  proof (cases "j = i")
    case True
    with 3(5) have n: "n = Folder j t kids" by simp
    from True jr have "dropNode i rest = rest" by (simp add: dropNode_absent)
    with n True dk jk jr kr show ?thesis by auto
  next
    case False
    note ne = this
    show ?thesis
    proof (cases "findNode i kids")
      case None
      with 3(5) ne have fr: "findNode i rest = Some n" by simp
      from 3(3) [OF ne dr fr] have n1: "distinct (nodeIds [n])"
        and n2: "set (nodeIds [n]) \<inter> set (nodeIds (dropNode i rest)) = {}" by simp_all
      from findNode_subtree [OF fr] n1 n2 jr kr ne nodeIds_dropNode [of i kids] show ?thesis by auto
    next
      case (Some m)
      with 3(5) ne have fk: "findNode i kids = Some n" by simp
      from 3(2) [OF ne dk fk] have n1: "distinct (nodeIds [n])"
        and n2: "set (nodeIds [n]) \<inter> set (nodeIds (dropNode i kids)) = {}" by simp_all
      from findNode_subtree [OF fk] n1 n2 jk kr ne nodeIds_dropNode [of i rest] show ?thesis by auto
    qed
  qed
qed

lemma walk_dropNode:
  "i \<notin> set (folderIds f) \<Longrightarrow> getChromeBookmarksRecursive (dropNode i f) pfx
     = filter (\<lambda>b. c_id b \<noteq> i) (getChromeBookmarksRecursive f pfx)"
  by (induction f pfx rule: forest_induct) auto

lemma folderPaths_dropNode:
  "i \<notin> set (folderIds f) \<Longrightarrow> folderPaths (dropNode i f) pfx = folderPaths f pfx"
  by (induction f pfx rule: forest_induct) auto

lemma nodeIds_retitle [simp]: "nodeIds (retitle i t f) = nodeIds f"
  by (induction i t f rule: retitle.induct) simp_all

lemma walk_retitle:
  "i \<notin> set (folderIds f) \<Longrightarrow> getChromeBookmarksRecursive (retitle i t f) pfx
     = map (\<lambda>b. if c_id b = i then b\<lparr>c_title := t\<rparr> else b) (getChromeBookmarksRecursive f pfx)"
  by (induction f pfx rule: forest_induct) auto

lemma folderPaths_retitle:
  "i \<notin> set (folderIds f) \<Longrightarrow> folderPaths (retitle i t f) pfx = folderPaths f pfx"
  by (induction f pfx rule: forest_induct) auto

subsection \<open>The children of a folder\<close>

lemma kidsOf_None: "kidsOf p f = None \<longleftrightarrow> p \<notin> set (folderIds f)"
  by (induction p f rule: kidsOf.induct) (auto split: option.splits)

lemma top_child: "Folder i t sub \<in> set f \<Longrightarrow> (i, ext pfx t) \<in> set (folderPaths f pfx)"
  by (induction f pfx rule: forest_induct) auto

lemma kidsOf_child:
  "kidsOf p f = Some ks \<Longrightarrow> Folder i t sub \<in> set ks
     \<Longrightarrow> \<exists>x. (p, x) \<in> set (folderPaths f pfx) \<and> (i, ext x t) \<in> set (folderPaths f pfx)"
proof (induction f pfx rule: forest_induct)
  case (Folder j t' kids rest pfx)
  show ?case
  proof (cases "j = p")
    case True
    with Folder(3) have "ks = kids" by simp
    with Folder(4) top_child [of i t sub kids "ext pfx t'"] True show ?thesis by auto
  next
    case False
    with Folder show ?thesis by (auto split: option.splits)
  qed
qed auto

subsection \<open>Every call leaves the stores well formed\<close>

lemma nodeIds_insertUnder:
  "set (nodeIds (insertUnder root p n f)) \<subseteq> set (nodeIds f) \<union> set (nodeIds [n])"
  using nodeIds_addChild [of p n f] by (auto simp: insertUnder_def)

lemma distinct_insertUnder:
  "distinct (nodeIds f) \<Longrightarrow> distinct (nodeIds [n]) \<Longrightarrow> set (nodeIds [n]) \<inter> set (nodeIds f) = {}
     \<Longrightarrow> distinct (nodeIds (insertUnder root p n f))"
  using distinct_addChild [of f n p] by (auto simp: insertUnder_def)

lemma ld_id_applyPut [simp]: "ld_id (fst (applyPut t body item)) = ld_id (fst item)"
  by (simp add: applyPut_def)

lemma wellFormed_create:
  assumes wf: "wellFormed root w" and n: "nodeIds [n] = [newId (issued w)]"
  shows "wellFormed root (w\<lparr>browser := insertUnder root p n (browser w), issued := Suc (issued w)\<rparr>)"
proof -
  let ?f = "browser w"
  from wf have d: "distinct (nodeIds ?f)" and r: "root \<notin> set (nodeIds ?f)"
    and o: "\<forall>x\<in>set (root # nodeIds ?f). olderThan (issued w) x"
    and l: "distinct (map (\<lambda>item. ld_id (fst item)) (linkding w))"
      "\<forall>item\<in>set (linkding w). ld_id (fst item) < issued w"
    by (simp_all add: wellFormed_def list_all_iff)
  from o have fresh: "newId (issued w) \<notin> set (root # nodeIds ?f)"
    using olderThan_not_new by blast
  have sub: "set (nodeIds (insertUnder root p n ?f)) \<subseteq> set (nodeIds ?f) \<union> {newId (issued w)}"
    using nodeIds_insertUnder [of root p n ?f] n by simp
  have d': "distinct (nodeIds (insertUnder root p n ?f))"
    using d fresh n by (intro distinct_insertUnder) simp_all
  have r': "root \<notin> set (nodeIds (insertUnder root p n ?f))"
    using sub r fresh by auto
  have o': "\<forall>x\<in>set (root # nodeIds (insertUnder root p n ?f)). olderThan (Suc (issued w)) x"
    using sub o olderThan_Suc olderThan_newId [of "issued w"] by auto
  from l have l': "\<forall>item\<in>set (linkding w). ld_id (fst item) < Suc (issued w)" by auto
  from d' r' o' l(1) l' show ?thesis by (simp add: wellFormed_def list_all_iff)
qed

lemma wellFormed_browser:
  assumes wf: "wellFormed root w" and d: "distinct (nodeIds f)"
    and sub: "set (nodeIds f) \<subseteq> set (nodeIds (browser w))"
  shows "wellFormed root (w\<lparr>browser := f\<rparr>)"
  using assms by (auto simp: wellFormed_def list_all_iff)

lemma wellFormed_server: "wellFormed root w \<Longrightarrow> wellFormed root (snd (server root c w))"
proof (cases c)
  case (LdPost u t d tags)
  assume wf: "wellFormed root w"
  then have "\<forall>item\<in>set (linkding w). ld_id (fst item) \<noteq> issued w"
    by (auto simp: wellFormed_def list_all_iff)
  with wf show ?thesis
    unfolding LdPost by (auto simp: wellFormed_def list_all_iff intro: olderThan_Suc less_SucI)
next
  case (LdPut i body)
  assume wf: "wellFormed root w"
  have "map (\<lambda>item. ld_id (fst item)) (map (\<lambda>item. if ld_id (fst item) = i
           then applyPut (clock w) body item else item) (linkding w))
      = map (\<lambda>item. ld_id (fst item)) (linkding w)"
    by (induction "linkding w") auto
  with wf show ?thesis
    unfolding LdPut by (auto simp: wellFormed_def list_all_iff simp del: map_map)
next
  case (LdDelete i)
  assume "wellFormed root w"
  then show ?thesis
    unfolding LdDelete by (auto simp: wellFormed_def list_all_iff distinct_map_filter)
next
  case LdSearchConfig
  assume "wellFormed root w"
  then show ?thesis unfolding LdSearchConfig by (simp split: option.splits)
next
  case (GetChildren p)
  assume "wellFormed root w"
  then show ?thesis unfolding GetChildren by (simp split: option.splits)
next
  case (CreateFolder p t)
  assume "wellFormed root w"
  then show ?thesis unfolding CreateFolder by (simp add: wellFormed_create)
next
  case (CreateBookmark p t u)
  assume "wellFormed root w"
  then show ?thesis unfolding CreateBookmark by (simp add: wellFormed_create)
next
  case (UpdateTitle i t)
  assume "wellFormed root w"
  then show ?thesis unfolding UpdateTitle by (simp add: wellFormed_def)
next
  case (Move i p)
  assume wf: "wellFormed root w"
  show ?thesis
  proof (cases "findNode i (browser w)")
    case None
    with wf show ?thesis unfolding Move by simp
  next
    case (Some n)
    from wf have d: "distinct (nodeIds (browser w))" by (simp add: wellFormed_def)
    from dropNode_subtree [OF d Some] have n1: "distinct (nodeIds [n])"
      and n2: "set (nodeIds [n]) \<inter> set (nodeIds (dropNode i (browser w))) = {}" by simp_all
    have "distinct (nodeIds (insertUnder root p n (dropNode i (browser w))))"
      using distinct_dropNode [OF d] n1 n2 by (rule distinct_insertUnder)
    moreover have "set (nodeIds (insertUnder root p n (dropNode i (browser w)))) \<subseteq> set (nodeIds (browser w))"
      using nodeIds_insertUnder [of root p n "dropNode i (browser w)"] nodeIds_dropNode [of i "browser w"]
        findNode_subtree [OF Some] by auto
    ultimately have "wellFormed root (w\<lparr>browser := insertUnder root p n (dropNode i (browser w))\<rparr>)"
      by (rule wellFormed_browser [OF wf])
    with wf Some show ?thesis unfolding Move by simp
  qed
next
  case (Remove i)
  assume wf: "wellFormed root w"
  from wf have d: "distinct (nodeIds (browser w))" by (simp add: wellFormed_def)
  have "wellFormed root (w\<lparr>browser := dropNode i (browser w)\<rparr>)"
    using distinct_dropNode [OF d] nodeIds_dropNode [of i "browser w"]
    by (intro wellFormed_browser [OF wf]) auto
  with wf show ?thesis
    unfolding Remove by (simp split: option.splits node.splits list.splits)
next
  case (RemoveTree i)
  assume wf: "wellFormed root w"
  from wf have d: "distinct (nodeIds (browser w))" by (simp add: wellFormed_def)
  have "wellFormed root (w\<lparr>browser := dropNode i (browser w)\<rparr>)"
    using distinct_dropNode [OF d] nodeIds_dropNode [of i "browser w"]
    by (intro wellFormed_browser [OF wf]) auto
  with wf show ?thesis
    unfolding RemoveTree by (simp split: option.splits node.splits)
qed

lemma after_Nil [simp]: "after api [] w = w"
  by (simp add: after_def)

lemma after_snoc [simp]: "after api (cs @ [c]) w = snd (api c (after api cs w))"
  by (simp add: after_def)

lemma after_append: "after api (cs @ cs') w = after api cs' (after api cs w)"
  by (simp add: after_def)

lemma wellFormed_after: "wellFormed root w \<Longrightarrow> wellFormed root (after (server root) cs w)"
  by (induction cs rule: rev_induct) (simp_all add: wellFormed_server)

subsection \<open>The world of a run is the world after its calls\<close>

lemma logged_refl: "logged api s s"
  unfolding logged_def by (intro exI [of _ "[]"]) simp

lemma logged_trans: "logged api s s1 \<Longrightarrow> logged api s1 s2 \<Longrightarrow> logged api s s2"
  unfolding logged_def
proof (elim exE conjE)
  fix cs cs'
  assume "calls s1 = calls s @ cs" "world s1 = after api cs (world s)"
    "calls s2 = calls s1 @ cs'" "world s2 = after api cs' (world s1)"
  then show "\<exists>cs. calls s2 = calls s @ cs \<and> world s2 = after api cs (world s)"
    by (intro exI [of _ "cs @ cs'"]) (simp add: after_append)
qed

lemma reflp_logged: "reflp (logged api)"
  by (simp add: reflp_def logged_refl)

lemma transp_logged: "transp (logged api)"
  by (auto simp: transp_def intro: logged_trans)

lemma logged_same: "calls s' = calls s \<Longrightarrow> world s' = world s \<Longrightarrow> logged api s s'"
  unfolding logged_def by (intro exI [of _ "[]"]) simp

lemma logged_then_same:
  "logged api s s1 \<Longrightarrow> calls s' = calls s1 \<Longrightarrow> world s' = world s1 \<Longrightarrow> logged api s s'"
  by (erule logged_trans) (rule logged_same)

named_theorems logged_intros

lemma keeps_case:
  assumes "transp R" "keeps R f" "\<And>r. keeps R (g r)"
  shows "keeps R (\<lambda>s. case f s of (r, s') \<Rightarrow> g r s')"
  unfolding keeps_def
proof
  fix s
  obtain r s1 where f: "f s = (r, s1)" by (cases "f s")
  from keepsD [OF assms(2) f] have "R s s1" .
  moreover from assms(3) [of r] have "R s1 (snd (g r s1))" by (simp add: keeps_def)
  ultimately show "R s (snd (case f s of (r, s') \<Rightarrow> g r s'))"
    using f assms(1) by (auto dest: transpD)
qed

lemma logged_case [logged_intros]:
  "keeps (logged api) f \<Longrightarrow> (\<And>r. keeps (logged api) (g r))
     \<Longrightarrow> keeps (logged api) (\<lambda>s. case f s of (r, s') \<Rightarrow> g r s')"
  by (rule keeps_case) (simp_all add: transp_logged)

lemma logged_ret [logged_intros]: "keeps (logged api) (ret x)"
  by (rule keeps_ret) (rule reflp_logged)

lemma logged_andThen [logged_intros]:
  "keeps (logged api) f \<Longrightarrow> (\<And>x. keeps (logged api) (g x)) \<Longrightarrow> keeps (logged api) (andThen f g)"
  by (rule keeps_andThen) (rule transp_logged)

lemma logged_forEach [logged_intros]:
  "(\<And>x. x \<in> set xs \<Longrightarrow> keeps (logged api) (f x)) \<Longrightarrow> keeps (logged api) (forEach f xs)"
  by (rule keeps_forEach) (simp_all add: reflp_logged transp_logged)

lemma logged_local [logged_intros]:
  "(\<And>s. calls (f s) = calls s) \<Longrightarrow> (\<And>s. world (f s) = world s) \<Longrightarrow> keeps (logged api) (\<lambda>s. (r, f s))"
  by (simp add: keeps_def logged_same)

lemma logged_invoke [logged_intros]: "keeps (logged api) (invoke api c)"
  unfolding keeps_def logged_def snd_invoke
  by (intro allI exI [of _ "[c]"]) (simp add: after_def)

lemma logged_perform [logged_intros]: "keeps (logged api) (perform api c)"
  using logged_invoke [of api c] by (simp add: keeps_def snd_perform)

lemma logged_createLinkdingBookmark [logged_intros]:
  "keeps (logged api) (createLinkdingBookmark api u t d tags)"
  using logged_invoke [of api] by (simp add: keeps_def snd_createLinkdingBookmark)

lemma logged_updateLinkdingBookmark [logged_intros]:
  "keeps (logged api) (updateLinkdingBookmark api i u t d tags)"
  by (simp add: updateLinkdingBookmark_def logged_perform)

lemma logged_deleteLinkdingBookmark [logged_intros]:
  "keeps (logged api) (deleteLinkdingBookmark api i)"
  by (simp add: deleteLinkdingBookmark_def logged_perform)

lemma logged_getChildren [logged_intros]: "keeps (logged api) (getChildren api p)"
  using logged_invoke [of api] by (simp add: keeps_def snd_getChildren)

lemma logged_createNode [logged_intros]: "keeps (logged api) (createNode api c)"
  using logged_invoke [of api] by (simp add: keeps_def snd_createNode)

lemma logged_fetchConfig [logged_intros]: "keeps (logged api) (fetchConfig api)"
  using logged_invoke [of api] by (simp add: keeps_def snd_fetchConfig)

lemma logged_getOrCreateFolder [logged_intros]: "keeps (logged api) (getOrCreateFolder api name p)"
  unfolding getOrCreateFolder_def
  by (auto intro!: logged_intros split: option.splits)

lemma logged_ensureParts [logged_intros]: "keeps (logged api) (ensureParts api parts cur)"
proof (induction parts arbitrary: cur)
  case Nil
  show ?case by (simp add: keeps_def logged_refl)
next
  case (Cons part parts)
  show ?case
    unfolding ensureParts_Cons
    by (rule logged_andThen) (simp_all add: logged_getOrCreateFolder Cons)
qed

lemma logged_ensureFolderPath [logged_intros]: "keeps (logged api) (ensureFolderPath api root fp)"
  by (simp add: ensureFolderPath_def logged_ret logged_ensureParts)

lemma logged_newInChrome [logged_intros]:
  "keeps (logged api) (newInChrome api T now mapping ldByUrl cbm)"
  unfolding newInChrome_def Let_def
  by (auto intro!: logged_intros split: option.splits)

lemma logged_newInLinkding [logged_intros]:
  "keeps (logged api) (newInLinkding api T root now mapping chromeByUrl ld)"
  unfolding newInLinkding_def Let_def
  by (auto intro!: logged_intros)

lemma logged_storeEntry [logged_intros]: "keeps (logged api) (storeEntry now key entry cbm ld r)"
  unfolding keeps_def by (simp add: storeEntry_eq logged_same)

lemma logged_updateLd [logged_intros]: "keeps (logged api) (updateLd api T ld r)"
  unfolding updateLd_def by (auto intro!: logged_intros)

lemma logged_updateChrome [logged_intros]: "keeps (logged api) (updateChrome api root cbm r)"
  unfolding updateChrome_def by (auto intro!: logged_intros)

lemma logged_processMapped [logged_intros]:
  "keeps (logged api) (processMapped api T root now ldByUrl chromeByUrl ke)"
  unfolding processMapped_def Let_def
  by (auto intro!: logged_intros split: option.splits prod.splits)

lemma logged_reconcile: "keeps (logged api) (reconcile api T root now mapping lds cbs)"
  unfolding reconcile_def Let_def
  by (intro logged_andThen logged_forEach logged_newInChrome logged_newInLinkding
      logged_processMapped) (simp add: keeps_def logged_same)

lemma runTwoWaySync_logged:
  "logged api (startRun w) (snd (runTwoWaySync api cfg snap now w))"
  unfolding runTwoWaySync_def
  using logged_reconcile [unfolded keeps_def, rule_format, where s = "startRun w"]
  by (auto simp: logged_refl split: option.splits)

lemma runTwoWaySync_world:
  "world (snd (runTwoWaySync api cfg snap now w)) = after api (calls (snd (runTwoWaySync api cfg snap now w))) w"
  using runTwoWaySync_logged [of api w cfg snap now] by (auto simp: logged_def startRun_def)

subsection \<open>The path of the folder that ensureFolderPath returns\<close>

lemma splitPath_ne [simp]: "splitPath s \<noteq> []"
  by (induction s) (auto split: list.splits)

lemma splitPath_no_slash: "seg \<in> set (splitPath s) \<Longrightarrow> CHR ''/'' \<notin> set seg"
  by (induction s arbitrary: seg) (auto split: list.splits if_splits)

lemma joinPath_concat: "joinPath (seg # segs) = seg @ concat (map (\<lambda>s. ''/'' @ s) segs)"
  by (induction segs arbitrary: seg) simp_all

lemma joinPath_splitPath: "joinPath (splitPath s) = s"
proof (induction s)
  case Nil
  show ?case by simp
next
  case (Cons c cs)
  obtain p ps where sp: "splitPath cs = p # ps" by (cases "splitPath cs") simp_all
  with Cons show ?case by (simp add: joinPath_concat)
qed

lemma foldl_ext: "y \<noteq> [] \<Longrightarrow> foldl ext y segs = y @ concat (map (\<lambda>s. ''/'' @ s) segs)"
  by (induction segs arbitrary: y) (simp_all add: ext_def)

lemma foldl_ext_root:
  "(\<And>seg. seg \<in> set segs \<Longrightarrow> CHR ''/'' \<notin> set seg)
     \<Longrightarrow> foldl ext [] segs = dropWhile (\<lambda>c. c = CHR ''/'') (joinPath segs)"
proof (induction segs)
  case Nil
  show ?case by simp
next
  case (Cons seg segs)
  show ?case
  proof (cases "seg = []")
    case True
    with Cons show ?thesis by (cases segs) (simp_all add: ext_def)
  next
    case False
    with Cons.prems [of seg] have "hd seg \<noteq> CHR ''/''" by (cases seg) auto
    with False have "dropWhile (\<lambda>c. c = CHR ''/'') (seg @ r) = seg @ r" for r
      by (cases seg) simp_all
    moreover have "ext [] seg = seg" by (simp add: ext_def)
    ultimately show ?thesis using foldl_ext [OF False, of segs] by (simp add: joinPath_concat)
  qed
qed

lemma foldl_ext_splitPath: "foldl ext [] (splitPath fp) = dropWhile (\<lambda>c. c = CHR ''/'') fp"
  using foldl_ext_root [of "splitPath fp"] splitPath_no_slash [of _ fp]
  by (simp add: joinPath_splitPath)

lemma folderPathOf_iff:
  assumes "distinct (root # nodeIds f)"
  shows "folderPathOf root f p = Some x
     \<longleftrightarrow> (p = root \<and> x = []) \<or> (p \<noteq> root \<and> (p, x) \<in> set (folderPaths f []))"
proof -
  from assms have "distinct (map fst (folderPaths f []))"
    by (simp add: fst_folderPaths distinct_folderIds)
  then have "map_of (folderPaths f []) p = Some x \<longleftrightarrow> (p, x) \<in> set (folderPaths f [])"
    by simp
  then show ?thesis by (auto simp: folderPathOf_def)
qed

lemma folder_not_root:
  "distinct (root # nodeIds f) \<Longrightarrow> (p, x) \<in> set (folderPaths f pfx) \<Longrightarrow> p \<noteq> root"
  using folderIds_subset [of f] folderIds_paths [of f pfx] by force

lemma folder_path_unique:
  "distinct (nodeIds f) \<Longrightarrow> (p, x) \<in> set (folderPaths f pfx) \<Longrightarrow> (p, y) \<in> set (folderPaths f pfx) \<Longrightarrow> x = y"
  using distinct_folderIds [of f] fst_folderPaths [of f pfx]
  by (metis eq_key_imp_eq_value)

lemma invoke_server_world:
  "invoke (server root) c s = (r, s') \<Longrightarrow> server root c (world s) = (r, world s')"
  by (auto simp: invoke_def split: prod.splits)

lemma getOrCreateFolder_server:
  assumes wf: "wellFormed root (world s)"
    and cur: "folderPathOf root (browser (world s)) cur = Some x"
    and run: "getOrCreateFolder (server root) name cur s = (Inr i, s')"
  shows "folderPathOf root (browser (world s')) i = Some (ext x name)
     \<and> wellFormed root (world s') \<and> locals (world s') = locals (world s)
     \<and> linkding (world s') = linkding (world s)"
proof -
  let ?f = "browser (world s)"
  from wf have d: "distinct (root # nodeIds ?f)" by (simp add: wellFormed_def)
  from run obtain ns s1 where g: "getChildren (server root) cur s = (Inr ns, s1)"
    and rest: "(case find (isFolderNamed name) ns of
         Some existing \<Rightarrow> ret (nodeId existing)
       | None \<Rightarrow> createNode (server root) (CreateFolder cur name)) s1 = (Inr i, s')"
    by (auto simp: getOrCreateFolder_def andThen_Inr)
  from g have w1: "world s1 = world s" and ch: "childrenOf root ?f cur = Some ns"
    by (auto simp: getChildren_def invoke_def split: prod.splits reply.splits option.splits)
  show ?thesis
  proof (cases "find (isFolderNamed name) ns")
    case (Some existing)
    with rest have i: "i = nodeId existing" and s': "s' = s1" by (simp_all add: ret_def)
    from Some have ex_in: "existing \<in> set ns" and ex_named: "isFolderNamed name existing"
      by (auto simp: find_Some_iff)
    from ex_named i obtain sub where ex: "existing = Folder i name sub"
      by (cases existing) simp_all
    from ex_in ex have mem: "Folder i name sub \<in> set ns" by simp
    have "(i, ext x name) \<in> set (folderPaths ?f [])"
    proof (cases "cur = root")
      case True
      with ch have "ns = ?f" by (simp add: childrenOf_def)
      moreover from True cur have "x = []" by (simp add: folderPathOf_def)
      ultimately show ?thesis using top_child [of i name sub ?f "[]"] mem by simp
    next
      case False
      with ch have "kidsOf cur ?f = Some ns" by (simp add: childrenOf_def)
      from kidsOf_child [OF this mem, of "[]"] obtain x' where
          1: "(cur, x') \<in> set (folderPaths ?f [])" and 2: "(i, ext x' name) \<in> set (folderPaths ?f [])"
        by blast
      from cur False d have "(cur, x) \<in> set (folderPaths ?f [])"
        by (simp add: folderPathOf_iff)
      with 1 d have "x' = x" by (auto dest: folder_path_unique)
      with 2 show ?thesis by simp
    qed
    with d folder_not_root [OF d this] have "folderPathOf root ?f i = Some (ext x name)"
      by (simp add: folderPathOf_iff)
    with wf w1 s' show ?thesis by simp
  next
    case None
    with rest have c: "createNode (server root) (CreateFolder cur name) s1 = (Inr i, s')" by simp
    let ?n = "Folder (newId (issued (world s))) name []"
    from c ch w1 have i: "i = newId (issued (world s))"
      and w': "world s' = (world s)\<lparr>browser := insertUnder root cur ?n ?f,
                 issued := Suc (issued (world s))\<rparr>"
      by (auto simp: createNode_def invoke_def split: prod.splits reply.splits if_splits)
    have wf': "wellFormed root (world s')"
      unfolding w' by (rule wellFormed_create [OF wf]) simp
    then have d': "distinct (root # nodeIds (browser (world s')))" by (simp add: wellFormed_def)
    from wf have fresh: "i \<notin> set (root # nodeIds ?f)"
      unfolding i using olderThan_not_new by (auto simp: wellFormed_def list_all_iff)
    have "(i, ext x name) \<in> set (folderPaths (browser (world s')) [])"
    proof (cases "cur = root")
      case True
      with cur have "x = []" by (simp add: folderPathOf_def)
      with True show ?thesis by (simp add: w' insertUnder_def i)
    next
      case False
      with cur d have "(cur, x) \<in> set (folderPaths ?f [])" by (simp add: folderPathOf_iff)
      with False show ?thesis
        by (simp add: w' insertUnder_def i folderPaths_addChild_folder) blast
    qed
    with d' folder_not_root [OF d' this] have "folderPathOf root (browser (world s')) i = Some (ext x name)"
      by (simp add: folderPathOf_iff)
    moreover have "locals (world s') = locals (world s)"
      by (simp add: locals_def w' insertUnder_def walk_addChild_folder)
    ultimately show ?thesis using wf' by (simp add: w')
  qed
qed

lemma ensureParts_server:
  assumes "wellFormed root (world s)"
    and "folderPathOf root (browser (world s)) cur = Some x"
    and "ensureParts (server root) parts cur s = (Inr p, s')"
  shows "folderPathOf root (browser (world s')) p = Some (foldl ext x parts)
     \<and> wellFormed root (world s') \<and> locals (world s') = locals (world s)
     \<and> linkding (world s') = linkding (world s)"
  using assms
proof (induction parts arbitrary: cur x s)
  case Nil
  then show ?case by simp
next
  case (Cons part parts)
  from Cons.prems(3) obtain i s1 where
      1: "getOrCreateFolder (server root) part cur s = (Inr i, s1)"
    and 2: "ensureParts (server root) parts i s1 = (Inr p, s')"
    by (auto split: prod.splits sum.splits)
  from getOrCreateFolder_server [OF Cons.prems(1,2) 1]
  have a: "folderPathOf root (browser (world s1)) i = Some (ext x part)"
    and b: "wellFormed root (world s1)" and c: "locals (world s1) = locals (world s)"
    and d: "linkding (world s1) = linkding (world s)" by simp_all
  from Cons.IH [OF b a 2] c d show ?case by simp
qed

lemma ensureFolderPath_server:
  assumes wf: "wellFormed root (world s)"
    and run: "ensureFolderPath (server root) root fp s = (Inr p, s')"
  shows "folderPathOf root (browser (world s')) p = Some (dropWhile (\<lambda>c. c = CHR ''/'') fp)
     \<and> wellFormed root (world s') \<and> locals (world s') = locals (world s)
     \<and> linkding (world s') = linkding (world s)"
proof (cases "fp = []")
  case True
  with run wf show ?thesis by (simp add: ensureFolderPath_def ret_def folderPathOf_def)
next
  case False
  with run have "ensureParts (server root) (splitPath fp) root s = (Inr p, s')"
    by (simp add: ensureFolderPath_def)
  moreover have "folderPathOf root (browser (world s)) root = Some []"
    by (simp add: folderPathOf_def)
  ultimately show ?thesis
    using ensureParts_server [OF wf] foldl_ext_splitPath [of fp] by fastforce
qed

subsection \<open>A bookmark keeps its id and its URL\<close>

lemma marks_append [simp]: "marks (xs @ ys) = marks xs @ marks ys"
  by (induction xs rule: marks.induct) simp_all

lemma marks_walk: "marks f = map (\<lambda>b. (c_id b, c_url b)) (getChromeBookmarksRecursive f pfx)"
  by (induction f pfx rule: forest_induct) simp_all

lemma marks_addChild: "set (marks (addChild p n f)) \<subseteq> set (marks f) \<union> set (marks [n])"
  by (induction p n f rule: addChild.induct) auto

lemma folderIds_addChild: "set (folderIds (addChild p n f)) \<subseteq> set (folderIds f) \<union> set (folderIds [n])"
  by (induction p n f rule: addChild.induct) auto

lemma marks_dropNode: "set (marks (dropNode i f)) \<subseteq> set (marks f)"
  by (induction i f rule: dropNode.induct) auto

lemma folderIds_dropNode: "set (folderIds (dropNode i f)) \<subseteq> set (folderIds f)"
  by (induction i f rule: dropNode.induct) auto

lemma marks_retitle [simp]: "marks (retitle i t f) = marks f"
  by (induction i t f rule: retitle.induct) simp_all

lemma folderIds_retitle [simp]: "folderIds (retitle i t f) = folderIds f"
  by (induction i t f rule: retitle.induct) simp_all

lemma findNode_parts:
  "findNode i f = Some n \<Longrightarrow> set (marks [n]) \<subseteq> set (marks f) \<and> set (folderIds [n]) \<subseteq> set (folderIds f)"
proof (induction i f rule: findNode.induct)
  case (1 i)
  then show ?case by simp
next
  case (2 i j u t d rest)
  then show ?case by (auto split: if_splits)
next
  case (3 i j t kids rest)
  then show ?case by (auto split: if_splits option.splits)
qed

lemma marks_insertUnder:
  "set (marks (insertUnder root p n f)) \<subseteq> set (marks f) \<union> set (marks [n])"
  using marks_addChild [of p n f] by (auto simp: insertUnder_def)

lemma folderIds_insertUnder:
  "set (folderIds (insertUnder root p n f)) \<subseteq> set (folderIds f) \<union> set (folderIds [n])"
  using folderIds_addChild [of p n f] by (auto simp: insertUnder_def)

lemma staysBookmark_browser:
  assumes "staysBookmark i u w" and "set (marks f) \<subseteq> set (marks (browser w))"
    and "set (folderIds f) \<subseteq> set (folderIds (browser w))"
  shows "staysBookmark i u (w\<lparr>browser := f\<rparr>)"
  using assms by (auto simp: staysBookmark_def list_all_iff)

lemma staysBookmark_create:
  assumes st: "staysBookmark i u w"
    and n: "set (marks [n]) \<subseteq> {(newId (issued w), v)}" "set (folderIds [n]) \<subseteq> {newId (issued w)}"
  shows "staysBookmark i u (w\<lparr>browser := insertUnder root p n (browser w), issued := Suc (issued w)\<rparr>)"
proof -
  from st have "i \<noteq> newId (issued w)" by (auto simp: staysBookmark_def dest: olderThan_not_new)
  moreover have "snd iu = u"
    if "iu \<in> set (marks (insertUnder root p n (browser w)))" "fst iu = i" for iu
  proof -
    from that(1) marks_insertUnder [of root p n "browser w"] n(1)
    have "iu \<in> set (marks (browser w)) \<or> fst iu = newId (issued w)" by auto
    with that(2) \<open>i \<noteq> newId (issued w)\<close> st show ?thesis
      by (auto simp: staysBookmark_def list_all_iff)
  qed
  moreover have "i \<notin> set (folderIds (insertUnder root p n (browser w)))"
    using folderIds_insertUnder [of root p n "browser w"] n(2) st \<open>i \<noteq> newId (issued w)\<close>
    by (auto simp: staysBookmark_def)
  ultimately show ?thesis
    using st by (auto simp: staysBookmark_def list_all_iff intro: olderThan_Suc)
qed

lemma staysBookmark_server: "staysBookmark i u w \<Longrightarrow> staysBookmark i u (snd (server root c w))"
proof (cases c)
  case (LdPost u' t d tags)
  assume "staysBookmark i u w"
  then show ?thesis unfolding LdPost by (auto simp: staysBookmark_def intro: olderThan_Suc)
next
  case (LdPut j body)
  assume "staysBookmark i u w"
  then show ?thesis unfolding LdPut by (simp add: staysBookmark_def)
next
  case (LdDelete j)
  assume "staysBookmark i u w"
  then show ?thesis unfolding LdDelete by (simp add: staysBookmark_def)
next
  case LdSearchConfig
  assume "staysBookmark i u w"
  then show ?thesis unfolding LdSearchConfig by (simp split: option.splits)
next
  case (GetChildren p)
  assume "staysBookmark i u w"
  then show ?thesis unfolding GetChildren by (simp split: option.splits)
next
  case (CreateFolder p t)
  assume "staysBookmark i u w"
  then show ?thesis unfolding CreateFolder by (simp add: staysBookmark_create)
next
  case (CreateBookmark p t v)
  assume "staysBookmark i u w"
  then show ?thesis unfolding CreateBookmark by (simp add: staysBookmark_create)
next
  case (UpdateTitle j t)
  assume "staysBookmark i u w"
  then show ?thesis unfolding UpdateTitle by (simp add: staysBookmark_def)
next
  case (Move j p)
  assume st: "staysBookmark i u w"
  show ?thesis
  proof (cases "findNode j (browser w)")
    case None
    with st show ?thesis unfolding Move by simp
  next
    case (Some n)
    have "staysBookmark i u (w\<lparr>browser := insertUnder root p n (dropNode j (browser w))\<rparr>)"
      using marks_insertUnder [of root p n "dropNode j (browser w)"]
        folderIds_insertUnder [of root p n "dropNode j (browser w)"]
        marks_dropNode [of j "browser w"] folderIds_dropNode [of j "browser w"]
        findNode_parts [OF Some]
      by (intro staysBookmark_browser [OF st]) auto
    with st Some show ?thesis unfolding Move by simp
  qed
next
  case (Remove j)
  assume st: "staysBookmark i u w"
  have "staysBookmark i u (w\<lparr>browser := dropNode j (browser w)\<rparr>)"
    using marks_dropNode [of j "browser w"] folderIds_dropNode [of j "browser w"]
    by (intro staysBookmark_browser [OF st]) auto
  with st show ?thesis
    unfolding Remove by (simp split: option.splits node.splits list.splits)
next
  case (RemoveTree j)
  assume st: "staysBookmark i u w"
  have "staysBookmark i u (w\<lparr>browser := dropNode j (browser w)\<rparr>)"
    using marks_dropNode [of j "browser w"] folderIds_dropNode [of j "browser w"]
    by (intro staysBookmark_browser [OF st]) auto
  with st show ?thesis
    unfolding RemoveTree by (simp split: option.splits node.splits)
qed

lemma staysBookmark_after: "staysBookmark i u w \<Longrightarrow> staysBookmark i u (after (server root) cs w)"
  by (induction cs rule: rev_induct) (simp_all add: staysBookmark_server)

lemma staysBookmark_local:
  assumes wf: "wellFormed root w" and b: "b \<in> set (locals w)"
  shows "staysBookmark (c_id b) (c_url b) w"
proof -
  from wf have d: "distinct (nodeIds (browser w))" by (simp add: wellFormed_def)
  from b have b': "b \<in> set (getChromeBookmarksRecursive (browser w) [])" by (simp add: locals_def)
  from wf walk_ids [OF b'] have "olderThan (issued w) (c_id b)"
    by (auto simp: wellFormed_def list_all_iff)
  moreover from walk_not_folder [OF d b'] have "c_id b \<notin> set (folderIds (browser w))" .
  moreover have "snd iu = c_url b" if "iu \<in> set (marks (browser w))" "fst iu = c_id b" for iu
  proof -
    from that(1) obtain b2 where "b2 \<in> set (getChromeBookmarksRecursive (browser w) [])"
      and "iu = (c_id b2, c_url b2)"
      unfolding marks_walk [of "browser w" "[]"] by auto
    with walk_unique [OF d b' this(1)] that(2) show ?thesis by simp
  qed
  ultimately show ?thesis by (simp add: staysBookmark_def list_all_iff)
qed

lemma findNode_folder: "findNode i f = Some (Folder j t kids) \<Longrightarrow> i \<in> set (folderIds f)"
  by (induction i f rule: findNode.induct) (auto split: if_splits option.splits)

lemma findNode_bookmark: "findNode i f = Some (Bookmark j u t d) \<Longrightarrow> (i, u) \<in> set (marks f)"
  by (induction i f rule: findNode.induct) (auto split: if_splits option.splits)

text \<open>A move that succeeds puts the bookmark into the folder, and the walk reads the folder's path.\<close>

lemma move_lands:
  assumes wf: "wellFormed root w" and st: "staysBookmark i u w"
    and mv: "server root (Move i p) w = (Done, w')"
    and path: "folderPathOf root (browser w) p = Some x"
  shows "\<exists>b\<in>set (locals w'). c_id b = i \<and> c_url b = u \<and> c_folderPath b = x"
proof -
  let ?f = "browser w"
  from wf have d: "distinct (root # nodeIds ?f)" by (simp add: wellFormed_def)
  from mv obtain n where fn: "findNode i ?f = Some n"
    and w': "w' = w\<lparr>browser := insertUnder root p n (dropNode i ?f)\<rparr>"
    by (auto split: option.splits if_splits)
  from st have nf: "i \<notin> set (folderIds ?f)" by (simp add: staysBookmark_def)
  from fn nf obtain j v t dt where n: "n = Bookmark j v t dt"
    using findNode_folder [of i ?f] by (cases n) auto
  from findNode_Some [OF fn] n have j: "j = i" by simp
  from findNode_bookmark [of i ?f j v t dt] fn n st have v: "v = u"
    by (auto simp: staysBookmark_def list_all_iff)
  let ?b = "\<lparr>c_id = i, c_url = u, c_title = t, c_dateAdded = dt, c_folderPath = x\<rparr>"
  have "?b \<in> set (locals w')"
  proof (cases "p = root")
    case True
    with path have "x = []" by (simp add: folderPathOf_def)
    with True show ?thesis by (simp add: w' locals_def insertUnder_def n j v)

  next
    case False
    with path d have "(p, x) \<in> set (folderPaths ?f [])" by (simp add: folderPathOf_iff)
    then have "(p, x) \<in> set (folderPaths (dropNode i ?f) [])"
      by (simp add: folderPaths_dropNode [OF nf])
    with False show ?thesis
      by (simp add: w' locals_def insertUnder_def n j v walk_addChild_bookmark)
  qed
  then show ?thesis by (intro bexI [of _ ?b]) simp_all
qed

section \<open>A move on the Linkding side, on the stores\<close>

lemma logged_startD:
  "logged api (startRun w) s \<Longrightarrow> world s = after api (calls s) w"
  by (auto simp: logged_def startRun_def)

lemma logged_callsD:
  "logged api s s' \<Longrightarrow> \<exists>cs. calls s' = calls s @ cs"
  by (auto simp: logged_def)

lemma reconcile_step:
  assumes run: "reconcile api T root now mapping lds cbs s0 = (Inr res, s')"
    and m: "(key, entry) \<in> set mapping"
  shows "\<exists>sa sb. logged api s0 sa
     \<and> processMapped api T root now (indexLd lds) (indexChrome cbs) (key, entry) sa = (Inr (), sb)
     \<and> logged api sb s'"
proof -
  let ?f1 = "newInChrome api T now mapping (indexLd lds)"
  let ?f2 = "newInLinkding api T root now mapping (indexChrome cbs)"
  let ?f3 = "processMapped api T root now (indexLd lds) (indexChrome cbs)"
  from reconcile_Inr [OF run] obtain s1 s2 s3 where
      l1: "forEach ?f1 cbs s0 = (Inr (), s1)"
    and l2: "forEach ?f2 lds s1 = (Inr (), s2)"
    and l3: "forEach ?f3 mapping s2 = (Inr (), s3)"
    and fin: "s' = s3\<lparr>saved := Some (newMapping s3)\<rparr>"
    by blast
  from m obtain pre post where sp: "mapping = pre @ (key, entry) # post"
    by (auto dest: split_list)
  from l3 obtain sa sb where pre: "forEach ?f3 pre s2 = (Inr (), sa)"
    and step: "?f3 (key, entry) sa = (Inr (), sb)"
    and rest: "forEach ?f3 post sb = (Inr (), s3)"
    unfolding sp by (auto simp: forEach_append_Inr forEach_Cons_Inr simp del: forEach.simps)
  have k1: "keeps (logged api) (forEach ?f1 cbs)" by (intro logged_intros)
  have k2: "keeps (logged api) (forEach ?f2 lds)" by (intro logged_intros)
  have k3: "keeps (logged api) (forEach ?f3 xs)" for xs by (intro logged_intros)
  from keepsD [OF k1 l1] keepsD [OF k2 l2] keepsD [OF k3 pre]
  have a: "logged api s0 sa" by (blast intro: logged_trans)
  from keepsD [OF k3 rest] fin have b: "logged api sb s'"
    by (auto intro: logged_then_same)
  from a step b show ?thesis by blast
qed

lemma processMapped_move:
  assumes ok: "processMapped api T root now ldByUrl chromeByUrl (key, entry) sa = (Inr x, sb)"
    and c: "map_of chromeByUrl key = Some cbm" and l: "map_of ldByUrl key = Some ld"
    and n: "needsChromeUpdate (resolve T entry cbm ld)"
    and f: "finalFolderPath (resolve T entry cbm ld) \<noteq> c_folderPath cbm"
  shows "\<exists>s1 s2 s3 p. logged api sa s1
     \<and> ensureFolderPath api root (finalFolderPath (resolve T entry cbm ld)) s1 = (Inr p, s2)
     \<and> perform api (Move (c_id cbm) p) s2 = (Inr (), s3) \<and> logged api s3 sb"
proof -
  let ?r = "resolve T entry cbm ld"
  from ok c l obtain su sc where 1: "updateLd api T ld ?r sa = (Inr (), su)"
    and 2: "updateChrome api root cbm ?r su = (Inr (), sc)"
    and 3: "sb = sc\<lparr>newMapping := AList.update key (storedEntry now key entry cbm ld ?r) (newMapping sc)\<rparr>"
    by (auto simp: processMapped_def andThen_Inr storeEntry_eq Let_def)
  let ?t = "if finalTitle ?r \<noteq> c_title cbm then perform api (UpdateTitle (c_id cbm) (finalTitle ?r))
           else ret ()"
  from 2 n f obtain s1 s2 p s3 where t: "?t su = (Inr (), s1)"
    and e: "ensureFolderPath api root (finalFolderPath ?r) s1 = (Inr p, s2)"
    and mv: "perform api (Move (c_id cbm) p) s2 = (Inr (), s3)"
    and 4: "sc = s3\<lparr>updated := updated s3 + 1\<rparr>"
    by (auto simp: updateChrome_def andThen_Inr)
  have "keeps (logged api) ?t" by (auto intro!: logged_intros)
  from keepsD [OF logged_updateLd 1] keepsD [OF this t] have a: "logged api sa s1"
    by (rule logged_trans)
  have b: "logged api s3 sb" unfolding 3 4 by (rule logged_same) simp_all
  from a e mv b show ?thesis by blast
qed

lemma perform_server_move:
  assumes "perform (server root) (Move i p) s = (Inr (), s')"
  shows "server root (Move i p) (world s) = (Done, world s') \<and> calls s' = calls s @ [Move i p]"
proof -
  obtain r s1 where iv: "invoke (server root) (Move i p) s = (r, s1)"
    by (cases "invoke (server root) (Move i p) s")
  with assms have s1: "s1 = s'" and r: "r \<noteq> Thrown" "r \<noteq> HttpError"
    by (auto simp: perform_def split: reply.splits)
  from invoke_server_world [OF iv] have sv: "server root (Move i p) (world s) = (r, world s1)" .
  then have "r = Done \<or> r = Thrown" by (auto split: option.splits if_splits)
  with r sv s1 invoked [OF iv] show ?thesis by simp
qed

lemma local_reading:
  "localAt (reading w m) key = Some cbm \<Longrightarrow> cbm \<in> set (locals w) \<and> c_url cbm = key"
  using indexChrome_Some [of "locals w" key cbm]
  by (simp add: localAt_def localItems_def reading_def locals_def)

text \<open>
  The case of \<^verbatim>\<open>path_resolution\<close> in which only the Linkding path differs from the remembered
  one, on the stores: a run that starts from well-formed stores, reads them, and
  completes. Its log holds a move of the browser bookmark into a folder \<open>p\<close>; in the
  world after the calls that precede the move, \<open>p\<close> is the folder whose bookmarks the
  walk lists under the Linkding path without its leading slashes; and in the world after
  the move the walk lists the bookmark there. For a path that does not begin with a
  slash this is the Linkding path.
\<close>

theorem remote_move_lands:
  assumes run: "runTwoWaySync (server root) cfg (reading w m) now w = (Inr res, s')"
    and cfg: "twoWaySyncFolderId cfg = Some root"
    and wf: "wellFormed root w"
    and m: "(key, entry) \<in> set m"
    and c: "localAt (reading w m) key = Some cbm"
    and l: "remoteAt cfg (reading w m) key = Some ld"
    and same: "c_folderPath cbm = folderPath entry"
    and moved: "extractFolderPath (twoWaySyncTag cfg) (ld_tag_names ld) \<noteq> folderPath entry"
  shows "\<exists>cs cs' p. calls s' = cs @ Move (c_id cbm) p # cs'
     \<and> folderPathOf root (browser (after (server root) cs w)) p
         = Some (dropWhile (\<lambda>c. c = CHR ''/'') (extractFolderPath (twoWaySyncTag cfg) (ld_tag_names ld)))
     \<and> (\<exists>b\<in>set (locals (after (server root) (cs @ [Move (c_id cbm) p]) w)).
           c_id b = c_id cbm \<and> c_url b = key
           \<and> c_folderPath b
               = dropWhile (\<lambda>c. c = CHR ''/'') (extractFolderPath (twoWaySyncTag cfg) (ld_tag_names ld)))"
proof -
  let ?T = "twoWaySyncTag cfg"
  let ?api = "server root"
  let ?r = "resolve ?T entry cbm ld"
  let ?lp = "extractFolderPath ?T (ld_tag_names ld)"
  from runTwoWaySync_Inr [OF run] cfg obtain all where
      f: "fetched (reading w m) = Some all"
    and rec: "reconcile ?api ?T root now m (withExactTag ?T all)
           (getChromeBookmarksRecursive (browser w) []) (startRun w) = (Inr res, s')"
    by (auto simp: truthy_def reading_def split: if_splits)
  from c have c': "map_of (indexChrome (getChromeBookmarksRecursive (browser w) [])) key = Some cbm"
    by (simp add: localAt_def localItems_def reading_def)
  from l f have l': "map_of (indexLd (withExactTag ?T all)) key = Some ld"
    by (simp add: remoteAt_def remoteItems_def)
  from same moved have n: "needsChromeUpdate ?r" and fp: "finalFolderPath ?r = ?lp"
    by (simp_all add: resolve_needsChrome resolve_path)
  from same moved fp have ne: "finalFolderPath ?r \<noteq> c_folderPath cbm" by simp
  from reconcile_step [OF rec m] obtain sa sb where
      a: "logged ?api (startRun w) sa"
    and step: "processMapped ?api ?T root now (indexLd (withExactTag ?T all))
          (indexChrome (getChromeBookmarksRecursive (browser w) [])) (key, entry) sa = (Inr (), sb)"
    and b: "logged ?api sb s'"
    by blast
  from processMapped_move [OF step c' l' n ne] fp obtain s1 s2 s3 p where
      a1: "logged ?api sa s1"
    and e: "ensureFolderPath ?api root ?lp s1 = (Inr p, s2)"
    and mv: "perform ?api (Move (c_id cbm) p) s2 = (Inr (), s3)"
    and b3: "logged ?api s3 sb"
    by auto
  from a a1 have l1: "logged ?api (startRun w) s1" by (rule logged_trans)
  from logged_startD [OF l1] have w1: "world s1 = after ?api (calls s1) w" .
  have wf1: "wellFormed root (world s1)" unfolding w1 by (rule wellFormed_after [OF wf])
  from ensureFolderPath_server [OF wf1 e]
  have path: "folderPathOf root (browser (world s2)) p = Some (dropWhile (\<lambda>c. c = CHR ''/'') ?lp)"
    and wf2: "wellFormed root (world s2)" by simp_all
  from keepsD [OF logged_ensureFolderPath e] l1 have l2: "logged ?api (startRun w) s2"
    by (blast intro: logged_trans)
  from logged_startD [OF l2] have w2: "world s2 = after ?api (calls s2) w" .
  from local_reading [OF c] have cb: "cbm \<in> set (locals w)" and cu: "c_url cbm = key" by simp_all
  from staysBookmark_after [OF staysBookmark_local [OF wf cb], of root "calls s2"]
  have st: "staysBookmark (c_id cbm) key (world s2)" by (simp add: w2 cu)
  from perform_server_move [OF mv] have sv: "server root (Move (c_id cbm) p) (world s2) = (Done, world s3)"
    and c3: "calls s3 = calls s2 @ [Move (c_id cbm) p]" by simp_all
  from move_lands [OF wf2 st sv path]
  have land: "\<exists>b\<in>set (locals (world s3)). c_id b = c_id cbm \<and> c_url b = key
      \<and> c_folderPath b = dropWhile (\<lambda>c. c = CHR ''/'') ?lp" .
  from sv have w3: "world s3 = after ?api (calls s2 @ [Move (c_id cbm) p]) w"
    by (simp add: w2)
  from logged_callsD [OF b3] logged_callsD [OF b] c3 obtain cs' where
      "calls s' = calls s2 @ Move (c_id cbm) p # cs'" by auto
  with path land show ?thesis
    unfolding w2 w3 by (intro exI [of _ "calls s2"] exI [of _ cs'] exI [of _ p]) simp
qed

text \<open>
  The Linkding bookmark was moved to \<open>Read\<close> while the browser bookmark stayed in \<open>Work\<close>:
  the run moves the browser bookmark, and the walk then lists it under \<open>Read\<close>.
\<close>

theorem remote_move_lands_witness:
  "fst (runTwoWaySync (server ''1'') exampleSettings (reading readStores quietMapping) 100 readStores)
      = Inr \<lparr>res_added = 0, res_removed = 0, res_updated = 1, res_total = 1\<rparr>
   \<and> twoWaySyncFolderId exampleSettings = Some ''1''
   \<and> wellFormed ''1'' readStores
   \<and> (exampleUrl, quietEntry) \<in> set quietMapping
   \<and> localAt (reading readStores quietMapping) exampleUrl = Some (renamedLocal ''A'')
   \<and> remoteAt exampleSettings (reading readStores quietMapping) exampleUrl
       = Some (quietRemote\<lparr>ld_tag_names := [''sync'', ''sync/Read'', ''keep'']\<rparr>)
   \<and> c_folderPath (renamedLocal ''A'') = folderPath quietEntry
   \<and> (\<exists>cs cs' p.
         calls (snd (runTwoWaySync (server ''1'') exampleSettings (reading readStores quietMapping)
                  100 readStores))
           = cs @ Move ''10'' p # cs'
         \<and> folderPathOf ''1'' (browser (after (server ''1'') cs readStores)) p = Some ''Read''
         \<and> (\<exists>b\<in>set (locals (after (server ''1'') (cs @ [Move ''10'' p]) readStores)).
               c_id b = ''10'' \<and> c_url b = exampleUrl \<and> c_folderPath b = ''Read''))"
proof -
  let ?run = "runTwoWaySync (server ''1'') exampleSettings (reading readStores quietMapping) 100 readStores"
  have r: "fst ?run = Inr \<lparr>res_added = 0, res_removed = 0, res_updated = 1, res_total = 1\<rparr>"
    by code_simp
  then have run: "?run = (Inr \<lparr>res_added = 0, res_removed = 0, res_updated = 1, res_total = 1\<rparr>, snd ?run)"
    by (cases ?run) simp
  have cfg: "twoWaySyncFolderId exampleSettings = Some ''1''" by code_simp
  have wf: "wellFormed ''1'' readStores" by code_simp
  have m: "(exampleUrl, quietEntry) \<in> set quietMapping" by code_simp
  have c: "localAt (reading readStores quietMapping) exampleUrl = Some (renamedLocal ''A'')"
    by code_simp
  have l: "remoteAt exampleSettings (reading readStores quietMapping) exampleUrl
       = Some (quietRemote\<lparr>ld_tag_names := [''sync'', ''sync/Read'', ''keep'']\<rparr>)"
    by code_simp
  have same: "c_folderPath (renamedLocal ''A'') = folderPath quietEntry" by code_simp
  have lp: "extractFolderPath (twoWaySyncTag exampleSettings)
      (ld_tag_names (quietRemote\<lparr>ld_tag_names := [''sync'', ''sync/Read'', ''keep'']\<rparr>)) = ''Read''"
    by code_simp
  have moved: "extractFolderPath (twoWaySyncTag exampleSettings)
      (ld_tag_names (quietRemote\<lparr>ld_tag_names := [''sync'', ''sync/Read'', ''keep'']\<rparr>))
        \<noteq> folderPath quietEntry"
    by code_simp
  have i: "c_id (renamedLocal ''A'') = ''10''" by code_simp
  from remote_move_lands [OF run cfg wf m c l same moved]
  have "\<exists>cs cs' p. calls (snd ?run) = cs @ Move ''10'' p # cs'
         \<and> folderPathOf ''1'' (browser (after (server ''1'') cs readStores)) p = Some ''Read''
         \<and> (\<exists>b\<in>set (locals (after (server ''1'') (cs @ [Move ''10'' p]) readStores)).
               c_id b = ''10'' \<and> c_url b = exampleUrl \<and> c_folderPath b = ''Read'')"
    unfolding lp i by simp
  with r cfg wf m c l same show ?thesis by blast
qed


text \<open>
  The empty title of \<^verbatim>\<open>empty_title_not_sent\<close> on the stores, over two runs. The first run
  sends the PUT without a title, Linkding keeps the title \<open>A\<close>, and the entry records the
  empty title. The second run, with no change in between, finds the Linkding title
  different from the recorded one and renames the browser bookmark back to \<open>A\<close>.
\<close>

theorem cleared_title_is_restored:
  "runTwoWaySync (server ''1'') exampleSettings (reading clearedStores quietMapping) 100 clearedStores
     = (Inr \<lparr>res_added = 0, res_removed = 0, res_updated = 1, res_total = 1\<rparr>,
        \<lparr>world = clearedStores\<lparr>linkding :=
             [(quietRemote\<lparr>ld_date_modified := Some 90\<rparr>, None)]\<rparr>,
         calls = [LdPut 7 \<lparr>b_url = Some exampleUrl, b_title = None, b_description = None,
                            b_tag_names = Some [''sync'', ''sync/Work'', ''keep'']\<rparr>],
         console = [],
         newMapping = [(exampleUrl, quietEntry\<lparr>title := [], lastSynced := 100\<rparr>)],
         added = 0, removed = 0, updated = 1, downloaded = 0,
         saved = Some [(exampleUrl, quietEntry\<lparr>title := [], lastSynced := 100\<rparr>)]\<rparr>)
   \<and> fst (runTwoWaySync (server ''1'') exampleSettings
         (reading (clearedStores\<lparr>linkding :=
             [(quietRemote\<lparr>ld_date_modified := Some 90\<rparr>, None)]\<rparr>)
            [(exampleUrl, quietEntry\<lparr>title := [], lastSynced := 100\<rparr>)])
         200
         (clearedStores\<lparr>linkding :=
             [(quietRemote\<lparr>ld_date_modified := Some 90\<rparr>, None)]\<rparr>))
       = Inr \<lparr>res_added = 0, res_removed = 0, res_updated = 1, res_total = 1\<rparr>
   \<and> calls (snd (runTwoWaySync (server ''1'') exampleSettings
         (reading (clearedStores\<lparr>linkding :=
             [(quietRemote\<lparr>ld_date_modified := Some 90\<rparr>, None)]\<rparr>)
            [(exampleUrl, quietEntry\<lparr>title := [], lastSynced := 100\<rparr>)])
         200
         (clearedStores\<lparr>linkding :=
             [(quietRemote\<lparr>ld_date_modified := Some 90\<rparr>, None)]\<rparr>)))
       = [UpdateTitle ''10'' ''A'']"
  by code_simp

section \<open>Updates of Linkding bookmarks keep the tags outside the namespace\<close>

subsection \<open>The world of an initial sync is the world after its calls\<close>

lemma logged_console: "logged api s s1 \<Longrightarrow> logged api s (s1\<lparr>console := x\<rparr>)"
  by (erule logged_then_same) simp_all

lemma logged_processBatch [logged_intros]:
  assumes "\<And>x. x \<in> set xs \<Longrightarrow> keeps (logged api) (f x)"
  shows "keeps (logged api) (processBatch f xs)"
  unfolding keeps_def
proof
  fix s
  from assms show "logged api s (snd (processBatch f xs s))"
  proof (induction xs arbitrary: s)
    case Nil
    show ?case by (simp add: logged_refl)
  next
    case (Cons x xs)
    obtain r s1 where st: "f x s = (r, s1)" by (cases "f x s")
    have 1: "logged api s s1" using Cons.prems [of x] st by (auto dest: keepsD)
    show ?case
    proof (cases r)
      case (Inl e)
      have "logged api s (s1\<lparr>console := console s1 @ [e]\<rparr>)"
        using 1 by (rule logged_console)
      moreover have "logged api (s1\<lparr>console := console s1 @ [e]\<rparr>)
          (snd (processBatch f xs (s1\<lparr>console := console s1 @ [e]\<rparr>)))"
        using Cons.IH Cons.prems by simp
      ultimately show ?thesis using st Inl by (auto intro: logged_trans)
    next
      case (Inr u)
      have "logged api s1 (snd (processBatch f xs s1))" using Cons.IH Cons.prems by simp
      then show ?thesis using st Inr 1 by (auto intro: logged_trans)
    qed
  qed
qed

lemma logged_pushItem [logged_intros]: "keeps (logged api) (pushItem api T now ldByUrl cbm)"
  unfolding pushItem_def Let_def
  by (auto intro!: logged_intros split: option.splits)

lemma logged_pullItem [logged_intros]: "keeps (logged api) (pullItem api T root now ld)"
  unfolding pullItem_def Let_def
  by (auto intro!: logged_intros)

lemma logged_mergeBoth [logged_intros]: "keeps (logged api) (mergeBoth api T now key ld cbm)"
  unfolding mergeBoth_def Let_def
  by (auto intro!: logged_intros)

lemma logged_mergeItem [logged_intros]:
  "keeps (logged api) (mergeItem api T root now ldByUrl chromeByUrl key)"
  unfolding mergeItem_def Let_def
  by (auto intro!: logged_intros split: option.splits)

lemma logged_removeChildrenOf [logged_intros]: "keeps (logged api) (removeChildrenOf api folderId)"
  unfolding removeChildrenOf_def removeChild_def
  by (auto intro!: logged_intros split: node.splits)

lemma logged_strategy [logged_intros]:
  "keeps (logged api) (strategy api mode T root now lds cbs)"
proof -
  have push: "keeps (logged api) (pushStrategy api T now lds cbs)"
    unfolding pushStrategy_def by (intro logged_intros)
  have "keeps (logged api) (\<lambda>s. case fetchConfig api s of (config, s1) \<Rightarrow>
          andThen (removeChildrenOf api root)
              (\<lambda>u. processBatch (pullItem api T root now)
                 (case config of Some order \<Rightarrow> sortByOrder order ld_url lds | None \<Rightarrow> lds)) s1)"
    by (intro logged_intros)
  then have pull: "keeps (logged api) (pullStrategy api T root now lds)"
    by (simp add: pullStrategy_def [abs_def] Let_def)
  have "keeps (logged api) (\<lambda>s. case fetchConfig api s of (config, s1) \<Rightarrow>
          forEach (mergeItem api T root now (indexLd lds) (indexChrome cbs))
            (if length (case config of Some order \<Rightarrow> order | None \<Rightarrow> []) > 0
             then sortByOrder (case config of Some order \<Rightarrow> order | None \<Rightarrow> []) (\<lambda>u. u)
                    (uniqueInOrder (map fst (indexLd lds) @ map fst (indexChrome cbs)))
             else uniqueInOrder (map fst (indexLd lds) @ map fst (indexChrome cbs))) s1)"
    by (intro logged_intros)
  then have merge: "keeps (logged api) (mergeStrategy api T root now lds cbs)"
    by (simp add: mergeStrategy_def [abs_def] Let_def)
  show ?thesis
    unfolding strategy_def using push pull merge by (simp add: logged_ret)
qed

lemma logged_saveConfig [logged_intros]: "keeps (logged api) (saveConfig api order existingId)"
  unfolding keeps_def
proof
  fix s
  show "logged api s (snd (saveConfig api order existingId s))"
  proof (cases existingId)
    case None
    obtain r s1 where c: "createLinkdingBookmark api CONFIG_URL CONFIG_TITLE (Some order)
        [''bookmark-sync-config''] s = (r, s1)"
      by (cases "createLinkdingBookmark api CONFIG_URL CONFIG_TITLE (Some order)
        [''bookmark-sync-config''] s")
    from keepsD [OF logged_createLinkdingBookmark c] have "logged api s s1" .
    with c None show ?thesis
      by (cases r) (simp_all add: saveConfig_def logged_console)
  next
    case (Some i)
    obtain r s1 where c: "updateLinkdingBookmark api i None None (Some order) None s = (r, s1)"
      by (cases "updateLinkdingBookmark api i None None (Some order) None s")
    from keepsD [OF logged_updateLinkdingBookmark c] have "logged api s s1" .
    with c Some show ?thesis
      by (cases r) (simp_all add: saveConfig_def logged_console)
  qed
qed

lemma logged_initialConfig [logged_intros]: "keeps (logged api) (initialConfig api root)"
  unfolding keeps_def
proof
  fix s
  obtain g s1 where g: "getChildren api root s = (g, s1)" by (cases "getChildren api root s")
  from keepsD [OF logged_getChildren g] have e1: "logged api s s1" .
  show "logged api s (snd (initialConfig api root s))"
  proof (cases g)
    case (Inl e)
    with g e1 show ?thesis by (simp add: initialConfig_def logged_console)
  next
    case (Inr nodes)
    obtain r s2 where i: "invoke api LdSearchConfig s1 = (r, s2)"
      by (cases "invoke api LdSearchConfig s1")
    from keepsD [OF logged_invoke i] have "logged api s1 s2" .
    with e1 have e2: "logged api s s2" by (rule logged_trans)
    let ?order = "map c_url (getChromeBookmarksRecursive nodes [])"
    let ?s2 = "if r = HttpError then s2\<lparr>console := console s2 @ [CallFailed LdSearchConfig]\<rparr> else s2"
    let ?id = "case r of SearchHit i order \<Rightarrow> Some i | other \<Rightarrow> None"
    have e2': "logged api s ?s2" using e2 by (simp add: logged_console)
    obtain v s3 where sc: "saveConfig api ?order ?id ?s2 = (v, s3)"
      by (cases "saveConfig api ?order ?id ?s2")
    from keepsD [OF logged_saveConfig sc] e2' have e3: "logged api s s3" by (blast intro: logged_trans)
    show ?thesis
    proof (cases "r = Thrown")
      case True
      with g Inr i e2 show ?thesis by (simp add: initialConfig_def logged_console)
    next
      case False
      with g Inr i sc e3 show ?thesis
        by (cases r; cases v) (simp_all add: initialConfig_def Let_def logged_console)
    qed
  qed
qed

lemma runInitialTwoWaySync_logged:
  "logged api (startRun w) (snd (runInitialTwoWaySync api cfg snap mode now w))"
proof (cases "s_url cfg = [] \<or> s_token cfg = [] \<or> truthy (twoWaySyncFolderId cfg) = None
    \<or> \<not> folderExists snap \<or> fetched snap = None")
  case True
  then show ?thesis
    by (auto simp: runInitialTwoWaySync_def logged_refl split: option.splits)
next
  case False
  then obtain root all where root: "truthy (twoWaySyncFolderId cfg) = Some root"
    and f: "fetched snap = Some all" by auto
  let ?st = "strategy api mode (twoWaySyncTag cfg) root now (withExactTag (twoWaySyncTag cfg) all)
      (getChromeBookmarksRecursive (tree snap) [])"
  obtain r s1 where st: "?st (startRun w) = (r, s1)" by (cases "?st (startRun w)")
  from keepsD [OF logged_strategy st] have e1: "logged api (startRun w) s1" .
  show ?thesis
  proof (cases r)
    case (Inl e)
    with False root f st e1 show ?thesis by (simp add: runInitialTwoWaySync_def)
  next
    case (Inr u)
    obtain ce s2 where ic: "initialConfig api root (s1\<lparr>saved := Some (newMapping s1)\<rparr>) = (ce, s2)"
      by (cases "initialConfig api root (s1\<lparr>saved := Some (newMapping s1)\<rparr>)")
    have "logged api (startRun w) (s1\<lparr>saved := Some (newMapping s1)\<rparr>)"
      using e1 by (rule logged_then_same) simp_all
    with keepsD [OF logged_initialConfig ic] have "logged api (startRun w) s2"
      by (blast intro: logged_trans)
    with False root f st Inr ic show ?thesis by (simp add: runInitialTwoWaySync_def)
  qed
qed

lemma runInitialTwoWaySync_world:
  "world (snd (runInitialTwoWaySync api cfg snap mode now w))
     = after api (calls (snd (runInitialTwoWaySync api cfg snap mode now w))) w"
  using runInitialTwoWaySync_logged [of api w cfg snap mode now]
  by (auto simp: logged_def startRun_def)

subsection \<open>The updates a run sends\<close>

lemma reconcilerPut_other [simp]:
  "reconcilerPut T lds cbs (LdPost u t d tags)" "reconcilerPut T lds cbs (LdDelete i)"
  "reconcilerPut T lds cbs LdSearchConfig" "reconcilerPut T lds cbs (GetChildren p)"
  "reconcilerPut T lds cbs (CreateFolder p n)" "reconcilerPut T lds cbs (CreateBookmark p t u)"
  "reconcilerPut T lds cbs (UpdateTitle p t)" "reconcilerPut T lds cbs (Move p q)"
  "reconcilerPut T lds cbs (Remove p)" "reconcilerPut T lds cbs (RemoveTree p)"
  by (simp_all add: reconcilerPut_def)

lemma reconcilerPut_folder: "isFolderCall c \<Longrightarrow> reconcilerPut T lds cbs c"
  by (cases c) simp_all

lemma reconcilerPut_link:
  "ld \<in> set lds \<Longrightarrow> cbm \<in> set cbs \<Longrightarrow> ld_url ld = c_url cbm
     \<Longrightarrow> reconcilerPut T lds cbs (LdPut (ld_id ld) \<lparr>b_url = u, b_title = t, b_description = None,
           b_tag_names = Some (mergedTags ld (buildTagsForPath T (c_folderPath cbm)))\<rparr>)"
  unfolding reconcilerPut_def
  by (simp, intro bexI [of _ ld] conjI disjI2 bexI [of _ cbm]) simp_all

lemma reconcilerPut_corrective:
  "ld \<in> set lds \<Longrightarrow> reconcilerPut T lds cbs (LdPut (ld_id ld) \<lparr>b_url = u, b_title = t,
      b_description = None, b_tag_names = Some (newTags T fp ld)\<rparr>)"
  unfolding reconcilerPut_def by auto

lemma keeps_reconcile_put:
  "keeps (effect (reconcilerPut T lds cbs) (\<lambda>k v. True)) (reconcile api T root now mapping lds cbs)"
  unfolding reconcile_def Let_def
proof (intro keeps_effect_andThen keeps_effect_forEach)
  fix cbm
  assume "cbm \<in> set cbs"
  then show "keeps (effect (reconcilerPut T lds cbs) (\<lambda>k v. True))
      (newInChrome api T now mapping (indexLd lds) cbm)"
    by (intro keeps_newInChrome) (auto dest!: indexLd_Some intro!: reconcilerPut_link)
next
  fix ld
  show "keeps (effect (reconcilerPut T lds cbs) (\<lambda>k v. True))
          (newInLinkding api T root now mapping (indexChrome cbs) ld)"
    by (rule keeps_newInLinkding) (auto intro: reconcilerPut_folder)
next
  fix ke :: "string \<times> mappingEntry"
  obtain key entry where ke: "ke = (key, entry)" by (cases ke)
  show "keeps (effect (reconcilerPut T lds cbs) (\<lambda>k v. True))
          (processMapped api T root now (indexLd lds) (indexChrome cbs) ke)"
    unfolding ke
    by (rule keeps_processMapped)
       (auto dest: indexLd_Some intro: reconcilerPut_corrective reconcilerPut_folder)
qed (simp add: keeps_def effect_same)

lemma runTwoWaySync_effect_put:
  "effect (reconcilerPut (twoWaySyncTag cfg) (remoteItems cfg snap) (localItems snap)) (\<lambda>k v. True)
     (startRun w) (snd (runTwoWaySync api cfg snap now w))"
  unfolding runTwoWaySync_def
  using keeps_reconcile_put [unfolded keeps_def, rule_format, where s = "startRun w"]
  by (auto simp: effect_refl remoteItems_def localItems_def split: option.splits)

lemma initialPut_other [simp]:
  "initialPut T lds cbs (LdPost u t d tags)" "initialPut T lds cbs (LdDelete i)"
  "initialPut T lds cbs LdSearchConfig" "initialPut T lds cbs (GetChildren p)"
  "initialPut T lds cbs (CreateFolder p n)" "initialPut T lds cbs (CreateBookmark p t u)"
  "initialPut T lds cbs (UpdateTitle p t)" "initialPut T lds cbs (Move p q)"
  "initialPut T lds cbs (Remove p)" "initialPut T lds cbs (RemoveTree p)"
  "initialPut T lds cbs (LdPut i \<lparr>b_url = None, b_title = None, b_description = Some order,
                      b_tag_names = None\<rparr>)"
  by (simp_all add: initialPut_def)

lemma initialPut_folder: "isFolderCall c \<Longrightarrow> initialPut T lds cbs c"
  by (cases c) simp_all

lemma initialPut_link:
  "ld \<in> set lds \<Longrightarrow> cbm \<in> set cbs \<Longrightarrow> ld_url ld = c_url cbm
     \<Longrightarrow> initialPut T lds cbs (LdPut (ld_id ld) \<lparr>b_url = u, b_title = t, b_description = None,
           b_tag_names = Some (mergedTags ld (buildTagsForPath T (c_folderPath cbm)))\<rparr>)"
  unfolding initialPut_def
  by (simp, intro bexI [of _ ld] conjI bexI [of _ cbm]) simp_all

lemma keeps_strategy_put:
  "keeps (effect (initialPut T lds cbs) (\<lambda>k v. True)) (strategy api mode T root now lds cbs)"
proof (rule keeps_strategy)
  fix cbm
  assume "cbm \<in> set cbs"
  then show "keeps (effect (initialPut T lds cbs) (\<lambda>k v. True)) (pushItem api T now (indexLd lds) cbm)"
    by (intro keeps_pushItem) (auto dest!: indexLd_Some intro!: initialPut_link)
next
  fix ld
  show "keeps (effect (initialPut T lds cbs) (\<lambda>k v. True)) (pullItem api T root now ld)"
    by (rule keeps_pullItem) (auto intro: initialPut_folder)
next
  fix k
  show "keeps (effect (initialPut T lds cbs) (\<lambda>k v. True))
          (mergeItem api T root now (indexLd lds) (indexChrome cbs) k)"
    by (rule keeps_mergeItem)
       (auto dest!: indexLd_Some indexChrome_Some intro!: initialPut_link intro: initialPut_folder)
qed simp_all

lemma runInitialTwoWaySync_effect_put:
  "effect (initialPut (twoWaySyncTag cfg) (remoteItems cfg snap) (localItems snap)) (\<lambda>k v. True)
     (startRun w) (snd (runInitialTwoWaySync api cfg snap mode now w))"
  by (rule runInitialTwoWaySync_effect) (simp_all add: keeps_strategy_put keeps_initialConfig)

subsection \<open>The tags of a bookmark through the calls of a run\<close>

lemma server_linkding:
  "linkding (snd (server root c w)) =
     (case c of
        LdPost u t d tags \<Rightarrow> linkding w @
           [(\<lparr>ld_id = issued w, ld_url = u, ld_title = t, ld_tag_names = tags,
              ld_date_modified = Some (clock w)\<rparr>, d)]
      | LdPut i body \<Rightarrow> map (\<lambda>item. if ld_id (fst item) = i
                                          then applyPut (clock w) body item else item) (linkding w)
      | LdDelete i \<Rightarrow> filter (\<lambda>item. ld_id (fst item) \<noteq> i) (linkding w)
      | other \<Rightarrow> linkding w)"
proof (cases c)
  case (LdPut i body)
  have "map (\<lambda>item. if ld_id (fst item) = i then applyPut (clock w) body item else item) (linkding w)
      = linkding w" if "i \<notin> (\<lambda>item. ld_id (fst item)) ` set (linkding w)"
    using that by (intro map_idI) auto
  with LdPut show ?thesis by auto
qed (auto split: option.splits node.splits list.splits)

lemma server_issued: "issued w \<le> issued (snd (server root c w))"
  by (cases c) (auto split: option.splits node.splits list.splits)

lemma tags_applyPut:
  "ld_tag_names (fst (applyPut t body item))
     = (case b_tag_names body of Some ts \<Rightarrow> ts | None \<Rightarrow> ld_tag_names (fst item))"
  by (simp add: applyPut_def)

lemma tags_stay:
  assumes wf: "wellFormed root w0"
    and ok: "\<And>i body tags. LdPut i body \<in> set cs \<Longrightarrow> b_tag_names body = Some tags
        \<Longrightarrow> \<exists>item\<in>set (linkding w0). ld_id (fst item) = i \<and> set (otherTags T (fst item)) \<subseteq> set tags"
  shows "issued w0 \<le> issued (after (server root) cs w0)
     \<and> (\<forall>item'\<in>set (linkding (after (server root) cs w0)). \<forall>item\<in>set (linkding w0).
           ld_id (fst item') = ld_id (fst item)
           \<longrightarrow> set (otherTags T (fst item)) \<subseteq> set (ld_tag_names (fst item')))"
  using ok
proof (induction cs rule: rev_induct)
  case Nil
  from wf have d: "distinct (map (\<lambda>item. ld_id (fst item)) (linkding w0))"
    by (simp add: wellFormed_def)
  have "item' = item" if "item' \<in> set (linkding w0)" "item \<in> set (linkding w0)"
    "ld_id (fst item') = ld_id (fst item)" for item item'
    using d that by (auto simp: distinct_map inj_on_def)
  then show ?case by (auto simp: otherTags_def)
next
  case (snoc c cs)
  let ?w = "after (server root) cs w0"
  from wf have d: "distinct (map (\<lambda>item. ld_id (fst item)) (linkding w0))"
    and old: "\<And>item. item \<in> set (linkding w0) \<Longrightarrow> ld_id (fst item) < issued w0"
    by (simp_all add: wellFormed_def list_all_iff)
  have same: "item' = item" if "item' \<in> set (linkding w0)" "item \<in> set (linkding w0)"
    "ld_id (fst item') = ld_id (fst item)" for item item'
    using d that by (auto simp: distinct_map inj_on_def)
  have ih: "issued w0 \<le> issued ?w"
    "\<And>item' item. item' \<in> set (linkding ?w) \<Longrightarrow> item \<in> set (linkding w0)
        \<Longrightarrow> ld_id (fst item') = ld_id (fst item)
        \<Longrightarrow> set (otherTags T (fst item)) \<subseteq> set (ld_tag_names (fst item'))"
    using snoc.IH snoc.prems by auto
  have 1: "issued w0 \<le> issued (snd (server root c ?w))"
    using ih(1) server_issued [of ?w root c] by simp
  define w' where "w' = snd (server root c ?w)"
  have lk: "linkding w' =
     (case c of
        LdPost u t d tags \<Rightarrow> linkding ?w @
           [(\<lparr>ld_id = issued ?w, ld_url = u, ld_title = t, ld_tag_names = tags,
              ld_date_modified = Some (clock ?w)\<rparr>, d)]
      | LdPut i body \<Rightarrow> map (\<lambda>item. if ld_id (fst item) = i
                                          then applyPut (clock ?w) body item else item) (linkding ?w)
      | LdDelete i \<Rightarrow> filter (\<lambda>item. ld_id (fst item) \<noteq> i) (linkding ?w)
      | other \<Rightarrow> linkding ?w)"
    unfolding w'_def by (rule server_linkding)
  have 2: "set (otherTags T (fst item)) \<subseteq> set (ld_tag_names (fst item'))"
    if i': "item' \<in> set (linkding w')" and i: "item \<in> set (linkding w0)"
      and eq: "ld_id (fst item') = ld_id (fst item)" for item' item
  proof (cases c)
    case (LdPost u t desc tags)
    with i' old [OF i] ih(1) eq lk have "item' \<in> set (linkding ?w)"
      by auto
    from ih(2) [OF this i eq] show ?thesis .
  next
    case (LdPut j body)
    from i' have "item' \<in> (\<lambda>item. if ld_id (fst item) = j then applyPut (clock ?w) body item else item)
        ` set (linkding ?w)"
      using lk unfolding LdPut by simp
    then obtain it where it: "it \<in> set (linkding ?w)"
      and item': "item' = (if ld_id (fst it) = j then applyPut (clock ?w) body it else it)"
      by (rule imageE)
    show ?thesis
    proof (cases "ld_id (fst it) = j \<and> b_tag_names body \<noteq> None")
      case True
      then obtain tags where tags: "b_tag_names body = Some tags" by auto
      from snoc.prems [of j body tags] LdPut tags obtain item0 where
          i0: "item0 \<in> set (linkding w0)" "ld_id (fst item0) = j"
          "set (otherTags T (fst item0)) \<subseteq> set tags"
        by auto
      from True item' eq have "ld_id (fst item) = j" by simp
      with same [OF i0(1) i] i0(2) have "item0 = item" by simp
      with i0(3) True item' tags show ?thesis by (simp add: tags_applyPut)
    next
      case False
      with item' have "ld_tag_names (fst item') = ld_tag_names (fst it)"
        "ld_id (fst item') = ld_id (fst it)"
        by (auto simp: tags_applyPut)
      with ih(2) [OF it i] eq show ?thesis by simp
    qed
  next
    case (LdDelete j)
    with i' lk have "item' \<in> set (linkding ?w)" by auto
    from ih(2) [OF this i eq] show ?thesis .
  qed (use i' ih(2) [OF _ i eq] lk in simp_all)
  from 1 2 show ?case by (simp add: after_snoc w'_def)
qed

lemma remoteItems_reading:
  "set (remoteItems cfg (reading v m)) \<subseteq> fst ` set (linkding v)"
  by (auto simp: remoteItems_def reading_def withExactTag_def)

lemma otherTags_newTags: "set (otherTags T ld) \<subseteq> set (newTags T fp ld)"
  by (simp add: newTags_def)

lemma otherTags_mergedTags: "set (otherTags T ld) \<subseteq> set (mergedTags ld tags)"
  by (auto simp: set_mergedTags otherTags_def)

lemma reconcilerPut_harmless:
  assumes "reconcilerPut T (remoteItems cfg (reading v m)) cbs (LdPut i body)"
    and "b_tag_names body = Some tags"
  shows "\<exists>item\<in>set (linkding v). ld_id (fst item) = i \<and> set (otherTags T (fst item)) \<subseteq> set tags"
proof -
  from assms obtain ld where ld: "ld \<in> set (remoteItems cfg (reading v m))" "ld_id ld = i"
    and t: "(\<exists>fp. tags = newTags T fp ld) \<or> (\<exists>more. tags = mergedTags ld more)"
    unfolding reconcilerPut_def by (simp, elim bexE conjE) (erule disjE, auto)
  from ld(1) remoteItems_reading obtain item where "item \<in> set (linkding v)" "fst item = ld"
    by blast
  with ld(2) t show ?thesis
    using otherTags_newTags [of T ld] otherTags_mergedTags [of T ld] by blast
qed

lemma initialPut_harmless:
  assumes "initialPut T (remoteItems cfg (reading v m)) cbs (LdPut i body)"
    and "b_tag_names body = Some tags"
  shows "\<exists>item\<in>set (linkding v). ld_id (fst item) = i \<and> set (otherTags T (fst item)) \<subseteq> set tags"
proof -
  from assms obtain ld where ld: "ld \<in> set (remoteItems cfg (reading v m))" "ld_id ld = i"
    and t: "\<exists>more. tags = mergedTags ld more"
    unfolding initialPut_def by (simp, elim disjE bexE conjE exE) auto
  from ld(1) remoteItems_reading obtain item where "item \<in> set (linkding v)" "fst item = ld"
    by blast
  with ld(2) t show ?thesis
    using otherTags_mergedTags [of T ld] by blast
qed

lemma reconciler_tags_stay:
  assumes wf: "wellFormed root v" and i: "item \<in> set (linkding v)"
    and i': "item' \<in> set (linkding (world (snd (runTwoWaySync (server root) cfg (reading v m) now v))))"
    and eq: "ld_id (fst item') = ld_id (fst item)"
  shows "set (otherTags (twoWaySyncTag cfg) (fst item)) \<subseteq> set (ld_tag_names (fst item'))"
proof -
  let ?s = "snd (runTwoWaySync (server root) cfg (reading v m) now v)"
  have "\<exists>item\<in>set (linkding v). ld_id (fst item) = j
      \<and> set (otherTags (twoWaySyncTag cfg) (fst item)) \<subseteq> set tags"
    if "LdPut j body \<in> set (calls ?s)" "b_tag_names body = Some tags" for j body tags
  proof -
    from effect_calls [OF runTwoWaySync_effect_put, where c = "LdPut j body"] that(1)
    have "reconcilerPut (twoWaySyncTag cfg) (remoteItems cfg (reading v m))
        (localItems (reading v m)) (LdPut j body)"
      by (simp add: startRun_def)
    from reconcilerPut_harmless [OF this that(2)] show ?thesis .
  qed
  from tags_stay [OF wf this] i i' eq show ?thesis
    by (simp add: runTwoWaySync_world [symmetric])
qed

lemma initial_tags_stay:
  assumes wf: "wellFormed root v" and i: "item \<in> set (linkding v)"
    and i': "item' \<in> set (linkding (world (snd (runInitialTwoWaySync (server root) cfg (reading v m) mode now v))))"
    and eq: "ld_id (fst item') = ld_id (fst item)"
  shows "set (otherTags (twoWaySyncTag cfg) (fst item)) \<subseteq> set (ld_tag_names (fst item'))"
proof -
  let ?s = "snd (runInitialTwoWaySync (server root) cfg (reading v m) mode now v)"
  have "\<exists>item\<in>set (linkding v). ld_id (fst item) = j
      \<and> set (otherTags (twoWaySyncTag cfg) (fst item)) \<subseteq> set tags"
    if "LdPut j body \<in> set (calls ?s)" "b_tag_names body = Some tags" for j body tags
  proof -
    from effect_calls [OF runInitialTwoWaySync_effect_put, where c = "LdPut j body"] that(1)
    have "initialPut (twoWaySyncTag cfg) (remoteItems cfg (reading v m))
        (localItems (reading v m)) (LdPut j body)"
      by (simp add: startRun_def)
    from initialPut_harmless [OF this that(2)] show ?thesis .
  qed
  from tags_stay [OF wf this] i i' eq show ?thesis
    by (simp add: runInitialTwoWaySync_world [symmetric])
qed



end
